(* ===== verification/Prelude.thy ===== *)
theory Prelude
  imports Main "HOL-Library.Word" "HOL-Library.Monad_Syntax"
begin

text \<open>
  Shared vocabulary of the development: the machine types of the x86-64 C code, the
  collections of rewrite rules the component theories extend, and the generic facts on
  machine words and option-valued computations that their proofs rest on.
\<close>

unbundle bit_operations_syntax

type_synonym byte = "8 word"
type_synonym u16 = "16 word"
type_synonym u32 = "32 word"
type_synonym u64 = "64 word"
type_synonym size_t = "64 word"
type_synonym addr = "64 word"

abbreviation NULL :: addr where
  "NULL \<equiv> 0"

named_theorems mem_simps \<open>evaluation of loads and stores\<close>
named_theorems mem_intros \<open>introduction rules for mapped ranges and their contents\<close>

section \<open>The signed C types\<close>

text \<open>
  The C types \<^verbatim>\<open>int\<close> and \<^verbatim>\<open>long\<close> are integers in the ranges below; an arithmetic
  operation that leaves its range is undefined behaviour, the value \<^const>\<open>None\<close>.
\<close>

definition INT_MIN :: int where "INT_MIN = - 2147483648"
definition INT_MAX :: int where "INT_MAX = 2147483647"
definition LONG_MIN :: int where "LONG_MIN = - 9223372036854775808"
definition LONG_MAX :: int where "LONG_MAX = 9223372036854775807"

definition c_int :: "int \<Rightarrow> int option" where
  "c_int i = (if INT_MIN \<le> i \<and> i \<le> INT_MAX then Some i else None)"

definition c_long :: "int \<Rightarrow> int option" where
  "c_long i = (if LONG_MIN \<le> i \<and> i \<le> LONG_MAX then Some i else None)"

lemmas c_range_defs = INT_MIN_def INT_MAX_def LONG_MIN_def LONG_MAX_def c_int_def c_long_def

text \<open>The conversions to \<^verbatim>\<open>int\<close> and \<^verbatim>\<open>long\<close>, which reduce modulo the width.\<close>

definition to_int :: "int \<Rightarrow> int" where
  "to_int i = sint (word_of_int i :: u32)"

definition to_long :: "int \<Rightarrow> int" where
  "to_long i = sint (word_of_int i :: u64)"

lemma to_int_id: "INT_MIN \<le> i \<Longrightarrow> i \<le> INT_MAX \<Longrightarrow> to_int i = i"
  by (simp add: to_int_def c_range_defs signed_of_int signed_take_bit_int_eq_self)

lemma to_long_id: "LONG_MIN \<le> i \<Longrightarrow> i \<le> LONG_MAX \<Longrightarrow> to_long i = i"
  by (simp add: to_long_def c_range_defs signed_of_int signed_take_bit_int_eq_self)

section \<open>Words\<close>

lemma unat_neg_step: "p \<noteq> 0 \<Longrightarrow> unat (- p - 1) < unat (- p)" for p :: "'a::len word"
  by (metis measure_unat neg_equal_0_iff_equal)

lemma unat_Suc_word: "p + 1 \<noteq> 0 \<Longrightarrow> unat (p + 1) = Suc (unat p)" for p :: "'a::len word"
  by (simp add: unatSuc add.commute)

lemma unat_Suc_less: "i < n \<Longrightarrow> unat (i + 1) = Suc (unat i)" for i n :: "'a::len word"
proof -
  assume "i < n"
  then have "i \<noteq> - 1" using word_n1_ge [of n] by auto
  then have "i + 1 \<noteq> 0" by (simp add: add_eq_0_iff2)
  then show ?thesis by (rule unat_Suc_word)
qed

lemma unat_bound: "unat (p :: addr) < 18446744073709551616"
  using unsigned_less [of p] by simp

lemma unat_of_nat_small: "i < 2 ^ 64 \<Longrightarrow> unat (of_nat i :: addr) = i"
  by (simp add: unat_of_nat)

lemma unat_plus_nowrap:
  fixes p q :: addr
  assumes "unat p + unat q < 2 ^ 64"
  shows "unat (p + q) = unat p + unat q"
  using assms by (subst unat_add_lem [THEN iffD1]) simp_all

lemma unat_plus_of_nat:
  fixes p :: addr
  assumes "unat p + i < 2 ^ 64"
  shows "unat (p + of_nat i) = unat p + i"
  using assms by (simp add: unat_plus_nowrap unat_of_nat_small)

lemma unat_plus_one: "unat p + 1 < 2 ^ 64 \<Longrightarrow> unat (p + 1) = Suc (unat p)" for p :: addr
  using unat_plus_of_nat [of p 1] by simp

lemma plus_of_nat_wrap:
  fixes p :: addr
  assumes "unat p + k = 2 ^ 64"
  shows "p + of_nat k = 0"
proof -
  have "unat (p + of_nat k) = (unat p + k) mod 2 ^ 64"
    by (simp add: unat_word_ariths unat_of_nat mod_simps)
  then show ?thesis using assms by (simp add: word_unat_eq_iff)
qed

lemma word_le_plus_of_nat:
  fixes p a :: addr
  assumes "unat p \<le> unat a"
  shows "a = p + of_nat (unat a - unat p)"
  using assms unat_bound [of a] by (simp add: word_unat_eq_iff unat_plus_of_nat)

section \<open>Option-valued computations\<close>

lemma bind_eq_SomeE:
  assumes "Option.bind x f = Some y"
  obtains z where "x = Some z" "f z = Some y"
  using assms by (cases x) auto

lemma bind_Some_iff: "Option.bind x f = Some y \<longleftrightarrow> (\<exists>z. x = Some z \<and> f z = Some y)"
  by (cases x) auto

lemma unat_power2: "k < 64 \<Longrightarrow> unat (2 ^ k :: u64) = 2 ^ k"
  using unat_of_nat_small [of "2 ^ k"] power_strict_increasing [of k 64 "2 :: nat"] by simp

lemma unat_and_not_mask: "k < 64 \<Longrightarrow> unat (y AND NOT (mask k)) = unat y div 2 ^ k * 2 ^ k" for y :: u64
proof -
  assume k: "k < 64"
  have "y AND NOT (mask k) = push_bit k (drop_bit k y)"
    by (simp add: bit_eq_iff bit_simps) auto
  moreover have "unat y div 2 ^ k * 2 ^ k < 2 ^ 64"
    using le_less_trans [OF div_times_less_eq_dividend unat_bound [of y]] by simp
  moreover have "unat y div 2 ^ k < 2 ^ 64"
    using le_less_trans [OF div_le_dividend unat_bound [of y]] by simp
  ultimately show ?thesis using k
    by (simp add: unat_power2 unat_word_ariths push_bit_eq_mult unat_drop_bit_eq drop_bit_eq_div)
qed

lemma take_split: "c \<le> k \<Longrightarrow> take k xs = take c xs @ take (k - c) (drop c xs)"
  by (metis take_add le_add_diff_inverse)

end
