(* ===== verification/CMem.thy ===== *)
theory CMem
  imports Prelude
begin

text \<open>
  The memory of the C process: a partial map from 64-bit addresses to bytes.  An address
  outside the domain is unmapped; dereferencing it, or the null pointer, is undefined
  behaviour and gives \<^const>\<open>None\<close>.  Multi-byte accesses are little-endian.  The compiler
  builtins \<^verbatim>\<open>__builtin_memcpy\<close>, \<^verbatim>\<open>__builtin_memmove\<close>, \<^verbatim>\<open>__builtin_memset\<close> and
  \<^verbatim>\<open>__builtin_memcmp\<close> are modelled as the C standard describes them: \<^verbatim>\<open>memcpy\<close> on
  overlapping objects is undefined, \<^verbatim>\<open>memcmp\<close> reads both objects in full.
\<close>

type_synonym mem = "addr \<rightharpoonup> byte"

section \<open>Loads and stores\<close>

definition load8 :: "mem \<Rightarrow> addr \<Rightarrow> byte option" where
  "load8 m p = (if p = NULL then None else m p)"

definition store8 :: "mem \<Rightarrow> addr \<Rightarrow> byte \<Rightarrow> mem option" where
  "store8 m p b = (if p = NULL \<or> m p = None then None else Some (m(p \<mapsto> b)))"

fun loadn :: "mem \<Rightarrow> addr \<Rightarrow> nat \<Rightarrow> byte list option" where
  "loadn m p 0 = Some []"
| "loadn m p (Suc n) = do { b \<leftarrow> load8 m p; bs \<leftarrow> loadn m (p + 1) n; Some (b # bs) }"

fun storen :: "mem \<Rightarrow> addr \<Rightarrow> byte list \<Rightarrow> mem option" where
  "storen m p [] = Some m"
| "storen m p (b # bs) = do { m' \<leftarrow> store8 m p b; storen m' (p + 1) bs }"

primrec le_bytes :: "nat \<Rightarrow> 'a::len word \<Rightarrow> byte list" where
  "le_bytes 0 w = []"
| "le_bytes (Suc n) w = ucast w # le_bytes n (drop_bit 8 w)"

primrec le_word :: "byte list \<Rightarrow> 'a::len word" where
  "le_word [] = 0"
| "le_word (b # bs) = ucast b + 256 * le_word bs"

definition load32 :: "mem \<Rightarrow> addr \<Rightarrow> u32 option" where
  "load32 m p = do { bs \<leftarrow> loadn m p 4; Some (le_word bs) }"

definition load64 :: "mem \<Rightarrow> addr \<Rightarrow> u64 option" where
  "load64 m p = do { bs \<leftarrow> loadn m p 8; Some (le_word bs) }"

definition store32 :: "mem \<Rightarrow> addr \<Rightarrow> u32 \<Rightarrow> mem option" where
  "store32 m p w = storen m p (le_bytes 4 w)"

definition store64 :: "mem \<Rightarrow> addr \<Rightarrow> u64 \<Rightarrow> mem option" where
  "store64 m p w = storen m p (le_bytes 8 w)"

section \<open>The compiler builtins\<close>

definition sep :: "addr \<Rightarrow> nat \<Rightarrow> addr \<Rightarrow> nat \<Rightarrow> bool" where
  "sep p n q k \<longleftrightarrow> unat p + n \<le> unat q \<or> unat q + k \<le> unat p"

definition builtin_memmove :: "mem \<Rightarrow> addr \<Rightarrow> addr \<Rightarrow> size_t \<Rightarrow> mem option" where
  "builtin_memmove m dst src n = do { bs \<leftarrow> loadn m src (unat n); storen m dst bs }"

definition builtin_memcpy :: "mem \<Rightarrow> addr \<Rightarrow> addr \<Rightarrow> size_t \<Rightarrow> mem option" where
  "builtin_memcpy m dst src n =
     (if sep dst (unat n) src (unat n) then builtin_memmove m dst src n else None)"

definition builtin_memset :: "mem \<Rightarrow> addr \<Rightarrow> byte \<Rightarrow> size_t \<Rightarrow> mem option" where
  "builtin_memset m p c n = storen m p (replicate (unat n) c)"

text \<open>The sign of the first difference, bytes compared as \<^verbatim>\<open>unsigned char\<close>.\<close>

fun bytes_cmp :: "byte list \<Rightarrow> byte list \<Rightarrow> int" where
  "bytes_cmp (a # as) (b # bs) = (if a < b then -1 else if b < a then 1 else bytes_cmp as bs)"
| "bytes_cmp _ _ = 0"

definition builtin_memcmp :: "mem \<Rightarrow> addr \<Rightarrow> addr \<Rightarrow> size_t \<Rightarrow> int option" where
  "builtin_memcmp m p q n =
     do { as \<leftarrow> loadn m p (unat n); bs \<leftarrow> loadn m q (unat n); Some (bytes_cmp as bs) }"

section \<open>Mapped ranges and their contents\<close>

definition in_range :: "addr \<Rightarrow> addr \<Rightarrow> nat \<Rightarrow> bool" where
  "in_range a p n \<longleftrightarrow> unat p \<le> unat a \<and> unat a < unat p + n"

fun mapped :: "mem \<Rightarrow> addr \<Rightarrow> nat \<Rightarrow> bool" where
  "mapped m p 0 = True"
| "mapped m p (Suc n) = (load8 m p \<noteq> None \<and> mapped m (p + 1) n)"

fun bytes_at :: "mem \<Rightarrow> addr \<Rightarrow> byte list \<Rightarrow> bool" where
  "bytes_at m p [] = True"
| "bytes_at m p (b # bs) = (load8 m p = Some b \<and> bytes_at m (p + 1) bs)"

fun write_bytes :: "mem \<Rightarrow> addr \<Rightarrow> byte list \<Rightarrow> mem" where
  "write_bytes m p [] = m"
| "write_bytes m p (b # bs) = write_bytes (m(p \<mapsto> b)) (p + 1) bs"

text \<open>A NUL-terminated C string: the bytes before the terminator are its characters.\<close>

definition cstr :: "mem \<Rightarrow> addr \<Rightarrow> byte list \<Rightarrow> bool" where
  "cstr m p s \<longleftrightarrow> 0 \<notin> set s \<and> bytes_at m p (s @ [0])"

text \<open>Two memories agree outside a range.\<close>

definition same_except :: "mem \<Rightarrow> mem \<Rightarrow> addr \<Rightarrow> nat \<Rightarrow> bool" where
  "same_except m m' p n \<longleftrightarrow> (\<forall>a. \<not> in_range a p n \<longrightarrow> m' a = m a)"

text \<open>A memory without a range.\<close>

definition unmap_range :: "mem \<Rightarrow> addr \<Rightarrow> nat \<Rightarrow> mem" where
  "unmap_range m p n = (\<lambda>a. if in_range a p n then None else m a)"

section \<open>Facts on ranges\<close>

lemma load8_SomeD: "load8 m p = Some b \<Longrightarrow> p \<noteq> NULL"
  by (auto simp: load8_def split: if_splits)

lemma load8_not_null [simp]: "load8 m NULL = None"
  by (simp add: load8_def)

lemma mapped_bounds: "mapped m p n \<Longrightarrow> 0 < n \<Longrightarrow> 0 < unat p \<and> unat p + n \<le> 2 ^ 64"
proof (induction m p n rule: mapped.induct)
  case (2 m p n)
  then have "p \<noteq> NULL" by (auto dest: load8_SomeD)
  moreover have "unat p + Suc n \<le> 2 ^ 64" if "0 < n"
  proof -
    from that 2 have ih: "0 < unat (p + 1) \<and> unat (p + 1) + n \<le> 2 ^ 64" by simp
    then have "unat (p + 1) = Suc (unat p)"
      by (intro unat_Suc_word) (auto simp: unat_gt_0)
    with ih show ?thesis by simp
  qed
  moreover have "unat p + 1 \<le> 2 ^ 64" using unat_bound [of p] by simp
  ultimately show ?case by (cases n) (simp_all add: unat_gt_0)
qed simp

lemma mapped_range: "mapped m p n \<Longrightarrow> in_range a p n \<Longrightarrow> \<exists>b. load8 m a = Some b"
proof (induction m p n rule: mapped.induct)
  case (2 m p n)
  show ?case
  proof (cases "a = p")
    case True with 2 show ?thesis by auto
  next
    case False
    with 2 have gt: "unat p < unat a" "unat a < unat p + Suc n"
      by (auto simp: in_range_def word_unat_eq_iff)
    have "p + 1 \<noteq> 0"
    proof
      assume "p + 1 = 0"
      with 2 gt show False using mapped_bounds [of m "p + 1" n] by (cases n) auto
    qed
    then have "in_range a (p + 1) n" using gt by (simp add: in_range_def unat_Suc_word)
    with 2 show ?thesis by simp
  qed
qed (auto simp: in_range_def)

lemma mappedI:
  assumes "0 < unat p" "unat p + n \<le> 2 ^ 64" "\<And>a. in_range a p n \<Longrightarrow> m a \<noteq> None"
  shows "mapped m p n"
  using assms
proof (induction m p n rule: mapped.induct)
  case (2 m p n)
  have "load8 m p \<noteq> None"
    using 2 by (auto simp: load8_def in_range_def)
  moreover have "mapped m (p + 1) n"
  proof (cases n)
    case (Suc k)
    have u: "unat (p + 1) = Suc (unat p)"
      using 2 Suc by (intro unat_plus_one) simp
    have r: "in_range a p (Suc n)" if "in_range a (p + 1) n" for a
      using that u by (simp add: in_range_def)
    show ?thesis using 2 u r by auto
  qed simp
  ultimately show ?case by simp
qed simp

lemma mapped_mono: "mapped m p n \<Longrightarrow> (\<And>a. m a \<noteq> None \<Longrightarrow> m' a \<noteq> None) \<Longrightarrow> mapped m' p n"
  by (induction m p n rule: mapped.induct) (auto simp: load8_def split: if_splits)

lemma mapped_sub:
  assumes "mapped m p n" "unat p \<le> unat q" "unat q + k \<le> unat p + n" "0 < unat q"
  shows "mapped m q k"
proof (rule mappedI)
  show "0 < unat q" by fact
  show "unat q + k \<le> 2 ^ 64"
    using assms mapped_bounds [of m p n] unat_bound [of p] by (cases n) auto
  show "m a \<noteq> None" if "in_range a q k" for a
    using that assms mapped_range [of m p n a]
    by (auto simp: in_range_def load8_def split: if_splits)
qed

lemma mapped_append:
  "mapped m p (a + b) \<longleftrightarrow> mapped m p a \<and> mapped m (p + of_nat a) b"
  by (induction m p a rule: mapped.induct) (auto simp: ac_simps)

lemma mapped_less: "mapped m p n \<Longrightarrow> k \<le> n \<Longrightarrow> mapped m p k"
  using mapped_append [of m p k "n - k"] by simp

lemma mapped_tail: "mapped m p (a + b) \<Longrightarrow> mapped m (p + of_nat a) b"
  using mapped_append by blast

lemma unat_range:
  assumes "mapped m p n" "i < n"
  shows "unat (p + of_nat i) = unat p + i"
  using assms mapped_bounds [of m p n] by (intro unat_plus_of_nat) auto

section \<open>Facts on contents\<close>

lemma bytes_at_mapped: "bytes_at m p bs \<Longrightarrow> mapped m p (length bs)"
  by (induction m p bs rule: bytes_at.induct) auto

lemma bytes_at_append [simp]:
  "bytes_at m p (xs @ ys) \<longleftrightarrow> bytes_at m p xs \<and> bytes_at m (p + of_nat (length xs)) ys"
  by (induction m p xs rule: bytes_at.induct) (auto simp: ac_simps)

lemma bytes_at_slice: "bytes_at m p bs \<Longrightarrow> bytes_at m (p + of_nat i) (take k (drop i bs))"
proof (cases "i \<le> length bs")
  case True
  assume "bytes_at m p bs"
  then have "bytes_at m (p + of_nat i) (drop i bs)"
    using True bytes_at_append [of m p "take i bs" "drop i bs"] by (simp add: min.absorb2)
  then show ?thesis by (metis append_take_drop_id bytes_at_append)
qed simp

lemma bytes_at_nth: "bytes_at m p bs \<Longrightarrow> i < length bs \<Longrightarrow> load8 m (p + of_nat i) = Some (bs ! i)"
proof (induction m p bs arbitrary: i rule: bytes_at.induct)
  case (2 m p b bs)
  then show ?case by (cases i) (auto simp: ac_simps)
qed simp

lemma bytes_atI:
  "(\<And>i. i < length bs \<Longrightarrow> load8 m (p + of_nat i) = Some (bs ! i)) \<Longrightarrow> bytes_at m p bs"
proof (induction bs arbitrary: p)
  case (Cons b bs)
  have "load8 m p = Some b" using Cons.prems [of 0] by simp
  moreover have "bytes_at m (p + 1) bs"
    using Cons.prems [of "Suc i" for i] by (intro Cons.IH) (simp add: ac_simps)
  ultimately show ?case by simp
qed simp

lemma bytes_at_inj:
  "bytes_at m p xs \<Longrightarrow> bytes_at m p ys \<Longrightarrow> length xs = length ys \<Longrightarrow> xs = ys"
  by (induction m p xs arbitrary: ys rule: bytes_at.induct)
    (auto simp: length_Suc_conv dest!: sym [of "Suc _"])

lemma bytes_at_cong:
  assumes "bytes_at m p bs" "\<And>a. in_range a p (length bs) \<Longrightarrow> m' a = m a"
  shows "bytes_at m' p bs"
proof (rule bytes_atI)
  fix i assume i: "i < length bs"
  have "in_range (p + of_nat i) p (length bs)"
    using i unat_range [OF bytes_at_mapped [OF assms(1)] i] by (simp add: in_range_def)
  then have "m' (p + of_nat i) = m (p + of_nat i)" by (rule assms(2))
  with bytes_at_nth [OF assms(1) i] show "load8 m' (p + of_nat i) = Some (bs ! i)"
    by (simp add: load8_def split: if_splits)
qed

lemma loadn_iff: "loadn m p n = Some bs \<longleftrightarrow> length bs = n \<and> bytes_at m p bs"
proof (induction n arbitrary: p bs)
  case (Suc n)
  show ?case by (cases bs) (auto simp: bind_Some_iff Suc.IH)
qed (auto simp: loadn.simps)

lemma loadn_bytes_at [mem_simps]: "bytes_at m p bs \<Longrightarrow> loadn m p (length bs) = Some bs"
  by (simp add: loadn_iff)

lemma mapped_bytes: "mapped m p n \<Longrightarrow> \<exists>bs. length bs = n \<and> bytes_at m p bs"
proof (induction m p n rule: mapped.induct)
  case (2 m p n)
  then obtain b bs where "load8 m p = Some b" "length bs = n" "bytes_at m (p + 1) bs" by auto
  then show ?case by (intro exI [of _ "b # bs"]) simp
qed simp

lemma mapped_loadn: "mapped m p n \<Longrightarrow> \<exists>bs. loadn m p n = Some bs"
  using mapped_bytes by (simp add: loadn_iff) 

lemma storen_eq:
  "storen m p bs = (if mapped m p (length bs) then Some (write_bytes m p bs) else None)"
proof (induction bs arbitrary: m p)
  case (Cons b bs)
  have "mapped (m(p \<mapsto> b)) (p + 1) (length bs) = mapped m (p + 1) (length bs)"
    if "m p \<noteq> None"
    using that by (intro iffI; elim mapped_mono) (auto split: if_splits)
  with Cons show ?case by (auto simp: store8_def load8_def simp del: fun_upd_apply)
qed simp

lemma write_bytes_dom: "m a \<noteq> None \<Longrightarrow> write_bytes m p bs a \<noteq> None"
  by (induction bs arbitrary: m p) auto

lemma mapped_write: "mapped m p n \<Longrightarrow> mapped (write_bytes m q bs) p n"
  by (erule mapped_mono) (rule write_bytes_dom)

lemma write_bytes_append:
  "write_bytes m p (xs @ ys) = write_bytes (write_bytes m p xs) (p + of_nat (length xs)) ys"
  by (induction xs arbitrary: m p) (auto simp: ac_simps)

lemma write_bytes_other:
  assumes "unat p + length bs \<le> 2 ^ 64" "\<not> in_range a p (length bs)"
  shows "write_bytes m p bs a = m a"
  using assms
proof (induction bs arbitrary: m p)
  case (Cons b bs)
  show ?case
  proof (cases bs)
    case Nil
    with Cons.prems show ?thesis by (auto simp: in_range_def)
  next
    case (Cons c cs)
    have u: "unat (p + 1) = Suc (unat p)"
      using Cons.prems Cons by (intro unat_plus_one) simp
    have "\<not> in_range a (p + 1) (length bs)" "a \<noteq> p"
      using Cons.prems u by (auto simp: in_range_def)
    with Cons.IH Cons.prems u show ?thesis by simp
  qed
qed simp

lemma write_bytes_at:
  assumes "0 < unat p" "unat p + length bs \<le> 2 ^ 64"
  shows "bytes_at (write_bytes m p bs) p bs"
  using assms
proof (induction bs arbitrary: m p)
  case (Cons b bs)
  show ?case
  proof (cases bs)
    case Nil
    with Cons.prems show ?thesis by (auto simp: load8_def)
  next
    case (Cons c cs)
    have u: "unat (p + 1) = Suc (unat p)"
      using Cons.prems Cons by (intro unat_plus_one) simp
    have "write_bytes (m(p \<mapsto> b)) (p + 1) bs p = Some b"
      using Cons.prems u by (subst write_bytes_other) (auto simp: in_range_def)
    with Cons.IH Cons.prems u show ?thesis by (auto simp: load8_def)
  qed
qed simp

lemma write_bytes_range:
  assumes "unat p + length bs \<le> 2 ^ 64" "i < length bs"
  shows "write_bytes m p bs (p + of_nat i) = Some (bs ! i)"
  using assms
proof (induction bs arbitrary: m p i)
  case (Cons b bs)
  show ?case
  proof (cases i)
    case 0
    have "write_bytes (m(p \<mapsto> b)) (p + 1) bs p = Some b"
    proof (cases bs)
      case (Cons c cs)
      have "unat (p + 1) = Suc (unat p)"
        using Cons.prems Cons by (intro unat_plus_one) simp
      then show ?thesis
        using Cons.prems by (subst write_bytes_other) (auto simp: in_range_def)
    qed simp
    with 0 show ?thesis by simp
  next
    case (Suc k)
    have "unat (p + 1) = Suc (unat p)"
      using Cons.prems Suc by (intro unat_plus_one) simp
    then show ?thesis
      using Cons.IH [of "p + 1" k "m(p \<mapsto> b)"] Cons.prems Suc
      by (simp add: ac_simps del: fun_upd_apply)
  qed
qed simp

lemma same_except_write:
  "unat p + length bs \<le> 2 ^ 64 \<Longrightarrow> same_except m (write_bytes m p bs) p (length bs)"
  by (simp add: same_except_def write_bytes_other)

lemma same_except_bytes_at:
  assumes "same_except m m' p n" "bytes_at m q bs" "sep p n q (length bs)"
  shows "bytes_at m' q bs"
  using assms(2)
proof (rule bytes_at_cong)
  show "m' a = m a" if "in_range a q (length bs)" for a
    using that assms(1,3) by (auto simp: same_except_def in_range_def sep_def)
qed

lemma same_except_refl [simp]: "same_except m m p n"
  by (simp add: same_except_def)

lemma same_except_trans:
  assumes "same_except m m' p n" "same_except m' m'' q k"
    "unat r \<le> unat p" "unat p + n \<le> unat r + l" "unat r \<le> unat q" "unat q + k \<le> unat r + l"
  shows "same_except m m'' r l"
proof -
  have "m'' a = m a" if "\<not> in_range a r l" for a
  proof -
    have "\<not> in_range a p n" "\<not> in_range a q k"
      using that assms(3-6) by (auto simp: in_range_def)
    then show ?thesis using assms(1,2) by (simp add: same_except_def)
  qed
  then show ?thesis by (simp add: same_except_def)
qed

lemma sep_sym: "sep p n q k \<longleftrightarrow> sep q k p n"
  by (auto simp: sep_def)

section \<open>Facts on multi-byte accesses\<close>

lemma length_le_bytes [simp]: "length (le_bytes n w) = n"
  by (induction n arbitrary: w) simp_all

lemma le_word_le_bytes:
  fixes w :: "'a::len word"
  assumes "8 \<le> LENGTH('a)"
  shows "(le_word (le_bytes n w) :: 'a word) = take_bit (8 * n) w"
proof (induction n arbitrary: w)
  case (Suc n)
  have "(ucast (ucast w :: byte) :: 'a word) = take_bit 8 w"
    using assms by (intro bit_word_eqI) (auto simp: bit_unsigned_iff bit_take_bit_iff)
  moreover have "256 * take_bit (8 * n) (drop_bit 8 w) = push_bit 8 (take_bit (8 * n) (drop_bit 8 w))"
    by (simp add: push_bit_eq_mult)
  moreover have "take_bit 8 w + push_bit 8 (take_bit (8 * n) (drop_bit 8 w)) = take_bit (8 * Suc n) w"
  proof -
    have "take_bit 8 w + push_bit 8 (take_bit (8 * n) (drop_bit 8 w))
        = or (take_bit 8 w) (push_bit 8 (take_bit (8 * n) (drop_bit 8 w)))"
      by (rule disjunctive_add) (auto simp: bit_take_bit_iff bit_push_bit_iff)
    also have "\<dots> = take_bit (8 * Suc n) w"
      by (intro bit_word_eqI)
        (auto simp: bit_or_iff bit_take_bit_iff bit_push_bit_iff bit_drop_bit_eq)
    finally show ?thesis .
  qed
  ultimately show ?case by (simp add: Suc.IH)
qed simp

lemma le_word64 [mem_simps]: "le_word (le_bytes 8 w) = w" for w :: u64
  using le_word_le_bytes [of 8 w] by (simp add: take_bit_word_eq_self)

lemma le_word32 [mem_simps]: "le_word (le_bytes 4 w) = w" for w :: u32
  using le_word_le_bytes [of 4 w] by (simp add: take_bit_word_eq_self)

lemma load64_bytes_at: "bytes_at m p (le_bytes 8 w) \<Longrightarrow> load64 m p = Some w"
  using loadn_bytes_at [of m p "le_bytes 8 w"] by (simp add: load64_def le_word64)

lemma load32_bytes_at: "bytes_at m p (le_bytes 4 w) \<Longrightarrow> load32 m p = Some w"
  using loadn_bytes_at [of m p "le_bytes 4 w"] by (simp add: load32_def le_word32)

lemma store64_mapped:
  "mapped m p 8 \<Longrightarrow> store64 m p w = Some (write_bytes m p (le_bytes 8 w))"
  by (simp add: store64_def storen_eq)

section \<open>Facts on the builtins\<close>

lemma memmove_mapped:
  "mapped m dst (length bs) \<Longrightarrow> bytes_at m src bs \<Longrightarrow> unat n = length bs \<Longrightarrow>
   builtin_memmove m dst src n = Some (write_bytes m dst bs)"
  by (simp add: builtin_memmove_def loadn_bytes_at storen_eq)

lemma memcpy_mapped:
  "mapped m dst (length bs) \<Longrightarrow> bytes_at m src bs \<Longrightarrow> unat n = length bs \<Longrightarrow>
   sep dst (length bs) src (length bs) \<Longrightarrow>
   builtin_memcpy m dst src n = Some (write_bytes m dst bs)"
  by (simp add: builtin_memcpy_def memmove_mapped)

lemma bytes_cmp_eq_0: "length as = length bs \<Longrightarrow> bytes_cmp as bs = 0 \<longleftrightarrow> as = bs"
  by (induction as bs rule: list_induct2) auto

lemma memcmp_bytes:
  "bytes_at m p as \<Longrightarrow> bytes_at m q bs \<Longrightarrow> length as = unat n \<Longrightarrow> length bs = unat n \<Longrightarrow>
   builtin_memcmp m p q n = Some (bytes_cmp as bs)"
  using loadn_bytes_at [of m p as] loadn_bytes_at [of m q bs] by (simp add: builtin_memcmp_def)

section \<open>Facts on C strings\<close>

lemma cstr_empty [simp]: "cstr m p [] \<longleftrightarrow> load8 m p = Some 0"
  by (simp add: cstr_def)

lemma cstr_Cons [simp]: "cstr m p (c # s) \<longleftrightarrow> c \<noteq> 0 \<and> load8 m p = Some c \<and> cstr m (p + 1) s"
  by (auto simp: cstr_def ac_simps)

lemma cstr_mapped: "cstr m p s \<Longrightarrow> mapped m p (Suc (length s))"
  using bytes_at_mapped [of m p "s @ [0]"] by (simp add: cstr_def)

lemma cstr_bytes_at: "cstr m p s \<Longrightarrow> bytes_at m p (s @ [0])"
  by (simp add: cstr_def)

lemma cstr_append:
  "cstr m p (s @ t) \<longleftrightarrow> 0 \<notin> set s \<and> bytes_at m p s \<and> cstr m (p + of_nat (length s)) t"
  by (auto simp: cstr_def ac_simps)

lemma cstr_inj: "cstr m p s \<Longrightarrow> cstr m p t \<Longrightarrow> s = t"
proof (induction s arbitrary: p t)
  case Nil then show ?case by (cases t) auto
next
  case (Cons c s) then show ?case by (cases t) auto
qed

lemma cstr_bounds: "cstr m p s \<Longrightarrow> 0 < unat p \<and> unat p + Suc (length s) \<le> 2 ^ 64"
  by (drule cstr_mapped, drule mapped_bounds) simp_all

lemma same_except_cstr:
  "same_except m m' p n \<Longrightarrow> cstr m q s \<Longrightarrow> sep p n q (Suc (length s)) \<Longrightarrow> cstr m' q s"
  using same_except_bytes_at [of m m' p n q "s @ [0]"] by (simp add: cstr_def)

lemma mapped_write_dom: "mapped m p (length bs) \<Longrightarrow> (write_bytes m p bs a = None) = (m a = None)"
proof (cases "in_range a p (length bs)")
  case True
  assume "mapped m p (length bs)"
  then have "m a \<noteq> None" using mapped_range [OF _ True] by (fastforce simp: load8_def split: if_splits)
  with write_bytes_dom [of m a p bs] show ?thesis by blast
next
  case False
  assume "mapped m p (length bs)"
  then show ?thesis
    using False mapped_bounds [of m p "length bs"] write_bytes_other [of p bs a m] by (cases bs) auto
qed

lemma load64_iff: "load64 m p = Some w \<longleftrightarrow> (\<exists>bs. length bs = 8 \<and> bytes_at m p bs \<and> le_word bs = w)"
  by (auto simp: load64_def bind_Some_iff loadn_iff)

lemma load64_cong:
  assumes "load64 m p = Some w" "\<And>a. in_range a p 8 \<Longrightarrow> m' a = m a"
  shows "load64 m' p = Some w"
proof -
  obtain bs where bs: "length bs = 8" "bytes_at m p bs" "le_word bs = w"
    using assms(1) by (auto simp: load64_iff)
  have "bytes_at m' p bs" by (rule bytes_at_cong [OF bs(2)]) (use assms(2) bs(1) in simp)
  with bs show ?thesis by (auto simp: load64_iff)
qed

lemma bytes_at_prefix:
  assumes "bytes_at m p xs" "bytes_at m p ys" "length ys \<le> length xs"
  shows "ys = take (length ys) xs"
proof -
  have "bytes_at m p (take (length ys) xs)" using bytes_at_slice [OF assms(1), of 0] by simp
  from bytes_at_inj [OF assms(2) this] show ?thesis using assms(3) by simp
qed

text \<open>Copying any readable bytes that do not meet the block into its front.\<close>

lemma copy_into_block:
  assumes "mapped m p n" "mapped m q l" "sep p l q l" "l \<le> n" "unat c = l"
    "bytes_at m q xs" "length ys \<le> l" "ys = take (length ys) xs"
  shows "\<exists>m'. builtin_memcpy m p q c = Some m' \<and> bytes_at m' p ys \<and> same_except m m' p l"
proof -
  obtain zs where zs: "length zs = l" "bytes_at m q zs" using mapped_bytes [OF assms(2)] by blast
  have mp: "mapped m p l" using assms(1,4) by (rule mapped_less)
  have "bytes_at m q ys" using bytes_at_slice [OF assms(6), of 0 "length ys"] assms(8) by simp
  then have pre: "ys = take (length ys) zs" using bytes_at_prefix [OF zs(2)] zs(1) assms(7) by blast
  have m': "builtin_memcpy m p q c = Some (write_bytes m p zs)"
    using memcpy_mapped [of m p zs q c] mp zs assms(3,5) by simp
  moreover have "bytes_at (write_bytes m p zs) p zs" if "l \<noteq> 0"
    using that mapped_bounds [OF mp] zs(1) by (intro write_bytes_at) simp_all
  then have "bytes_at (write_bytes m p zs) p ys"
    using bytes_at_slice [of "write_bytes m p zs" p zs 0 "length ys"] pre zs(1) assms(7) by (cases "l = 0") auto
  moreover have "same_except m (write_bytes m p zs) p l"
    using same_except_write [of p zs m] mapped_bounds [OF mp] zs(1) by (cases "l = 0") (auto simp: same_except_def)
  ultimately show ?thesis by blast
qed

end
