(* ===== verification/Ring.thy ===== *)
theory Ring
  imports Main
begin

text \<open>
  Array rings and the queue interface they provide.  Two components keep a ring: the raw
  keyboard buffer of the kernel (\<^verbatim>\<open>RawKeyBuffer\<close> in
  \<^verbatim>\<open>src/innigkeit/drivers/input/ps2.zig\<close>) and the key queue of the DOOM platform layer
  (\<^verbatim>\<open>s_key_queue\<close> in \<^verbatim>\<open>apps/doom/doomgeneric_innigkeit.c\<close>).  Both hold one element less
  than the array has cells, since equal positions mean empty.
\<close>

section \<open>The queue interface\<close>

locale bounded_fifo =
  fixes push :: "'a \<Rightarrow> 'q \<Rightarrow> 'q"
    and pop :: "'q \<Rightarrow> ('a \<times> 'q) option"
    and items :: "'q \<Rightarrow> 'a list"
    and invar :: "'q \<Rightarrow> bool"
    and capacity :: nat
  assumes push_items: "invar q \<Longrightarrow> length (items q) < capacity \<Longrightarrow> items (push x q) = items q @ [x]"
    and push_invar: "invar q \<Longrightarrow> invar (push x q)"
    and pop_None: "invar q \<Longrightarrow> pop q = None \<longleftrightarrow> items q = []"
    and pop_Some: "invar q \<Longrightarrow> pop q = Some (x, q') \<Longrightarrow> items q = x # items q' \<and> invar q'"
    and items_bounded: "invar q \<Longrightarrow> length (items q) \<le> capacity"
begin

primrec pop_upto :: "nat \<Rightarrow> 'q \<Rightarrow> 'a list \<times> 'q" where
  "pop_upto 0 q = ([], q)"
| "pop_upto (Suc n) q =
     (case pop q of None \<Rightarrow> ([], q)
      | Some (x, q') \<Rightarrow> (let (xs, q'') = pop_upto n q' in (x # xs, q'')))"

lemma push_all_invar: "invar q \<Longrightarrow> invar (fold push xs q)"
  by (induction xs arbitrary: q) (simp_all add: push_invar)

lemma push_all_items:
  "invar q \<Longrightarrow> length (items q) + length xs \<le> capacity \<Longrightarrow> items (fold push xs q) = items q @ xs"
  by (induction xs arbitrary: q) (simp_all add: push_items push_invar)

lemma pop_upto_items:
  "invar q \<Longrightarrow> pop_upto n q = (xs, q') \<Longrightarrow>
   xs = take n (items q) \<and> items q' = drop n (items q) \<and> invar q'"
proof (induction n arbitrary: q xs)
  case (Suc n)
  show ?case
  proof (cases "pop q")
    case None
    with Suc.prems show ?thesis by (auto simp: pop_None)
  next
    case (Some xq)
    obtain x q1 where xq: "xq = (x, q1)" by (cases xq)
    obtain ys where ys: "pop_upto n q1 = (ys, q')" "xs = x # ys"
      using Suc.prems Some xq by (auto simp: Let_def split: prod.splits)
    have "items q = x # items q1" "invar q1" using pop_Some Suc.prems Some xq by auto
    with Suc.IH [OF _ ys(1)] ys(2) show ?thesis by simp
  qed
qed simp

lemma push_then_pop:
  assumes "invar q" "items q = []" "length xs \<le> capacity" "length xs \<le> n"
  shows "fst (pop_upto n (fold push xs q)) = xs"
proof -
  obtain ys q' where p: "pop_upto n (fold push xs q) = (ys, q')" by fastforce
  have "ys = take n (items (fold push xs q))"
    using pop_upto_items [OF push_all_invar [OF assms(1)] p] by simp
  with assms p show ?thesis by (simp add: push_all_items)
qed

end

text \<open>A ring that refuses input while it is full keeps the oldest elements.\<close>

locale dropping_fifo = bounded_fifo +
  assumes push_full: "invar q \<Longrightarrow> length (items q) = capacity \<Longrightarrow> push x q = q"
begin

lemma push_all_prefix:
  "invar q \<Longrightarrow> items (fold push xs q) = items q @ take (capacity - length (items q)) xs"
proof (induction xs arbitrary: q)
  case (Cons x xs)
  show ?case
  proof (cases "length (items q) < capacity")
    case True
    then have "items (push x q) = items q @ [x]" using Cons.prems by (simp add: push_items)
    moreover have "capacity - length (items q) = Suc (capacity - length (items q @ [x]))"
      using True by simp
    ultimately show ?thesis
      using Cons.IH [of "push x q"] Cons.prems by (simp add: push_invar)
  next
    case False
    then have "length (items q) = capacity" using Cons.prems items_bounded [of q] by simp
    then show ?thesis using Cons by (simp add: push_full)
  qed
qed simp

end

section \<open>Array rings\<close>

definition ring_count :: "nat \<Rightarrow> nat \<Rightarrow> nat \<Rightarrow> nat" where
  "ring_count n r w = (if r \<le> w then w - r else w + n - r)"

definition ring_items :: "nat \<Rightarrow> 'a list \<Rightarrow> nat \<Rightarrow> nat \<Rightarrow> 'a list" where
  "ring_items n buf r w = map (\<lambda>i. buf ! ((r + i) mod n)) [0..<ring_count n r w]"

lemma length_ring_items [simp]: "length (ring_items n buf r w) = ring_count n r w"
  by (simp add: ring_items_def)

lemma ring_count_less: "r < n \<Longrightarrow> w < n \<Longrightarrow> ring_count n r w < n"
  by (auto simp: ring_count_def)

lemma ring_items_empty: "r < n \<Longrightarrow> w < n \<Longrightarrow> ring_items n buf r w = [] \<longleftrightarrow> r = w"
  by (auto simp: ring_items_def ring_count_def)

lemma mod_Suc_ring: "w < n \<Longrightarrow> Suc w mod n = (if Suc w = n then 0 else Suc w)"
  by auto

lemma ring_count_push:
  "r < n \<Longrightarrow> w < n \<Longrightarrow> Suc w mod n \<noteq> r \<Longrightarrow> ring_count n r (Suc w mod n) = Suc (ring_count n r w)"
  by (auto simp: ring_count_def mod_Suc_ring split: if_splits)

lemma ring_count_full:
  "r < n \<Longrightarrow> w < n \<Longrightarrow> Suc w mod n = r \<longleftrightarrow> Suc (ring_count n r w) = n"
  by (auto simp: ring_count_def mod_Suc_ring split: if_splits)

lemma ring_pos:
  "r < n \<Longrightarrow> w < n \<Longrightarrow> i < n \<Longrightarrow> (r + i) mod n = w \<longleftrightarrow> i = ring_count n r w"
  by (auto simp: ring_count_def mod_if split: if_splits)

lemma ring_push:
  assumes "r < n" "w < n" "length buf = n" "Suc w mod n \<noteq> r"
  shows "ring_items n (buf[w := x]) r (Suc w mod n) = ring_items n buf r w @ [x]"
proof -
  let ?k = "ring_count n r w"
  have "buf[w := x] ! ((r + i) mod n) = buf ! ((r + i) mod n)" if "i < ?k" for i
    using ring_pos [OF assms(1,2), of i] ring_count_less [OF assms(1,2)] that by simp
  moreover have "(r + ?k) mod n = w"
    using ring_pos [OF assms(1,2)] ring_count_less [OF assms(1,2)] by blast
  ultimately show ?thesis
    using assms by (simp add: ring_items_def ring_count_push)
qed

lemma ring_push_full:
  assumes "r < n" "w < n" "Suc w mod n = r"
  shows "ring_items n buf' r (Suc w mod n) = []"
  using assms by (simp add: ring_items_def ring_count_def)

lemma ring_pop:
  assumes "r < n" "w < n" "r \<noteq> w"
  shows "ring_items n buf r w = buf ! r # ring_items n buf (Suc r mod n) w"
proof -
  have "ring_count n r w = Suc (ring_count n (Suc r mod n) w)"
    using assms by (auto simp: ring_count_def mod_Suc_ring)
  moreover have "(r + Suc i) mod n = (Suc r mod n + i) mod n" for i
    by (metis add_Suc_right add_Suc_shift mod_add_left_eq)
  ultimately show ?thesis
    using assms(1) by (simp add: ring_items_def map_upt_Suc del: upt_Suc)
qed

end
