(* ===== verification/Kernel.thy ===== *)
theory Kernel
  imports CMem Ring
begin

text \<open>
  The kernel services behind the system calls that the DOOM port makes: the error codes of
  \<^verbatim>\<open>library/innigkeit/Error.zig\<close>, the user-pointer checks of
  \<^verbatim>\<open>src/innigkeit/user/validate.zig\<close>, the handlers \<^verbatim>\<open>mmap\<close>, \<^verbatim>\<open>write\<close>, \<^verbatim>\<open>initfs_read\<close>,
  \<^verbatim>\<open>blk_read\<close>, \<^verbatim>\<open>kbd_read\<close> and \<^verbatim>\<open>uptime_ms\<close> under \<^verbatim>\<open>src/innigkeit/user/handlers\<close>, the ustar
  lookup of \<^verbatim>\<open>src/innigkeit/filesystem/initfs.zig\<close> and the raw key buffer of
  \<^verbatim>\<open>src/innigkeit/drivers/input/ps2.zig\<close>.

  The record \<open>machine\<close> holds what the handlers read and write.  The address-space
  allocator (\<^verbatim>\<open>AddressSpace.map\<close>), the sector reads of the block driver and the clock are
  function-valued fields, so that the theorems hold for every behaviour of those parts
  that meets the hypotheses stated.
\<close>

section \<open>Errors and their wire codes\<close>

datatype syscall_error = PermissionDenied | BadHandle | BadAddress | WouldBlock | OutOfMemory
  | NotFound | AlreadyExists | InvalidArgument | NoDevice | NoSpace | IoError | Unsupported
  | Unknown

text \<open>\<^verbatim>\<open>Error.code\<close>; \<^verbatim>\<open>Unknown\<close> is unreachable there, the value \<^const>\<open>None\<close>.\<close>

fun error_code :: "syscall_error \<Rightarrow> int option" where
  "error_code PermissionDenied = Some (- 1)"
| "error_code BadHandle = Some (- 9)"
| "error_code BadAddress = Some (- 14)"
| "error_code WouldBlock = Some (- 11)"
| "error_code OutOfMemory = Some (- 12)"
| "error_code NotFound = Some (- 2)"
| "error_code AlreadyExists = Some (- 17)"
| "error_code InvalidArgument = Some (- 22)"
| "error_code NoDevice = Some (- 19)"
| "error_code NoSpace = Some (- 28)"
| "error_code IoError = Some (- 5)"
| "error_code Unsupported = Some (- 38)"
| "error_code Unknown = None"

definition fromCode :: "int \<Rightarrow> syscall_error" where
  "fromCode raw =
     (if raw = - 1 then PermissionDenied else if raw = - 2 then NotFound
      else if raw = - 5 then IoError else if raw = - 9 then BadHandle
      else if raw = - 11 then WouldBlock else if raw = - 12 then OutOfMemory
      else if raw = - 14 then BadAddress else if raw = - 17 then AlreadyExists
      else if raw = - 19 then NoDevice else if raw = - 22 then InvalidArgument
      else if raw = - 28 then NoSpace else if raw = - 38 then Unsupported
      else Unknown)"

text \<open>The errors of \<^verbatim>\<open>AddressSpace.map\<close>.\<close>

datatype map_error = ZeroSize | RequestedRangeUnavailable | MapOutOfMemory
  | MaxProtectionExceeded | MaxProtectionNone | SizeNotMultipleOfAPage | BaseNotPageAligned

section \<open>The raw key buffer\<close>

record RawKeyBuffer =
  kb_buf :: "byte list"
  kb_read_pos :: nat
  kb_write_pos :: nat

definition raw_kb_init :: RawKeyBuffer where
  "raw_kb_init = \<lparr>kb_buf = replicate 256 0, kb_read_pos = 0, kb_write_pos = 0\<rparr>"

definition raw_kb_push :: "byte \<Rightarrow> RawKeyBuffer \<Rightarrow> RawKeyBuffer" where
  "raw_kb_push b q =
     (let w = kb_write_pos q; nxt = (w + 1) mod length (kb_buf q) in
      if nxt = kb_read_pos q then q
      else q\<lparr>kb_buf := (kb_buf q)[w := b], kb_write_pos := nxt\<rparr>)"

definition raw_kb_pop :: "RawKeyBuffer \<Rightarrow> (byte \<times> RawKeyBuffer) option" where
  "raw_kb_pop q =
     (let r = kb_read_pos q in
      if r = kb_write_pos q then None
      else Some (kb_buf q ! r, q\<lparr>kb_read_pos := (r + 1) mod length (kb_buf q)\<rparr>))"

text \<open>\<^verbatim>\<open>drain\<close> into a slice of the given length; the bytes stored in it are the result.\<close>

primrec raw_kb_drain :: "nat \<Rightarrow> RawKeyBuffer \<Rightarrow> byte list \<times> RawKeyBuffer" where
  "raw_kb_drain 0 q = ([], q)"
| "raw_kb_drain (Suc n) q =
     (case raw_kb_pop q of None \<Rightarrow> ([], q)
      | Some (b, q') \<Rightarrow> (let (bs, q'') = raw_kb_drain n q' in (b # bs, q'')))"

definition raw_kb_inv :: "RawKeyBuffer \<Rightarrow> bool" where
  "raw_kb_inv q \<longleftrightarrow> length (kb_buf q) = 256 \<and> kb_read_pos q < 256 \<and> kb_write_pos q < 256"

definition raw_kb_items :: "RawKeyBuffer \<Rightarrow> byte list" where
  "raw_kb_items q = ring_items 256 (kb_buf q) (kb_read_pos q) (kb_write_pos q)"

section \<open>The machine\<close>

record FramebufferInfo =
  fb_width :: u32
  fb_height :: u32
  fb_pitch :: u32
  fb_bpp :: byte

text \<open>
  A block device: its image, and whether the device completes a request, which is a property
  of the hardware.
\<close>

record blk_device =
  disk_image :: "byte list"
  disk_request_ok :: "u64 \<Rightarrow> nat \<Rightarrow> bool"

record gpu_state =
  gpu_fb_pages :: "u64 list"
  gpu_fb_width :: u32
  gpu_fb_height :: u32

text \<open>
  The fields: the process's memory; the choice \<^verbatim>\<open>AddressSpace.map\<close> makes for a request of a given
  size; physical memory by address; whether \<^verbatim>\<open>mapSinglePage\<close> succeeds for a page of the
  framebuffer; the embedded archive; the data disk, if there is one; the key buffer; the clock
  value at each read; the bytes shown by the terminal and whether it accepts output; the
  bootloader framebuffer with its physical base and the virtio-gpu; the two entitlements that
  gate these calls; the stack address of the print buffer of the I/O wrappers; the status the
  process exited with.
\<close>

record machine =
  mem :: mem
  vm_map :: "mem \<Rightarrow> u64 \<Rightarrow> map_error + addr"
  phys_mem :: "u64 \<Rightarrow> byte"
  page_wired :: "nat \<Rightarrow> bool"
  archive :: "byte list"
  data_disk :: "blk_device option"
  raw_kb :: RawKeyBuffer
  clock :: "nat \<Rightarrow> u64"
  clock_reads :: nat
  terminal :: "byte list"
  terminal_ok :: bool
  boot_fb :: "(FramebufferInfo \<times> u64) option"
  gpu :: "gpu_state option"
  ent_framebuffer :: bool
  ent_keyboard :: bool
  print_frame :: addr
  exit_status :: "byte option"

section \<open>User pointers\<close>

definition PAGE :: nat where
  "PAGE = 4096"

text \<open>\<^verbatim>\<open>user_memory_range\<close> of x86-64: from the first page up to 128 TiB less one page.\<close>

definition user_base :: nat where
  "user_base = 4096"

definition user_end :: nat where
  "user_end = 2 ^ 47 - 4096"

definition userBuffer :: "addr \<Rightarrow> u64 \<Rightarrow> bool" where
  "userBuffer ptr len =
     (if len = 0 then True
      else if ptr + len < ptr then False
      else user_base \<le> unat ptr \<and> unat (ptr + len) \<le> user_end)"

definition copyFromUser :: "mem \<Rightarrow> addr \<Rightarrow> nat \<Rightarrow> syscall_error + byte list" where
  "copyFromUser m ptr n =
     (if \<not> userBuffer ptr (of_nat n) then Inl BadAddress
      else case loadn m ptr n of None \<Rightarrow> Inl BadAddress | Some bs \<Rightarrow> Inr bs)"

definition copyToUser :: "mem \<Rightarrow> addr \<Rightarrow> byte list \<Rightarrow> syscall_error + mem" where
  "copyToUser m ptr bs =
     (if \<not> userBuffer ptr (of_nat (length bs)) then Inl BadAddress
      else case storen m ptr bs of None \<Rightarrow> Inl BadAddress | Some m' \<Rightarrow> Inr m')"

section \<open>Memory mapping\<close>

definition alignForward :: "u64 \<Rightarrow> u64 \<Rightarrow> u64" where
  "alignForward x a = (x + (a - 1)) AND NOT (a - 1)"

definition map_zero :: "mem \<Rightarrow> addr \<Rightarrow> nat \<Rightarrow> mem" where
  "map_zero m p n = (\<lambda>a. if in_range a p n then Some 0 else m a)"

definition sys_mmap :: "'s machine_scheme \<Rightarrow> u64 \<Rightarrow> u32 \<Rightarrow> (syscall_error + u64) \<times> 's machine_scheme" where
  "sys_mmap s size_bytes prot_raw =
     (if size_bytes = 0 then (Inl InvalidArgument, s)
      else if size_bytes > - 1 - 4095 then (Inl InvalidArgument, s)
      else
        let aligned_size = alignForward size_bytes 4096;
            r = (prot_raw AND 1 \<noteq> 0); w = (prot_raw AND 2 \<noteq> 0); x = (prot_raw AND 4 \<noteq> 0) in
        if \<not> r \<and> \<not> w \<and> \<not> x then (Inl InvalidArgument, s)
        else if w \<and> x then (Inl InvalidArgument, s)
        else case vm_map s (mem s) aligned_size of
               Inl MapOutOfMemory \<Rightarrow> (Inl OutOfMemory, s)
             | Inl RequestedRangeUnavailable \<Rightarrow> (Inl OutOfMemory, s)
             | Inl _ \<Rightarrow> (Inl InvalidArgument, s)
             | Inr a \<Rightarrow> (Inr a, s\<lparr>mem := map_zero (mem s) a (unat aligned_size)\<rparr>))"

section \<open>Terminal output\<close>

text \<open>
  The \<^verbatim>\<open>terminal_out\<close> case of the \<^verbatim>\<open>write\<close> handler, in chunks of 256 bytes through the
  bounce buffer; \<open>terminal_ok\<close> says whether the terminal driver accepts output.
\<close>

function sys_write_loop ::
    "'s machine_scheme \<Rightarrow> addr \<Rightarrow> nat \<Rightarrow> nat \<Rightarrow> (syscall_error + unit) \<times> 's machine_scheme" where
  "sys_write_loop s buf_ptr buf_len offset =
     (if offset < buf_len then
        let chunk_len = min (buf_len - offset) 256 in
        case copyFromUser (mem s) (buf_ptr + of_nat offset) chunk_len of
          Inl e \<Rightarrow> (Inl e, s)
        | Inr bs \<Rightarrow>
            if \<not> terminal_ok s then (Inl IoError, s)
            else sys_write_loop (s\<lparr>terminal := terminal s @ bs\<rparr>) buf_ptr buf_len
                   (offset + chunk_len)
      else (Inr (), s))"
  by pat_completeness auto
termination
  by (relation "measure (\<lambda>(s, p, n, offset). n - offset)") auto

declare sys_write_loop.simps [simp del]

definition sys_write :: "'s machine_scheme \<Rightarrow> addr \<Rightarrow> u64 \<Rightarrow> (syscall_error + u64) \<times> 's machine_scheme" where
  "sys_write s buf_ptr buf_len =
     (if buf_len = 0 then (Inr 0, s)
      else if \<not> userBuffer buf_ptr buf_len then (Inl BadAddress, s)
      else case sys_write_loop s buf_ptr (unat buf_len) 0 of
             (Inl e, s') \<Rightarrow> (Inl e, s')
           | (Inr _, s') \<Rightarrow> if \<not> terminal_ok s' then (Inl IoError, s') else (Inr buf_len, s'))"

section \<open>The initial file system\<close>

definition isZeroBlock :: "byte list \<Rightarrow> bool" where
  "isZeroBlock block = list_all (\<lambda>b. b = 0) block"

text \<open>Saturating 64-bit arithmetic, as \<^verbatim>\<open>*|\<close> and \<^verbatim>\<open>+|\<close> in the source.\<close>

definition sat64 :: "nat \<Rightarrow> nat" where
  "sat64 n = min n (2 ^ 64 - 1)"

fun parseOctal_loop :: "nat \<Rightarrow> byte list \<Rightarrow> nat" where
  "parseOctal_loop result [] = result"
| "parseOctal_loop result (ch # field) =
     (if ch = 0 \<or> ch = 32 then result
      else if ch < 48 \<or> ch > 55 then 0
      else parseOctal_loop (sat64 (sat64 (result * 8) + (unat ch - 48))) field)"

definition parseOctal :: "byte list \<Rightarrow> nat" where
  "parseOctal field = parseOctal_loop 0 field"

definition alignUp512 :: "nat \<Rightarrow> nat" where
  "alignUp512 n = (n + 511) div 512 * 512"

text \<open>
  \<^verbatim>\<open>findFileIn\<close>: offsets are \<^verbatim>\<open>usize\<close> values below the archive length, which fits the
  address space, so they are natural numbers here.
\<close>

function findFileIn_loop :: "byte list \<Rightarrow> byte list \<Rightarrow> nat \<Rightarrow> byte list option" where
  "findFileIn_loop bytes name offset =
     (if offset + 512 \<le> length bytes then
        let hdr = take 512 (drop offset bytes) in
        if isZeroBlock hdr then None
        else
          let entry_name = takeWhile (\<lambda>b. b \<noteq> 0) (take 100 hdr);
              size = parseOctal (take 12 (drop 124 hdr));
              data_start = offset + 512 in
          if size > length bytes - data_start then None
          else if entry_name = name then Some (take size (drop data_start bytes))
          else findFileIn_loop bytes name (offset + (512 + alignUp512 size))
      else None)"
  by pat_completeness auto
termination
  by (relation "measure (\<lambda>(bytes, name, offset). length bytes - offset)") auto

declare findFileIn_loop.simps [simp del]

definition findFileIn :: "byte list \<Rightarrow> byte list \<Rightarrow> byte list option" where
  "findFileIn bytes name = findFileIn_loop bytes name 0"

definition findFile :: "'s machine_scheme \<Rightarrow> byte list \<Rightarrow> byte list option" where
  "findFile s name = findFileIn (archive s) name"

text \<open>\<^verbatim>\<open>initfsRead\<close> on the fields of the \<^verbatim>\<open>InitfsReadSpec\<close> it reads from user memory.\<close>

definition sys_initfs_read ::
    "'s machine_scheme \<Rightarrow> addr \<Rightarrow> u32 \<Rightarrow> addr \<Rightarrow> u64 \<Rightarrow> (syscall_error + u64) \<times> 's machine_scheme" where
  "sys_initfs_read s name_ptr name_len buf_ptr buf_len =
     (if name_len = 0 \<or> name_len > 255 then (Inl InvalidArgument, s)
      else if \<not> userBuffer name_ptr (ucast name_len) then (Inl BadAddress, s)
      else if buf_len > 0 \<and> \<not> userBuffer buf_ptr buf_len then (Inl BadAddress, s)
      else case copyFromUser (mem s) name_ptr (unat name_len) of
        Inl e \<Rightarrow> (Inl e, s)
      | Inr name \<Rightarrow>
          (case findFile s name of
             None \<Rightarrow> (Inl NotFound, s)
           | Some file_data \<Rightarrow>
               if buf_len = 0 then (Inr (of_nat (length file_data)), s)
               else
                 let copy_len = min (length file_data) (unat buf_len) in
                 case copyToUser (mem s) buf_ptr (take copy_len file_data) of
                   Inl e \<Rightarrow> (Inl e, s)
                 | Inr m \<Rightarrow> (Inr (of_nat copy_len), s\<lparr>mem := m\<rparr>)))"

section \<open>The keyboard and the clock\<close>

definition sys_kbd_read :: "'s machine_scheme \<Rightarrow> addr \<Rightarrow> u64 \<Rightarrow> (syscall_error + u64) \<times> 's machine_scheme" where
  "sys_kbd_read s buf_ptr buf_len =
     (if \<not> ent_keyboard s then (Inl PermissionDenied, s)
      else if buf_len = 0 then (Inr 0, s)
      else if \<not> userBuffer buf_ptr buf_len then (Inl BadAddress, s)
      else
        let to_read = min (unat buf_len) 64;
            (bs, q) = raw_kb_drain to_read (raw_kb s);
            s' = s\<lparr>raw_kb := q\<rparr> in
        if bs = [] then (Inr 0, s')
        else case copyToUser (mem s') buf_ptr bs of
               Inl e \<Rightarrow> (Inl e, s')
             | Inr m \<Rightarrow> (Inr (of_nat (length bs)), s'\<lparr>mem := m\<rparr>))"

definition sys_uptime_ms :: "'s machine_scheme \<Rightarrow> u64 \<times> 's machine_scheme" where
  "sys_uptime_ms s = (clock s (clock_reads s), s\<lparr>clock_reads := Suc (clock_reads s)\<rparr>)"

section \<open>The data disk\<close>

definition capacity_sectors :: "blk_device \<Rightarrow> nat" where
  "capacity_sectors d = length (disk_image d) div 512"

text \<open>\<^verbatim>\<open>readSectors\<close> of a device without a cipher layer.\<close>

definition readSectors :: "blk_device \<Rightarrow> u64 \<Rightarrow> nat \<Rightarrow> byte list option" where
  "readSectors d lba count =
     (if count = 0 \<or> count > 8 then None
      else if unat lba > capacity_sectors d \<or> count > capacity_sectors d - unat lba then None
      else if \<not> disk_request_ok d lba count then None
      else Some (take (count * 512) (drop (unat lba * 512) (disk_image d))))"

definition sectors_needed :: "nat \<Rightarrow> nat \<Rightarrow> nat" where
  "sectors_needed off remaining = min 8 (sat64 (sat64 (off + remaining) + 511) div 512)"

text \<open>
  The chunk loop of \<^verbatim>\<open>blkRead\<close>.  The result is \<^const>\<open>None\<close> where the checked addition to
  \<^verbatim>\<open>byte_offset\<close> overflows, which panics.
\<close>

function blk_read_loop ::
    "blk_device \<Rightarrow> mem \<Rightarrow> addr \<Rightarrow> nat \<Rightarrow> nat \<Rightarrow> u64 \<Rightarrow> ((syscall_error + u64) \<times> mem) option" where
  "blk_read_loop d m buf_ptr out_pos remaining byte_offset =
     (if remaining = 0 then Some (Inr (of_nat out_pos), m)
      else
        let sector = byte_offset div 512;
            off_in_sector = unat (byte_offset mod 512);
            n = sectors_needed off_in_sector remaining;
            chunk_bytes = n * 512 in
        case readSectors d sector n of
          None \<Rightarrow> Some (Inl IoError, m)
        | Some tmp \<Rightarrow>
            let copy_len = min remaining (chunk_bytes - off_in_sector) in
            case copyToUser m (buf_ptr + of_nat out_pos) (take copy_len (drop off_in_sector tmp)) of
              Inl e \<Rightarrow> Some (Inl e, m)
            | Inr m' \<Rightarrow>
                if unat byte_offset + copy_len \<ge> 2 ^ 64 then None
                else blk_read_loop d m' buf_ptr (out_pos + copy_len)
                       (remaining - copy_len) (byte_offset + of_nat copy_len))"
  by pat_completeness auto
termination
proof (relation "measure (\<lambda>(d, m, p, out, remaining, off). remaining)", goal_cases)
  case (2 d m buf_ptr out_pos remaining byte_offset x xa xb xc tmp copy_len m')
  have "xa < 512" using 2 by (simp add: unat_mod_distrib)
  moreover have "0 < remaining" using 2 by simp
  ultimately have "xa < sectors_needed xa remaining * 512"
    by (auto simp: sectors_needed_def sat64_def min_def div_le_mono)
  then show ?case using 2 by simp
qed simp

declare blk_read_loop.simps [simp del]

text \<open>\<^verbatim>\<open>blkRead\<close> on the fields of the \<^verbatim>\<open>BlkReadSpec\<close> it reads from user memory.\<close>

definition sys_blk_read ::
    "'s machine_scheme \<Rightarrow> u64 \<Rightarrow> addr \<Rightarrow> u64 \<Rightarrow> ((syscall_error + u64) \<times> 's machine_scheme) option" where
  "sys_blk_read s byte_offset buf_ptr buf_len =
     (if buf_len = 0 then Some (Inr 0, s)
      else if \<not> userBuffer buf_ptr buf_len then Some (Inl BadAddress, s)
      else case data_disk s of
        None \<Rightarrow> Some (Inl NoDevice, s)
      | Some d \<Rightarrow>
          do { (r, m) \<leftarrow> blk_read_loop d (mem s) buf_ptr 0 (unat buf_len) byte_offset;
               Some (r, s\<lparr>mem := m\<rparr>) })"

section \<open>The framebuffer\<close>

text \<open>Wire the physical pages one after the other behind the virtual range at \<open>va\<close>.\<close>

definition wire_page :: "'s machine_scheme \<Rightarrow> mem \<Rightarrow> addr \<Rightarrow> u64 \<Rightarrow> mem" where
  "wire_page s m va pa =
     (\<lambda>a. if in_range a va PAGE then Some (phys_mem s (pa div 4096 * 4096 + (a - va))) else m a)"

definition sat_add64 :: "u64 \<Rightarrow> nat \<Rightarrow> u64" where
  "sat_add64 a n = of_nat (sat64 (unat a + n))"

text \<open>The page loop of \<^verbatim>\<open>framebufferMap\<close>, pages \<open>i\<close> up to \<open>i + k\<close>.\<close>

fun fb_wire_loop :: "'s machine_scheme \<Rightarrow> mem \<Rightarrow> addr \<Rightarrow> u64 \<Rightarrow> nat \<Rightarrow> nat \<Rightarrow> syscall_error + mem" where
  "fb_wire_loop s m va phys_base i 0 = Inr m"
| "fb_wire_loop s m va phys_base i (Suc k) =
     (let phys_offset = sat64 (i * PAGE); phys_val = sat_add64 phys_base phys_offset in
      if phys_offset div PAGE \<noteq> i then Inl InvalidArgument
      else if phys_val < phys_base then Inl InvalidArgument
      else if \<not> page_wired s i then Inl OutOfMemory
      else fb_wire_loop s (wire_page s m (va + of_nat (i * PAGE)) phys_val) va phys_base (Suc i) k)"

fun gpu_wire_loop :: "'s machine_scheme \<Rightarrow> mem \<Rightarrow> addr \<Rightarrow> nat \<Rightarrow> u64 list \<Rightarrow> syscall_error + mem" where
  "gpu_wire_loop s m va i [] = Inr m"
| "gpu_wire_loop s m va i (pg # pgs) =
     (if \<not> page_wired s i then Inl OutOfMemory
      else gpu_wire_loop s (wire_page s m (va + of_nat (i * PAGE)) (pg * 4096)) va (Suc i) pgs)"

text \<open>
  \<^verbatim>\<open>framebufferMap\<close> and \<^verbatim>\<open>framebufferMapGpu\<close>.  The structure they fill in is a local variable of
  the user-side wrapper, so it is a component of the result here.
\<close>

definition framebufferMapGpu ::
    "'s machine_scheme \<Rightarrow> gpu_state \<Rightarrow> (syscall_error + (addr \<times> FramebufferInfo)) \<times> 's machine_scheme" where
  "framebufferMapGpu s g =
     (let total_bytes = length (gpu_fb_pages g) * PAGE in
      case vm_map s (mem s) (of_nat total_bytes) of
        Inl _ \<Rightarrow> (Inl OutOfMemory, s)
      | Inr va \<Rightarrow>
          (case gpu_wire_loop s (map_zero (mem s) va total_bytes) va 0 (gpu_fb_pages g) of
             Inl e \<Rightarrow> (Inl e, s\<lparr>mem := unmap_range (mem s) va total_bytes\<rparr>)
           | Inr m \<Rightarrow>
               (Inr (va, \<lparr>fb_width = gpu_fb_width g, fb_height = gpu_fb_height g,
                          fb_pitch = gpu_fb_width g * 4, fb_bpp = 32\<rparr>), s\<lparr>mem := m\<rparr>)))"

definition sys_framebuffer_map ::
    "'s machine_scheme \<Rightarrow> (syscall_error + (addr \<times> FramebufferInfo)) \<times> 's machine_scheme" where
  "sys_framebuffer_map s =
     (if \<not> ent_framebuffer s then (Inl PermissionDenied, s)
      else case gpu s of
        Some g \<Rightarrow> framebufferMapGpu s g
      | None \<Rightarrow>
          (case boot_fb s of
             None \<Rightarrow> (Inl NoDevice, s)
           | Some (info, phys_base) \<Rightarrow>
               let total_bytes = ucast (fb_pitch info) * ucast (fb_height info);
                   aligned_bytes = alignForward total_bytes 4096;
                   n_pages = unat (aligned_bytes div 4096) in
               case vm_map s (mem s) aligned_bytes of
                 Inl _ \<Rightarrow> (Inl OutOfMemory, s)
               | Inr va \<Rightarrow>
                   (case fb_wire_loop s (map_zero (mem s) va (unat aligned_bytes)) va phys_base 0 n_pages of
                      Inl e \<Rightarrow> (Inl e, s\<lparr>mem := unmap_range (mem s) va (unat aligned_bytes)\<rparr>)
                    | Inr m \<Rightarrow> (Inr (va, info), s\<lparr>mem := m\<rparr>))))"

section \<open>Process exit\<close>

definition sys_exit_process :: "'s machine_scheme \<Rightarrow> u64 \<Rightarrow> 's machine_scheme" where
  "sys_exit_process s code = s\<lparr>exit_status := Some (ucast code)\<rparr>"

section \<open>The error codes\<close>

lemma error_code_range: "error_code e = Some c \<Longrightarrow> - 4096 < c \<and> c < 0"
  by (cases e) auto

lemma fromCode_error_code: "error_code e = Some c \<Longrightarrow> fromCode c = e"
  by (cases e) (auto simp: fromCode_def)

section \<open>The key buffer is a queue that drops input while it is full\<close>

interpretation kb: dropping_fifo raw_kb_push raw_kb_pop raw_kb_items raw_kb_inv 255
proof unfold_locales
  fix q :: RawKeyBuffer and x :: byte and q' :: RawKeyBuffer
  assume inv: "raw_kb_inv q"
  then have b: "kb_read_pos q < 256" "kb_write_pos q < 256" "length (kb_buf q) = 256"
    by (auto simp: raw_kb_inv_def)
  note full = ring_count_full [OF b(1,2)]
  show "length (raw_kb_items q) < 255 \<Longrightarrow> raw_kb_items (raw_kb_push x q) = raw_kb_items q @ [x]"
    using b full ring_push [OF b(1,2,3)] by (simp add: raw_kb_items_def raw_kb_push_def Let_def)
  show "raw_kb_inv (raw_kb_push x q)"
    using b by (simp add: raw_kb_inv_def raw_kb_push_def Let_def)
  show "raw_kb_pop q = None \<longleftrightarrow> raw_kb_items q = []"
    unfolding raw_kb_items_def ring_items_empty [OF b(1,2)] by (simp add: raw_kb_pop_def Let_def)
  show "raw_kb_pop q = Some (x, q') \<Longrightarrow> raw_kb_items q = x # raw_kb_items q' \<and> raw_kb_inv q'"
    using b ring_pop [OF b(1,2)]
    by (auto simp: raw_kb_pop_def raw_kb_items_def raw_kb_inv_def Let_def split: if_splits)
  show "length (raw_kb_items q) \<le> 255"
    using ring_count_less [OF b(1,2)] by (simp add: raw_kb_items_def)
  show "length (raw_kb_items q) = 255 \<Longrightarrow> raw_kb_push x q = q"
    using b full by (simp add: raw_kb_items_def raw_kb_push_def Let_def)
qed

lemma raw_kb_init_empty [simp]: "raw_kb_inv raw_kb_init" "raw_kb_items raw_kb_init = []"
  by (simp_all add: raw_kb_init_def raw_kb_inv_def raw_kb_items_def ring_items_def ring_count_def)

lemma raw_kb_drain_pop_upto: "raw_kb_drain n q = kb.pop_upto n q"
  by (induction n arbitrary: q) (auto simp: Let_def split: option.splits prod.splits)

lemma raw_kb_drain_items:
  "raw_kb_inv q \<Longrightarrow> raw_kb_drain n q = (bs, q') \<Longrightarrow>
   bs = take n (raw_kb_items q) \<and> raw_kb_items q' = drop n (raw_kb_items q) \<and> raw_kb_inv q'"
  unfolding raw_kb_drain_pop_upto by (rule kb.pop_upto_items)

section \<open>User pointers\<close>

lemma userBuffer_iff:
  "userBuffer p n \<longleftrightarrow> n = 0 \<or> user_base \<le> unat p \<and> unat p + unat n \<le> user_end"
proof (cases "unat p + unat n < 2 ^ 64")
  case True
  then have "unat (p + n) = unat p + unat n" by (simp add: unat_plus_nowrap)
  then show ?thesis by (auto simp: userBuffer_def word_less_nat_alt)
next
  case False
  then have "unat (p + n) = unat p + unat n - 2 ^ 64"
    using unat_bound [of p] unat_bound [of n] by (simp add: unat_word_ariths mod_if)
  then have "p + n < p \<or> n = 0" using False unat_bound [of n] unat_bound [of p]
    by (auto simp: word_less_nat_alt)
  with False show ?thesis
    by (auto simp: userBuffer_def user_end_def)
qed

lemma userBuffer_sub:
  assumes "userBuffer p n" "i + k \<le> unat n"
  shows "userBuffer (p + of_nat i) (of_nat k)"
proof (cases "k = 0")
  case False
  with assms have u: "user_base \<le> unat p" "unat p + unat n \<le> user_end"
    by (auto simp: userBuffer_iff)
  then have "unat (p + of_nat i) = unat p + i" "unat (of_nat k :: u64) = k"
    using assms(2) by (auto simp: user_end_def unat_plus_of_nat unat_of_nat_small)
  with u assms(2) show ?thesis by (auto simp: userBuffer_iff)
qed (simp add: userBuffer_iff)

lemma copyFromUser_bytes:
  "userBuffer p (of_nat (length bs)) \<Longrightarrow> bytes_at m p bs \<Longrightarrow> copyFromUser m p (length bs) = Inr bs"
  by (simp add: copyFromUser_def loadn_bytes_at)

lemma copyToUser_mapped:
  "userBuffer p (of_nat (length bs)) \<Longrightarrow> mapped m p (length bs) \<Longrightarrow>
   copyToUser m p bs = Inr (write_bytes m p bs)"
  by (simp add: copyToUser_def storen_eq)

section \<open>Memory mapping\<close>

text \<open>
  What the allocator of address ranges promises: a range it hands out is page-aligned, inside
  user space and was free.
\<close>

definition vm_ok :: "(mem \<Rightarrow> u64 \<Rightarrow> map_error + addr) \<Rightarrow> bool" where
  "vm_ok vm \<longleftrightarrow> (\<forall>m n a. vm m n = Inr a \<longrightarrow>
     user_base \<le> unat a \<and> unat a + unat n \<le> user_end \<and> unat a mod 4096 = 0 \<and>
     (\<forall>x. in_range x a (unat n) \<longrightarrow> m x = None))"

lemma alignForward_page:
  assumes "unat x + 4095 < 2 ^ 64"
  shows "unat (alignForward x 4096) = (unat x + 4095) div 4096 * 4096"
proof -
  have "alignForward x 4096 = (x + 4095) AND NOT (mask 12)"
    by (simp add: alignForward_def mask_eq_exp_minus_1)
  moreover have "unat (x + 4095) = unat x + 4095" using assms by (simp add: unat_plus_nowrap)
  ultimately show ?thesis by (simp add: unat_and_not_mask)
qed

lemma map_zero_simps:
  "in_range a p n \<Longrightarrow> map_zero m p n a = Some 0"
  "\<not> in_range a p n \<Longrightarrow> map_zero m p n a = m a"
  by (simp_all add: map_zero_def)

lemma map_zero_same_except: "same_except m (map_zero m p n) p n"
  by (simp add: same_except_def map_zero_def)

lemma map_zero_bytes:
  assumes "0 < unat p" "unat p + n \<le> 2 ^ 64"
  shows "bytes_at (map_zero m p n) p (replicate n 0)"
proof (rule bytes_atI)
  fix i assume "i < length (replicate n (0 :: byte))"
  then have "unat (p + of_nat i) = unat p + i" using assms by (auto simp: unat_plus_of_nat)
  with assms \<open>i < _\<close> show "load8 (map_zero m p n) (p + of_nat i) = Some (replicate n 0 ! i)"
    by (auto simp: load8_def map_zero_def in_range_def)
qed

text \<open>A successful \<^verbatim>\<open>mmap\<close>: the whole pages, zeroed, where nothing was mapped before.\<close>

lemma sys_mmap_Inr:
  assumes "sys_mmap s n prot = (Inr a, s')" "vm_ok (vm_map s)"
  defines "k \<equiv> (unat n + 4095) div 4096 * 4096"
  shows "n \<noteq> 0 \<and> unat n \<le> k \<and> s' = s\<lparr>mem := map_zero (mem s) a k\<rparr> \<and>
    user_base \<le> unat a \<and> unat a + k \<le> user_end \<and> unat a mod 4096 = 0 \<and>
    (\<forall>x. in_range x a k \<longrightarrow> mem s x = None)"
proof -
  have n: "n \<noteq> 0" "\<not> n > - 1 - 4095" and
    v: "vm_map s (mem s) (alignForward n 4096) = Inr a"
    and s': "s' = s\<lparr>mem := map_zero (mem s) a (unat (alignForward n 4096))\<rparr>"
    using assms(1)
    by (auto simp: sys_mmap_def Let_def split: if_splits sum.splits map_error.splits)
  have "unat n + 4095 < 2 ^ 64"
    using n(2) by (simp add: word_less_nat_alt)
  then have al: "unat (alignForward n 4096) = k"
    by (simp add: alignForward_page k_def)
  show ?thesis
    using n(1) s' assms(2) v al unfolding vm_ok_def k_def by fastforce
qed

section \<open>Terminal output\<close>

lemma sys_write_loop_ok:
  assumes "bytes_at (mem s) p bs" "userBuffer p (of_nat (length bs))" "terminal_ok s"
    "off \<le> length bs" "length bs < 2 ^ 64"
  shows "sys_write_loop s p (length bs) off = (Inr (), s\<lparr>terminal := terminal s @ drop off bs\<rparr>)"
  using assms
proof (induction "length bs - off" arbitrary: s off rule: less_induct)
  case less
  show ?case
  proof (cases "off < length bs")
    case True
    define c where "c = min (length bs - off) 256"
    define chunk where "chunk = take c (drop off bs)"
    have c: "0 < c" "off + c \<le> length bs" "length chunk = c" "drop off bs = chunk @ drop (off + c) bs"
      using True by (auto simp: c_def chunk_def min_def add.commute [of off] simp flip: drop_drop)
    have "bytes_at (mem s) (p + of_nat off) chunk"
      using less.prems(1) by (simp add: chunk_def bytes_at_slice)
    moreover have "userBuffer (p + of_nat off) (of_nat (length chunk))"
      using userBuffer_sub [OF less.prems(2), of off c] c less.prems(5)
      by (simp add: unat_of_nat_small)
    ultimately have cp: "copyFromUser (mem s) (p + of_nat off) c = Inr chunk"
      using copyFromUser_bytes c(3) by fastforce
    show ?thesis
      using True cp less.prems c less.hyps [of "off + c" "s\<lparr>terminal := terminal s @ chunk\<rparr>"]
      by (subst sys_write_loop.simps) (simp add: c_def [symmetric])
  qed (use less.prems in \<open>simp add: sys_write_loop.simps\<close>)
qed

lemma sys_write_ok:
  assumes "bytes_at (mem s) p bs" "userBuffer p n" "terminal_ok s" "length bs = unat n" "n \<noteq> 0"
  shows "sys_write s p n = (Inr n, s\<lparr>terminal := terminal s @ bs\<rparr>)"
  using sys_write_loop_ok [OF assms(1) _ assms(3), of 0] assms unat_bound [of n]
  by (simp add: sys_write_def)

section \<open>Archives\<close>

text \<open>
  The bytes of a ustar archive and the files in it, in order: a header block carries the name,
  the size in octal, and any other fields; the data follows, padded to a block; a block of
  zeros or the end of the bytes ends the archive.
\<close>

inductive ustar :: "byte list \<Rightarrow> (byte list \<times> byte list) list \<Rightarrow> bool" where
  ustar_end: "length tail < 512 \<or> isZeroBlock (take 512 tail) \<Longrightarrow> ustar tail []"
| ustar_entry:
    "length hdr = 512 \<Longrightarrow> \<not> isZeroBlock hdr \<Longrightarrow>
     name = takeWhile (\<lambda>b. b \<noteq> 0) (take 100 hdr) \<Longrightarrow>
     parseOctal (take 12 (drop 124 hdr)) = length data \<Longrightarrow>
     length pad = alignUp512 (length data) - length data \<Longrightarrow>
     ustar rest files \<Longrightarrow> ustar (hdr @ data @ pad @ rest) ((name, data) # files)"

lemma alignUp512_ge: "n \<le> alignUp512 n"
  by (simp add: alignUp512_def)

lemma findFileIn_loop_ustar:
  "ustar bytes files \<Longrightarrow> findFileIn_loop (pre @ bytes) name (length pre) = map_of files name"
proof (induction arbitrary: pre rule: ustar.induct)
  case (ustar_end tail)
  then show ?case by (subst findFileIn_loop.simps) (auto simp: Let_def)
next
  case (ustar_entry hdr n data pad rest files)
  have len: "length pre + (512 + alignUp512 (length data)) = length (pre @ hdr @ data @ pad)"
    using ustar_entry.hyps alignUp512_ge [of "length data"] by simp
  have "findFileIn_loop (pre @ hdr @ data @ pad @ rest) name
      (length pre + (512 + alignUp512 (length data))) = map_of files name"
    using ustar_entry.IH [of "pre @ hdr @ data @ pad"] unfolding len by simp
  then show ?case
    using ustar_entry.hyps by (subst findFileIn_loop.simps) (simp add: Let_def)
qed

lemma findFileIn_ustar: "ustar bytes files \<Longrightarrow> findFileIn bytes name = map_of files name"
  using findFileIn_loop_ustar [of bytes files "[]" name] by (simp add: findFileIn_def)

text \<open>The octal size field as archivers write it: eleven digits and a NUL.\<close>

fun octal_digits :: "nat \<Rightarrow> nat \<Rightarrow> byte list" where
  "octal_digits 0 n = []"
| "octal_digits (Suc k) n = octal_digits k (n div 8) @ [48 + of_nat (n mod 8)]"

lemma length_octal_digits [simp]: "length (octal_digits k n) = k"
  by (induction k arbitrary: n) simp_all

lemma parseOctal_loop_digit:
  "d < 8 \<Longrightarrow> r * 8 + d < 2 ^ 64 \<Longrightarrow>
   parseOctal_loop r ((48 + of_nat d) # rest) = parseOctal_loop (r * 8 + d) rest"
proof -
  assume d: "d < 8" "r * 8 + d < 2 ^ 64"
  then have u: "unat (48 + of_nat d :: byte) = 48 + d"
    by (simp add: unat_word_ariths unat_of_nat)
  then have "(48 + of_nat d :: byte) \<noteq> 0" "(48 + of_nat d :: byte) \<noteq> 32"
    "\<not> (48 + of_nat d :: byte) < 48" "\<not> (48 + of_nat d :: byte) > 55"
    using d by (auto simp: word_less_nat_alt word_unat_eq_iff)
  with d u show ?thesis by (simp add: sat64_def)
qed

lemma parseOctal_loop_octal:
  "n < 8 ^ k \<Longrightarrow> r * 8 ^ k + n < 2 ^ 64 \<Longrightarrow>
   parseOctal_loop r (octal_digits k n @ rest) = parseOctal_loop (r * 8 ^ k + n) rest"
proof (induction k arbitrary: n rest)
  case (Suc k)
  have split: "(r * 8 ^ k + n div 8) * 8 + n mod 8 = r * 8 ^ Suc k + n" by simp
  have "n div 8 < 8 ^ k" using Suc.prems(1) by (simp add: less_mult_imp_div_less mult.commute)
  moreover have "r * 8 ^ k + n div 8 < 2 ^ 64"
    using le_less_trans [of "r * 8 ^ k + n div 8" "(r * 8 ^ k + n div 8) * 8 + n mod 8"]
      Suc.prems(2) unfolding split by simp
  ultimately have "parseOctal_loop r (octal_digits (Suc k) n @ rest) =
      parseOctal_loop (r * 8 ^ k + n div 8) ((48 + of_nat (n mod 8)) # rest)"
    using Suc.IH by simp
  also have "\<dots> = parseOctal_loop (r * 8 ^ Suc k + n) rest"
    using Suc.prems(2) split by (subst parseOctal_loop_digit) (simp_all add: algebra_simps)
  finally show ?case .
qed simp

lemma parseOctal_field: "n < 8 ^ 11 \<Longrightarrow> parseOctal (octal_digits 11 n @ [0]) = n"
  using parseOctal_loop_octal [of n 11 0 "[0]"] by (simp add: parseOctal_def)

text \<open>An archive with only the names and sizes filled in.\<close>

definition tar_entry :: "byte list \<times> byte list \<Rightarrow> byte list" where
  "tar_entry nd = (case nd of (name, data) \<Rightarrow>
     name @ replicate (124 - length name) 0 @ octal_digits 11 (length data) @ [0] @ replicate 376 0 @
     data @ replicate (alignUp512 (length data) - length data) 0)"

definition tar_archive :: "(byte list \<times> byte list) list \<Rightarrow> byte list" where
  "tar_archive files = concat (map tar_entry files) @ replicate 1024 0"

lemma tar_archive_ustar:
  "\<forall>(name, data) \<in> set files. name \<noteq> [] \<and> 0 \<notin> set name \<and> length name \<le> 99 \<and> length data < 8 ^ 11 \<Longrightarrow>
   ustar (tar_archive files) files"
proof (induction files)
  case Nil
  then show ?case by (simp add: tar_archive_def ustar_end isZeroBlock_def list_all_iff)
next
  case (Cons f files)
  obtain name data where f: "f = (name, data)" by (cases f)
  have n: "name \<noteq> []" "0 \<notin> set name" "length name \<le> 99" "length data < 8 ^ 11" using Cons.prems f by auto
  let ?hdr = "name @ replicate (124 - length name) 0 @ octal_digits 11 (length data) @ [0] @ replicate 376 0"
  have "\<not> isZeroBlock ?hdr" using n by (cases name) (auto simp: isZeroBlock_def)
  moreover have "name = takeWhile (\<lambda>b. b \<noteq> 0) (take 100 ?hdr)"
    using n by (auto simp: takeWhile_append takeWhile_replicate)
  moreover have "parseOctal (take 12 (drop 124 ?hdr)) = length data"
    using n(3) parseOctal_field [OF n(4)] by simp
  ultimately have "ustar (?hdr @ data @ replicate (alignUp512 (length data) - length data) 0 @ tar_archive files)
      ((name, data) # files)"
    using Cons n(3) by (intro ustar_entry) auto
  then show ?case by (simp add: f tar_archive_def tar_entry_def)
qed

section \<open>The data disk\<close>

text \<open>The device serves every request inside its capacity.\<close>

definition disk_ok :: "blk_device \<Rightarrow> bool" where
  "disk_ok d \<longleftrightarrow> (\<forall>lba n. disk_request_ok d lba n)"

lemma sectors_needed_bounds:
  assumes "0 < remaining" "off < 512" "remaining < 2 ^ 63"
  shows "0 < sectors_needed off remaining" "sectors_needed off remaining \<le> 8"
    "sectors_needed off remaining * 512 \<le> off + remaining + 511"
    "min remaining (sectors_needed off remaining * 512 - off) =
     min remaining (4096 - off)"
  using assms by (auto simp: sectors_needed_def sat64_def min_def)

lemma sectors_inside:
  "a * 512 + j + k \<le> l * 512 \<Longrightarrow> n * 512 \<le> j + k + 511 \<Longrightarrow> a * 512 + n * 512 \<le> l * 512" for a :: nat
proof -
  assume "a * 512 + j + k \<le> l * 512" "n * 512 \<le> j + k + 511"
  then have "(a + n) * 512 < (l + 1) * 512" by simp
  then have "a + n \<le> l" by simp
  then show ?thesis by simp
qed

lemma readSectors_ok:
  assumes "disk_ok d" "0 < n" "n \<le> 8" "unat lba * 512 + n * 512 \<le> length (disk_image d) div 512 * 512"
  shows "readSectors d lba n = Some (take (n * 512) (drop (unat lba * 512) (disk_image d)))"
  using assms by (auto simp: readSectors_def capacity_sectors_def disk_ok_def)

text \<open>
  The loop copies the bytes from the byte offset on, provided the last sector they touch is
  inside the disk.
\<close>

lemma blk_read_loop_ok:
  assumes "disk_ok d" "unat boff + k \<le> length (disk_image d) div 512 * 512"
    "length (disk_image d) < 2 ^ 63" "userBuffer p (of_nat (out + k))" "mapped m p (out + k)"
  shows "blk_read_loop d m p out k boff =
    Some (Inr (of_nat (out + k)), write_bytes m (p + of_nat out) (take k (drop (unat boff) (disk_image d))))"
  using assms
proof (induction k arbitrary: m out boff rule: less_induct)
  case (less k)
  show ?case
  proof (cases "k = 0")
    case True
    then show ?thesis by (simp add: blk_read_loop.simps)
  next
    case False
    define img where "img = disk_image d"
    define o' where "o' = unat (boff mod 512)"
    define n where "n = sectors_needed o' k"
    define c where "c = min k (n * 512 - o')"
    have o': "o' < 512" "unat (boff div 512) * 512 + o' = unat boff"
      by (simp_all add: o'_def unat_mod_distrib unat_div_distrib)
    have n: "0 < n" "n \<le> 8" "n * 512 \<le> o' + k + 511"
      using sectors_needed_bounds [of k o'] False o'(1) less.prems by (auto simp: n_def)
    have rd: "readSectors d (boff div 512) n = Some (take (n * 512) (drop (unat (boff div 512) * 512) img))"
      using less.prems(1,2) o'(2) n sectors_inside [of "unat (boff div 512)" o' k] unfolding img_def
      by (intro readSectors_ok) auto
    have c: "0 < c" "c \<le> k" using False n(1) o'(1) by (auto simp: c_def)
    have chunk: "take c (drop o' (take (n * 512) (drop (unat (boff div 512) * 512) img))) =
        take c (drop (unat boff) img)"
      using o' by (simp add: c_def drop_take add.commute min_def)
    have len: "length (take c (drop (unat boff) img)) = c" "unat boff + c < 2 ^ 64"
      using c less.prems(2,3) by (auto simp: img_def)
    have fit: "out + k < 2 ^ 64" using mapped_bounds [OF less.prems(5)] False by simp
    have "userBuffer (p + of_nat out) (of_nat c)"
      using userBuffer_sub [OF less.prems(4), of out c] c fit unat_of_nat_small [OF fit]
      by (simp del: of_nat_add)
    moreover have "mapped m (p + of_nat out) c"
      by (rule mapped_less [OF mapped_tail [OF less.prems(5)] c(2)])
    ultimately have cp: "copyToUser m (p + of_nat out) (take c (drop (unat boff) img)) =
        Inr (write_bytes m (p + of_nat out) (take c (drop (unat boff) img)))" (is "_ = Inr ?m'")
      using len(1) by (intro copyToUser_mapped) simp_all
    have "blk_read_loop d ?m' p (out + c) (k - c) (boff + of_nat c) = Some (Inr (of_nat (out + k)),
        write_bytes ?m' (p + of_nat (out + c)) (take (k - c) (drop (unat (boff + of_nat c)) img)))"
      using less.IH [of "k - c" "boff + of_nat c" "out + c" ?m'] less.prems c len
      by (simp add: img_def unat_plus_of_nat mapped_write del: of_nat_add)
    moreover have "write_bytes ?m' (p + of_nat (out + c)) (take (k - c) (drop (unat (boff + of_nat c)) img)) =
        write_bytes m (p + of_nat out) (take k (drop (unat boff) img))"
      unfolding take_split [OF c(2), of "drop (unat boff) img"] write_bytes_append len(1)
      using len(2) by (simp add: unat_plus_of_nat ac_simps)
    ultimately show ?thesis
      using False rd cp chunk len(2) unfolding img_def [symmetric]
      by (simp only: blk_read_loop.simps [of d m p out k] Let_def o'_def [symmetric] n_def [symmetric] c_def [symmetric] if_False option.case sum.case) simp
  qed
qed

lemma sys_blk_read_ok:
  assumes "data_disk s = Some d" "disk_ok d" "unat boff + unat n \<le> capacity_sectors d * 512"
    "length (disk_image d) < 2 ^ 63" "userBuffer p n" "mapped (mem s) p (unat n)"
  shows "sys_blk_read s boff p n = Some (Inr n,
    s\<lparr>mem := write_bytes (mem s) p (take (unat n) (drop (unat boff) (disk_image d)))\<rparr>)"
proof (cases "n = 0")
  case False
  then show ?thesis
    using assms blk_read_loop_ok [of d boff "unat n" p 0 "mem s"]
    by (simp add: sys_blk_read_def capacity_sectors_def)
qed (simp add: sys_blk_read_def)

text \<open>
  C31.  blk_read returns exactly the requested slice of the data disk: if every sector the
  request touches is on the disk, the device completes requests and the buffer is mapped user
  memory, the call returns the length and stores the bytes at the byte offset, whatever the
  alignment of the offset and however many 8-sector chunks are needed.
\<close>

theorem blk_read_slice:
  assumes "data_disk s = Some d" "disk_ok d" "unat boff + unat n \<le> capacity_sectors d * 512"
    "length (disk_image d) < 2 ^ 63" "userBuffer p n" "mapped (mem s) p (unat n)"
  shows "sys_blk_read s boff p n = Some (Inr n,
    s\<lparr>mem := write_bytes (mem s) p (take (unat n) (drop (unat boff) (disk_image d)))\<rparr>)"
  using assms by (rule sys_blk_read_ok)

section \<open>The framebuffer guard\<close>

lemma sat64_id: "n < 2 ^ 64 \<Longrightarrow> sat64 n = n"
  by (simp add: sat64_def)

lemma sat_add64_ge: "a \<le> sat_add64 a n"
  using unat_bound [of a]
  by (auto simp: sat_add64_def sat64_def word_le_nat_alt unat_of_nat_small min_def)

text \<open>
  The page loop of framebuffer_map never refuses a framebuffer whose physical range wraps
  around the end of the address space: the wrap test compares a saturating sum with one of its
  summands, so the only failure left is a page that cannot be wired.
\<close>

theorem fb_wrap_guard_dead:
  assumes "i + k \<le> 2 ^ 52" "fb_wire_loop s m va phys_base i k = Inl e"
  shows "e = OutOfMemory"
  using assms
proof (induction k arbitrary: i m)
  case (Suc k)
  have "sat64 (i * PAGE) = i * PAGE" using Suc.prems(1) by (simp add: sat64_def PAGE_def)
  then show ?case
    using Suc.prems Suc.IH [of "Suc i"] sat_add64_ge [of phys_base "i * PAGE"]
    by (auto simp: Let_def PAGE_def split: if_splits)
qed simp

section \<open>A concrete machine\<close>

definition range_free :: "mem \<Rightarrow> addr \<Rightarrow> nat \<Rightarrow> bool" where
  "range_free m p n \<longleftrightarrow> (\<forall>x. in_range x p n \<longrightarrow> m x = None)"

text \<open>An allocator of address ranges with two places to hand out, up to a gibibyte each.\<close>

definition two_place_vm :: "mem \<Rightarrow> u64 \<Rightarrow> map_error + addr" where
  "two_place_vm m n =
     (if n = 0 then Inl ZeroSize
      else if unat n > 2 ^ 30 then Inl MapOutOfMemory
      else if range_free m 0x10000000000 (unat n) then Inr 0x10000000000
      else if range_free m 0x20000000000 (unat n) then Inr 0x20000000000
      else Inl MapOutOfMemory)"

lemma two_place_vm_ok: "vm_ok two_place_vm"
  by (auto simp: vm_ok_def two_place_vm_def range_free_def user_base_def user_end_def split: if_splits)

definition str_page :: mem where
  "str_page = write_bytes Map.empty 8192 [1, 2, 3, 4]"

definition boot_machine :: machine where
  "boot_machine = \<lparr>mem = Map.empty, vm_map = two_place_vm, phys_mem = (\<lambda>_. 0), page_wired = (\<lambda>_. True),
     archive = tar_archive [([97, 46, 119], [1, 2, 3])],
     data_disk = Some \<lparr>disk_image = replicate 1024 7, disk_request_ok = (\<lambda>_ _. True)\<rparr>,
     raw_kb = raw_kb_init, clock = of_nat, clock_reads = 0, terminal = [], terminal_ok = True,
     boot_fb = None, gpu = None, ent_framebuffer = True, ent_keyboard = True, print_frame = 0x7000000,
     exit_status = None\<rparr>"

theorem blk_read_slice_witness:
  "sys_blk_read (boot_machine\<lparr>mem := str_page\<rparr>) 510 8192 4 = Some (Inr 4,
     (boot_machine\<lparr>mem := str_page\<rparr>)\<lparr>mem := write_bytes str_page 8192 (take (unat (4 :: u64)) (drop (unat (510 :: u64)) (replicate 1024 7)))\<rparr>)"
proof -
  have "mapped str_page 8192 (unat (4 :: u64))" by code_simp
  moreover have "userBuffer 8192 4" by (simp add: userBuffer_iff user_base_def user_end_def)
  moreover have "data_disk (boot_machine\<lparr>mem := str_page\<rparr>) = Some \<lparr>disk_image = replicate 1024 7, disk_request_ok = (\<lambda>_ _. True)\<rparr>"
    by (simp add: boot_machine_def)
  ultimately show ?thesis
    using blk_read_slice [of "boot_machine\<lparr>mem := str_page\<rparr>" _ 510 4 8192] 
    by (simp add: disk_ok_def capacity_sectors_def)
qed

theorem fb_wrap_guard_dead_witness:
  "fb_wire_loop (boot_machine\<lparr>page_wired := (\<lambda>i. i = 0)\<rparr>) Map.empty 4096 (- 4096) 0 2 = Inl OutOfMemory"
proof -
  have "fb_wire_loop (boot_machine\<lparr>page_wired := (\<lambda>i. i = 0)\<rparr>) Map.empty 4096 (- 4096) 0 2 \<noteq> Inr m" for m
    by (simp add: numeral_2_eq_2 Let_def)
  then show ?thesis
    using fb_wrap_guard_dead [of 0 2 "boot_machine\<lparr>page_wired := (\<lambda>i. i = 0)\<rparr>" Map.empty 4096 "- 4096"]
    by (cases "fb_wire_loop (boot_machine\<lparr>page_wired := (\<lambda>i. i = 0)\<rparr>) Map.empty 4096 (- 4096) 0 2") auto
qed

text \<open>
  C34.  The error codes round-trip: the wire code of an error is negative and above -4096, no
  two errors share one, and decoding a code gives the error back.
\<close>

theorem error_code_roundtrip:
  assumes "error_code e = Some c"
  shows "fromCode c = e \<and> - 4096 < c \<and> c < 0 \<and> (\<forall>e'. error_code e' = Some c \<longrightarrow> e' = e)"
  using assms fromCode_error_code error_code_range by metis

theorem error_code_roundtrip_witness: "fromCode (- 14) = BadAddress \<and> (- 4096 :: int) < - 14"
  using error_code_roundtrip [of BadAddress "- 14"] by simp

text \<open>
  C33.  mmap either fails with an argument or memory error and changes nothing, or maps whole
  pages of zeroed memory in user space where nothing was mapped, leaving all other memory as it
  was; it never grants write and execute permission together.
\<close>

theorem mmap_contract:
  assumes "vm_ok (vm_map s)" "sys_mmap s n prot = (r, s')"
  shows "case r of
      Inl e \<Rightarrow> e \<in> {InvalidArgument, OutOfMemory} \<and> s' = s
    | Inr a \<Rightarrow> (let k = (unat n + 4095) div 4096 * 4096 in
        n \<noteq> 0 \<and> unat n \<le> k \<and> \<not> (prot AND 2 \<noteq> 0 \<and> prot AND 4 \<noteq> 0) \<and> unat a mod 4096 = 0 \<and> userBuffer a (of_nat k) \<and>
        (\<forall>x. in_range x a k \<longrightarrow> mem s x = None) \<and> bytes_at (mem s') a (replicate k 0) \<and>
        same_except (mem s) (mem s') a k \<and> s' = s\<lparr>mem := mem s'\<rparr>)"
proof (cases r)
  case (Inl e)
  then show ?thesis
    using assms(2) by (auto simp: sys_mmap_def Let_def split: if_splits sum.splits map_error.splits)
next
  case (Inr a)
  have "\<not> (prot AND 2 \<noteq> 0 \<and> prot AND 4 \<noteq> 0)"
    using assms(2) Inr by (auto simp: sys_mmap_def Let_def split: if_splits)
  moreover note sys_mmap_Inr [OF assms(2) [unfolded Inr] assms(1)]
  moreover have "bytes_at (map_zero m a k) a (replicate k 0)" "userBuffer a (of_nat k)"
    if "user_base \<le> unat a" "unat a + k \<le> user_end" for m k
    using that map_zero_bytes [of a k m] by (auto simp: userBuffer_iff user_base_def user_end_def unat_of_nat_small)
  ultimately show ?thesis using Inr by (simp add: Let_def map_zero_same_except del: of_nat_mult)
qed

lemma range_free_empty: "range_free Map.empty p n"
  by (simp add: range_free_def)

theorem mmap_contract_witness:
  "sys_mmap boot_machine 100 3 = (Inr 0x10000000000, boot_machine\<lparr>mem := map_zero Map.empty 0x10000000000 4096\<rparr>) \<and>
   bytes_at (map_zero Map.empty 0x10000000000 4096) 0x10000000000 (replicate 4096 0)"
proof -
  have e: "sys_mmap boot_machine 100 3 = (Inr 0x10000000000, boot_machine\<lparr>mem := map_zero Map.empty 0x10000000000 4096\<rparr>)"
    by (simp add: sys_mmap_def boot_machine_def alignForward_def two_place_vm_def range_free_empty)
  then show ?thesis
    using mmap_contract [OF _ e] by (simp add: boot_machine_def two_place_vm_ok Let_def)
qed



end
