(* ===== verification/Syscalls.thy ===== *)
theory Syscalls
  imports Kernel
begin

text \<open>
  The user side of the system calls: the register encoding of results
  (\<^verbatim>\<open>wire\<close> in \<^verbatim>\<open>src/innigkeit/user/syscalls.zig\<close>, \<^verbatim>\<open>decode\<close> in \<^verbatim>\<open>library/innigkeit/syscall.zig\<close>),
  the printing of \<^verbatim>\<open>library/innigkeit/io.zig\<close>, and the wrappers with C linkage of
  \<^verbatim>\<open>apps/doom/syscalls.zig\<close> that \<^verbatim>\<open>apps/doom/innigkeit_syscalls.h\<close> declares.  The lemmas
  carry the kernel's contracts over to the wrappers, in terms of the value the C code sees.
\<close>

section \<open>Results in the return register\<close>

definition wire :: "syscall_error + u64 \<Rightarrow> int option" where
  "wire r = (case r of Inl e \<Rightarrow> error_code e | Inr v \<Rightarrow> Some (sint v))"

definition decode :: "int \<Rightarrow> syscall_error + u64" where
  "decode result = (if result \<ge> 0 then Inr (of_int result) else Inl (fromCode result))"

section \<open>Printing\<close>

text \<open>\<^verbatim>\<open>rawWrite\<close>: the flag says whether it returned without an error.\<close>

function rawWrite :: "'s machine_scheme \<Rightarrow> addr \<Rightarrow> nat \<Rightarrow> (bool \<times> 's machine_scheme) option" where
  "rawWrite s p n =
     (if n = 0 then Some (True, s)
      else
        let (r, s') = sys_write s p (of_nat n) in
        do { raw \<leftarrow> wire r;
             case decode raw of
               Inl _ \<Rightarrow> Some (False, s')
             | Inr written \<Rightarrow>
                 if written = 0 then Some (False, s')
                 else if unat written > n then None
                 else rawWrite s' (p + written) (n - unat written) })"
  by pat_completeness auto
termination
  by (relation "measure (\<lambda>(s, p, n). n)") (auto simp: unat_gt_0)

declare rawWrite.simps [simp del]

text \<open>
  \<^verbatim>\<open>Writer.print\<close> of a slice.  The formatted text is built in a local array of 4096 bytes, a
  frame at \<open>print_frame\<close> that exists during the call; a longer slice is refused.
\<close>

definition stdout_print :: "'s machine_scheme \<Rightarrow> addr \<Rightarrow> nat \<Rightarrow> (bool \<times> 's machine_scheme) option" where
  "stdout_print s buf len =
     do { bs \<leftarrow> loadn (mem s) buf (min len 4096);
          if len > 4096 then Some (False, s)
          else do { (ok, s') \<leftarrow> rawWrite (s\<lparr>mem := write_bytes (mem s) (print_frame s) bs\<rparr>) (print_frame s) len;
                    Some (ok, s'\<lparr>mem := mem s\<rparr>) } }"

section \<open>The wrappers\<close>

definition innigkeit_write :: "'s machine_scheme \<Rightarrow> addr \<Rightarrow> size_t \<Rightarrow> (int \<times> 's machine_scheme) option" where
  "innigkeit_write s buf len =
     (if buf = NULL \<or> len = 0 then Some (0, s)
      else do { (ok, s') \<leftarrow> stdout_print s buf (unat len);
                Some (if ok then int (unat len) else - 5, s') })"

definition innigkeit_exit :: "'s machine_scheme \<Rightarrow> int \<Rightarrow> 's machine_scheme" where
  "innigkeit_exit s code = sys_exit_process s (of_int code)"

definition innigkeit_mmap :: "'s machine_scheme \<Rightarrow> size_t \<Rightarrow> (addr \<times> 's machine_scheme) option" where
  "innigkeit_mmap s len =
     (let (r, s') = sys_mmap s len 3 in
      do { raw \<leftarrow> wire r;
           case decode raw of
             Inl _ \<Rightarrow> Some (NULL, s')
           | Inr a \<Rightarrow> if a = 0 then Some (NULL, s') else Some (a, s') })"

text \<open>The information structure is the caller's, written only on success.\<close>

definition innigkeit_framebuffer_map ::
    "'s machine_scheme \<Rightarrow> ((addr \<times> FramebufferInfo option) \<times> 's machine_scheme) option" where
  "innigkeit_framebuffer_map s =
     (case sys_framebuffer_map s of
        (Inl _, s') \<Rightarrow> Some ((NULL, None), s')
      | (Inr (va, info), s') \<Rightarrow>
          do { raw \<leftarrow> wire (Inr va);
               case decode raw of
                 Inl _ \<Rightarrow> Some ((NULL, None), s')
               | Inr va' \<Rightarrow> Some ((va', Some info), s') })"

definition innigkeit_uptime_ms :: "'s machine_scheme \<Rightarrow> u64 \<times> 's machine_scheme" where
  "innigkeit_uptime_ms s = sys_uptime_ms s"

definition innigkeit_blk_read ::
    "'s machine_scheme \<Rightarrow> u64 \<Rightarrow> addr \<Rightarrow> size_t \<Rightarrow> (int \<times> 's machine_scheme) option" where
  "innigkeit_blk_read s byte_offset buf len =
     do { (r, s') \<leftarrow> sys_blk_read s byte_offset buf len;
          raw \<leftarrow> wire r;
          case decode raw of Inl _ \<Rightarrow> Some (- 1, s') | Inr got \<Rightarrow> Some (sint got, s') }"

text \<open>The name length is narrowed to 32 bits with a check.\<close>

definition innigkeit_initfs_read ::
    "'s machine_scheme \<Rightarrow> addr \<Rightarrow> size_t \<Rightarrow> addr \<Rightarrow> size_t \<Rightarrow> (int \<times> 's machine_scheme) option" where
  "innigkeit_initfs_read s name name_len buf buf_len =
     (if unat name_len \<ge> 2 ^ 32 then None
      else
        let (r, s') = sys_initfs_read s name (ucast name_len) buf buf_len in
        do { raw \<leftarrow> wire r;
             case decode raw of Inl _ \<Rightarrow> Some (- 2, s') | Inr got \<Rightarrow> Some (sint got, s') })"

definition innigkeit_kbd_read :: "'s machine_scheme \<Rightarrow> addr \<Rightarrow> size_t \<Rightarrow> (int \<times> 's machine_scheme) option" where
  "innigkeit_kbd_read s buf len =
     (let (r, s') = sys_kbd_read s buf len in
      do { raw \<leftarrow> wire r; Some (if raw < 0 then 0 else raw, s') })"

section \<open>Facts on the encoding\<close>

lemma sint_small:
  fixes v :: u64
  assumes "unat v < 2 ^ 63"
  shows "sint v = int (unat v)"
proof -
  have "int (unat v) < int (2 ^ 63)" using assms by (rule of_nat_less_iff [THEN iffD2])
  then have "uint v < 2 ^ 63" by simp
  then have "signed_take_bit 63 (uint v) = uint v"
    by (intro signed_take_bit_int_eq_self order_trans [OF _ uint_ge_0 [of v]]) simp_all
  then show ?thesis by (simp add: sint_uint)
qed

lemma decode_wire_Inr: "unat v < 2 ^ 63 \<Longrightarrow> wire (Inr v) = Some (int (unat v)) \<and> decode (int (unat v)) = Inr v"
  by (simp add: wire_def decode_def sint_small)

lemma decode_wire_Inl: "error_code e = Some c \<Longrightarrow> decode c = Inl e"
  using error_code_range [of e c] by (simp add: decode_def fromCode_error_code)

section \<open>Facts on the wrappers\<close>

lemma rawWrite_ok:
  assumes "bytes_at (mem s) p bs" "userBuffer p (of_nat (length bs))" "terminal_ok s"
    "length bs < 2 ^ 63"
  shows "rawWrite s p (length bs) = Some (True, s\<lparr>terminal := terminal s @ bs\<rparr>)"
proof (cases "bs = []")
  case False
  have u: "unat (of_nat (length bs) :: u64) = length bs" "(of_nat (length bs) :: u64) \<noteq> 0"
    using assms(4) False by (auto simp: unat_of_nat_small word_unat_eq_iff)
  have "sys_write s p (of_nat (length bs)) = (Inr (of_nat (length bs)), s\<lparr>terminal := terminal s @ bs\<rparr>)"
    using sys_write_ok [OF assms(1,2,3)] u by simp
  then show ?thesis
    using False u decode_wire_Inr [of "of_nat (length bs)"] assms(4)
    by (simp add: rawWrite.simps [of s] rawWrite.simps [of _ _ 0])
qed (simp add: rawWrite.simps)

text \<open>
  Output of at most 4096 readable bytes reaches the terminal whole; longer output is refused
  with nothing shown.
\<close>

lemma innigkeit_write_ok:
  assumes "bytes_at (mem s) buf bs" "unat len = length bs" "length bs \<le> 4096" "terminal_ok s"
    "userBuffer (print_frame s) 4096"
  shows "innigkeit_write s buf len = Some (int (length bs), s\<lparr>terminal := terminal s @ bs\<rparr>)"
proof (cases "bs = []")
  case False
  then have buf: "buf \<noteq> NULL" "len \<noteq> 0"
    using mapped_bounds [OF bytes_at_mapped [OF assms(1)]] assms(2) by (auto simp: unat_gt_0)
  let ?m = "write_bytes (mem s) (print_frame s) bs"
  have "bytes_at ?m (print_frame s) bs"
    using assms(3,5) by (intro write_bytes_at) (auto simp: userBuffer_iff user_base_def user_end_def)
  moreover have "userBuffer (print_frame s) (of_nat (length bs))"
    using userBuffer_sub [OF assms(5), of 0 "length bs"] assms(3) by simp
  ultimately have "rawWrite (s\<lparr>mem := ?m\<rparr>) (print_frame s) (length bs) =
      Some (True, s\<lparr>mem := ?m, terminal := terminal s @ bs\<rparr>)"
    using rawWrite_ok [of "s\<lparr>mem := ?m\<rparr>"] assms(3,4) by simp
  then show ?thesis
    using buf assms(1-3) by (simp add: innigkeit_write_def stdout_print_def loadn_bytes_at min.absorb1)
qed (use assms in \<open>simp add: innigkeit_write_def unat_eq_zero\<close>)

lemma innigkeit_write_long:
  assumes "mapped (mem s) buf 4096" "unat len > 4096"
  shows "innigkeit_write s buf len = Some (- 5, s)"
proof -
  obtain bs where "loadn (mem s) buf 4096 = Some bs" using mapped_loadn [OF assms(1)] ..
  moreover have "buf \<noteq> NULL" "len \<noteq> 0" using mapped_bounds [OF assms(1)] assms(2) by (auto simp: unat_gt_0)
  ultimately show ?thesis using assms(2) by (simp add: innigkeit_write_def stdout_print_def min.absorb2)
qed

text \<open>Mapping memory: a failure changes nothing.\<close>

lemma sys_mmap_Inl: "sys_mmap s n prot = (Inl e, s') \<Longrightarrow> s' = s \<and> e \<in> {InvalidArgument, OutOfMemory}"
  by (auto simp: sys_mmap_def Let_def split: if_splits sum.splits map_error.splits)

lemma innigkeit_mmap_cases:
  assumes "vm_ok (vm_map s)"
  defines "k n \<equiv> (unat n + 4095) div 4096 * 4096"
  obtains (fail) "innigkeit_mmap s n = Some (NULL, s)"
  | (ok) a where "innigkeit_mmap s n = Some (a, s\<lparr>mem := map_zero (mem s) a (k n)\<rparr>)"
      "n \<noteq> 0" "unat n \<le> k n" "user_base \<le> unat a" "unat a + k n \<le> user_end" "unat a mod 4096 = 0"
      "\<And>x. in_range x a (k n) \<Longrightarrow> mem s x = None"
proof (cases "sys_mmap s n 3")
  case (Pair r s')
  show thesis
  proof (cases r)
    case (Inl e)
    with Pair have "s' = s" "e \<in> {InvalidArgument, OutOfMemory}" using sys_mmap_Inl by blast+
    then show thesis
      using Pair Inl fail by (auto simp: innigkeit_mmap_def wire_def decode_def)
  next
    case (Inr a)
    from sys_mmap_Inr [OF Pair [unfolded Inr] assms(1)]
    have c: "n \<noteq> 0 \<and> unat n \<le> k n \<and> s' = s\<lparr>mem := map_zero (mem s) a (k n)\<rparr> \<and> user_base \<le> unat a \<and>
      unat a + k n \<le> user_end \<and> unat a mod 4096 = 0 \<and> (\<forall>x. in_range x a (k n) \<longrightarrow> mem s x = None)"
      by (simp add: k_def)
    then have "unat a < 2 ^ 63" "a \<noteq> 0" by (auto simp: user_base_def user_end_def)
    with Pair Inr c decode_wire_Inr [of a]
    have "innigkeit_mmap s n = Some (a, s\<lparr>mem := map_zero (mem s) a (k n)\<rparr>)"
      by (simp add: innigkeit_mmap_def)
    then show thesis by (rule ok) (use c in auto)
  qed
qed

lemma innigkeit_blk_read_ok:
  assumes "data_disk s = Some d" "disk_ok d" "unat boff + unat n \<le> capacity_sectors d * 512"
    "length (disk_image d) < 2 ^ 63" "userBuffer p n" "mapped (mem s) p (unat n)"
  shows "innigkeit_blk_read s boff p n = Some (int (unat n),
    s\<lparr>mem := write_bytes (mem s) p (take (unat n) (drop (unat boff) (disk_image d)))\<rparr>)"
proof -
  have "unat n \<le> length (disk_image d)"
    using assms(3) div_times_less_eq_dividend [of "length (disk_image d)" 512]
    by (simp add: capacity_sectors_def)
  then have "unat n < 2 ^ 63" using assms(4) by simp
  then show ?thesis
    using sys_blk_read_ok [OF assms] decode_wire_Inr [of n]
    by (simp add: innigkeit_blk_read_def sint_small)
qed

lemma innigkeit_blk_read_none:
  "data_disk s = None \<Longrightarrow> innigkeit_blk_read s boff p n = Some (if n = 0 then 0 else - 1, s)"
  by (auto simp: innigkeit_blk_read_def sys_blk_read_def wire_def decode_def)

lemma initfs_name:
  assumes "bytes_at m name nm" "nm \<noteq> []" "length nm \<le> 255" "unat nl = length nm" "userBuffer name nl"
  shows "unat (ucast nl :: u32) = length nm" "ucast (ucast nl :: u32) = nl"
    "(ucast nl :: u32) \<noteq> 0" "\<not> (ucast nl :: u32) > 255" "copyFromUser m name (length nm) = Inr nm"
proof -
  show u: "unat (ucast nl :: u32) = length nm" using assms(3,4) by (simp add: unsigned_ucast_eq take_bit_eq_mod unat_mod_distrib)
  then show "ucast (ucast nl :: u32) = nl"
    using assms(3,4) by (simp add: word_unat_eq_iff unsigned_ucast_eq take_bit_eq_mod unat_mod_distrib)
  show "(ucast nl :: u32) \<noteq> 0" using u assms(2) by (auto simp flip: unat_eq_zero)
  show "\<not> (ucast nl :: u32) > 255" using u assms(3) by (simp add: word_less_nat_alt)
  have "of_nat (length nm) = nl" using assms(4) by (metis of_nat_unat ucast_id)
  then show "copyFromUser m name (length nm) = Inr nm"
    using assms(1,5) by (simp add: copyFromUser_bytes)
qed

lemma innigkeit_initfs_read_ok:
  assumes "bytes_at (mem s) name nm" "nm \<noteq> []" "length nm \<le> 255" "unat nl = length nm" "userBuffer name nl"
    "findFile s nm = Some data" "length data < 2 ^ 63"
    "n \<noteq> 0 \<Longrightarrow> userBuffer buf n \<and> mapped (mem s) buf (unat n)"
  shows "innigkeit_initfs_read s name nl buf n =
    Some (if n = 0 then (int (length data), s)
          else (int (min (length data) (unat n)),
                s\<lparr>mem := write_bytes (mem s) buf (take (unat n) data)\<rparr>))"
proof -
  note nm = initfs_name [OF assms(1-5)]
  have enc: "wire (Inr (of_nat k)) = Some (int k)" "decode (int k) = Inr (of_nat k)" "sint (of_nat k :: u64) = int k"
    if "k \<le> length data" for k
    using that assms(7) decode_wire_Inr [of "of_nat k"] sint_small [of "of_nat k"]
    by (simp_all add: unat_of_nat_small)
  show ?thesis
  proof (cases "n = 0")
    case True
    then show ?thesis
      using nm assms(3-6) enc [of "length data"]
      by (simp add: innigkeit_initfs_read_def sys_initfs_read_def)
  next
    case False
    let ?k = "min (length data) (unat n)"
    have tk: "take ?k data = take (unat n) data" by (simp add: min_def)
    have "copyToUser (mem s) buf (take (unat n) data) = Inr (write_bytes (mem s) buf (take (unat n) data))"
      using userBuffer_sub [of buf n 0 ?k] assms(8) [OF False] mapped_less [of "mem s" buf "unat n" ?k]
      by (intro copyToUser_mapped) simp_all
    then have "sys_initfs_read s name (ucast nl) buf n =
        (Inr (of_nat ?k), s\<lparr>mem := write_bytes (mem s) buf (take (unat n) data)\<rparr>)"
      using False nm assms(5,6) assms(8) [OF False] tk
      by (simp add: sys_initfs_read_def Let_def)
    then show ?thesis
      using False assms(3,4) enc [of ?k] by (simp add: innigkeit_initfs_read_def)
  qed
qed

lemma innigkeit_initfs_read_missing:
  assumes "bytes_at (mem s) name nm" "nm \<noteq> []" "length nm \<le> 255" "unat nl = length nm" "userBuffer name nl"
    "findFile s nm = None" "n \<noteq> 0 \<Longrightarrow> userBuffer buf n"
  shows "innigkeit_initfs_read s name nl buf n = Some (- 2, s)"
  using initfs_name [OF assms(1-5)] assms(3-7)
  by (auto simp: innigkeit_initfs_read_def sys_initfs_read_def wire_def decode_def)

lemma innigkeit_kbd_read_ok:
  assumes "ent_keyboard s" "raw_kb_inv (raw_kb s)" "userBuffer buf n" "mapped (mem s) buf (unat n)" "n \<noteq> 0"
  defines "bs \<equiv> take (min (unat n) 64) (raw_kb_items (raw_kb s))"
  obtains q where "innigkeit_kbd_read s buf n =
      Some (int (length bs), s\<lparr>raw_kb := q, mem := write_bytes (mem s) buf bs\<rparr>)"
    "raw_kb_inv q" "raw_kb_items q = drop (min (unat n) 64) (raw_kb_items (raw_kb s))"
proof -
  obtain q where q: "raw_kb_drain (min (unat n) 64) (raw_kb s) = (bs, q)"
      "raw_kb_inv q" "raw_kb_items q = drop (min (unat n) 64) (raw_kb_items (raw_kb s))"
    using raw_kb_drain_items [OF assms(2)] unfolding bs_def
    by (metis prod.exhaust)
  have len: "length bs \<le> unat n" "length bs \<le> 64" by (auto simp: bs_def)
  have "copyToUser (mem s) buf bs = Inr (write_bytes (mem s) buf bs)"
    using userBuffer_sub [OF assms(3), of 0 "length bs"] mapped_less [OF assms(4)] len(1)
    by (intro copyToUser_mapped) simp_all
  moreover have "wire (Inr (of_nat (length bs))) = Some (int (length bs))"
    using decode_wire_Inr [of "of_nat (length bs)"] len(2) by (simp add: unat_of_nat_small)
  ultimately have "innigkeit_kbd_read s buf n =
      Some (int (length bs), s\<lparr>raw_kb := q, mem := write_bytes (mem s) buf bs\<rparr>)"
    using assms(1,3,5) q(1) by (cases "bs = []") (simp_all add: innigkeit_kbd_read_def sys_kbd_read_def wire_def Let_def)
  then show ?thesis using q(2,3) by (rule that)
qed

end
