(* ===== verification/CString.thy ===== *)
theory CString
  imports CMem "HOL-Library.Sublist"
begin

text \<open>
  The string section of \<^verbatim>\<open>apps/doom/innigkeit_libc.c\<close> (lines 81 to 205) over the
  process memory: the copying, searching and tokenising functions, \<^verbatim>\<open>strtol\<close>, the
  character classes and the BSD wrappers.  Pointers are addresses, a read or write of an
  unmapped byte makes the whole call undefined (\<^const>\<open>None\<close>).  \<^verbatim>\<open>char\<close> is signed, as
  on x86-64.
\<close>

section \<open>Characters\<close>

abbreviation chr_NUL :: byte where "chr_NUL \<equiv> 0"
abbreviation chr_tab :: byte where "chr_tab \<equiv> 9"
abbreviation chr_newline :: byte where "chr_newline \<equiv> 10"
abbreviation chr_space :: byte where "chr_space \<equiv> 32"
abbreviation chr_percent :: byte where "chr_percent \<equiv> 37"
abbreviation chr_plus :: byte where "chr_plus \<equiv> 43"
abbreviation chr_minus :: byte where "chr_minus \<equiv> 45"
abbreviation chr_zero :: byte where "chr_zero \<equiv> 48"
abbreviation chr_X :: byte where "chr_X \<equiv> 88"
abbreviation chr_x :: byte where "chr_x \<equiv> 120"

text \<open>\<^verbatim>\<open>(char)c\<close> for an \<^verbatim>\<open>int\<close>; \<^verbatim>\<open>char\<close> to \<^verbatim>\<open>int\<close> is \<open>sint\<close>.\<close>

definition to_char :: "int \<Rightarrow> byte" where
  "to_char c = word_of_int c"

definition isdigit :: "int \<Rightarrow> int" where
  "isdigit c = of_bool (48 \<le> c \<and> c \<le> 57)"

definition isspace :: "int \<Rightarrow> int" where
  "isspace c = of_bool (c = 32 \<or> c = 9 \<or> c = 10 \<or> c = 13 \<or> c = 12 \<or> c = 11)"

definition isupper :: "int \<Rightarrow> int" where
  "isupper c = of_bool (65 \<le> c \<and> c \<le> 90)"

definition islower :: "int \<Rightarrow> int" where
  "islower c = of_bool (97 \<le> c \<and> c \<le> 122)"

definition isalpha :: "int \<Rightarrow> int" where
  "isalpha c = of_bool (isupper c \<noteq> 0 \<or> islower c \<noteq> 0)"

definition isalnum :: "int \<Rightarrow> int" where
  "isalnum c = of_bool (isalpha c \<noteq> 0 \<or> isdigit c \<noteq> 0)"

definition ispunct :: "int \<Rightarrow> int" where
  "ispunct c = of_bool ((33 \<le> c \<and> c \<le> 47) \<or> (58 \<le> c \<and> c \<le> 64) \<or>
     (91 \<le> c \<and> c \<le> 96) \<or> (123 \<le> c \<and> c \<le> 126))"

definition isprint :: "int \<Rightarrow> int" where
  "isprint c = of_bool (32 \<le> c \<and> c < 127)"

definition toupper :: "int \<Rightarrow> int" where
  "toupper c = (if islower c \<noteq> 0 then c - 32 else c)"

definition tolower :: "int \<Rightarrow> int" where
  "tolower c = (if isupper c \<noteq> 0 then c + 32 else c)"

lemmas ctype_defs = isdigit_def isspace_def isupper_def islower_def isalpha_def isalnum_def
  ispunct_def isprint_def toupper_def tolower_def

section \<open>Scanning\<close>

text \<open>
  The idiom \<^verbatim>\<open>while (cond( *s)) s++\<close>.  Every iteration dereferences \<^verbatim>\<open>s\<close>, and the null
  address is never mapped, so the scan ends before the pointer wraps around.
\<close>

function scan_while :: "(byte \<Rightarrow> bool option) \<Rightarrow> mem \<Rightarrow> addr \<Rightarrow> addr option" where
  "scan_while P m s =
     do { c \<leftarrow> load8 m s; b \<leftarrow> P c; if b then scan_while P m (s + 1) else Some s }"
  by pat_completeness auto
termination
  by (relation "measure (\<lambda>(P, m, s). unat (- s))") (auto dest!: load8_SomeD simp: unat_neg_step)

declare scan_while.simps [simp del]

definition strlen :: "mem \<Rightarrow> addr \<Rightarrow> size_t option" where
  "strlen m s = do { p \<leftarrow> scan_while (\<lambda>c. Some (c \<noteq> 0)) m s; Some (p - s) }"

section \<open>Copying\<close>

function strcpy_loop :: "mem \<Rightarrow> addr \<Rightarrow> addr \<Rightarrow> mem option" where
  "strcpy_loop m d src =
     do { c \<leftarrow> load8 m src;
          m' \<leftarrow> store8 m d c;
          if c \<noteq> 0 then strcpy_loop m' (d + 1) (src + 1) else Some m' }"
  by pat_completeness auto
termination
  by (relation "measure (\<lambda>(m, d, src). unat (- src))")
    (auto dest!: load8_SomeD simp: unat_neg_step)

declare strcpy_loop.simps [simp del]

definition strcpy :: "mem \<Rightarrow> addr \<Rightarrow> addr \<Rightarrow> (addr \<times> mem) option" where
  "strcpy m dst src = do { m' \<leftarrow> strcpy_loop m dst src; Some (dst, m') }"

text \<open>The two loops of \<^verbatim>\<open>strncpy\<close> share the index \<^verbatim>\<open>i\<close>.\<close>

lemma word_less_Suc: "i < n \<Longrightarrow> unat (i + 1) = Suc (unat i)" for i n :: size_t
  using unat_bound [of n] by (intro unat_plus_one) (simp add: word_less_nat_alt)

function strncpy_copy :: "mem \<Rightarrow> addr \<Rightarrow> addr \<Rightarrow> size_t \<Rightarrow> size_t \<Rightarrow> (size_t \<times> mem) option" where
  "strncpy_copy m dst src i n =
     (if i < n then
        do { c \<leftarrow> load8 m (src + i);
             if c \<noteq> 0 then do { m' \<leftarrow> store8 m (dst + i) c; strncpy_copy m' dst src (i + 1) n }
             else Some (i, m) }
      else Some (i, m))"
  by pat_completeness auto
termination
  by (relation "measure (\<lambda>(m, dst, src, i, n). unat n - unat i)")
    (auto simp: word_less_Suc word_less_nat_alt diff_less_mono2)

function strncpy_fill :: "mem \<Rightarrow> addr \<Rightarrow> size_t \<Rightarrow> size_t \<Rightarrow> mem option" where
  "strncpy_fill m dst i n =
     (if i < n then do { m' \<leftarrow> store8 m (dst + i) 0; strncpy_fill m' dst (i + 1) n }
      else Some m)"
  by pat_completeness auto
termination
  by (relation "measure (\<lambda>(m, dst, i, n). unat n - unat i)")
    (auto simp: word_less_Suc word_less_nat_alt diff_less_mono2)

declare strncpy_copy.simps [simp del] strncpy_fill.simps [simp del]

definition strncpy :: "mem \<Rightarrow> addr \<Rightarrow> addr \<Rightarrow> size_t \<Rightarrow> (addr \<times> mem) option" where
  "strncpy m dst src n =
     do { (i, m') \<leftarrow> strncpy_copy m dst src 0 n;
          m'' \<leftarrow> strncpy_fill m' dst i n;
          Some (dst, m'') }"

definition strcat :: "mem \<Rightarrow> addr \<Rightarrow> addr \<Rightarrow> (addr \<times> mem) option" where
  "strcat m dst src =
     do { d \<leftarrow> scan_while (\<lambda>c. Some (c \<noteq> 0)) m dst;
          m' \<leftarrow> strcpy_loop m d src;
          Some (dst, m') }"

text \<open>
  \<^verbatim>\<open>while (n-- && ( *d++ = *src++));\<close> returns the final \<^verbatim>\<open>d\<close>: one past the terminator when
  the terminator was copied, one past the last character when \<^verbatim>\<open>n\<close> ran out.
\<close>

function strncat_loop :: "mem \<Rightarrow> addr \<Rightarrow> addr \<Rightarrow> size_t \<Rightarrow> (addr \<times> mem) option" where
  "strncat_loop m d src n =
     (if n \<noteq> 0 then
        do { c \<leftarrow> load8 m src;
             m' \<leftarrow> store8 m d c;
             if c \<noteq> 0 then strncat_loop m' (d + 1) (src + 1) (n - 1) else Some (d + 1, m') }
      else Some (d, m))"
  by pat_completeness auto
termination
  by (relation "measure (\<lambda>(m, d, src, n). unat n)") (auto simp: measure_unat)

declare strncat_loop.simps [simp del]

definition strncat :: "mem \<Rightarrow> addr \<Rightarrow> addr \<Rightarrow> size_t \<Rightarrow> (addr \<times> mem) option" where
  "strncat m dst src n =
     do { d \<leftarrow> scan_while (\<lambda>c. Some (c \<noteq> 0)) m dst;
          (d', m') \<leftarrow> strncat_loop m d src n;
          m'' \<leftarrow> store8 m' d' 0;
          Some (dst, m'') }"

section \<open>Searching\<close>

function strchr :: "mem \<Rightarrow> addr \<Rightarrow> int \<Rightarrow> addr option" where
  "strchr m s c =
     do { b \<leftarrow> load8 m s;
          if b \<noteq> 0 then (if b = to_char c then Some s else strchr m (s + 1) c)
          else Some (if c = 0 then s else NULL) }"
  by pat_completeness auto
termination
  by (relation "measure (\<lambda>(m, s, c). unat (- s))") (auto dest!: load8_SomeD simp: unat_neg_step)

function strrchr_loop :: "mem \<Rightarrow> addr \<Rightarrow> int \<Rightarrow> addr \<Rightarrow> addr option" where
  "strrchr_loop m s c lst =
     do { b \<leftarrow> load8 m s;
          if b \<noteq> 0 then strrchr_loop m (s + 1) c (if b = to_char c then s else lst)
          else Some lst }"
  by pat_completeness auto
termination
  by (relation "measure (\<lambda>(m, s, c, lst). unat (- s))")
    (auto dest!: load8_SomeD simp: unat_neg_step)

definition strrchr :: "mem \<Rightarrow> addr \<Rightarrow> int \<Rightarrow> addr option" where
  "strrchr m s c = strrchr_loop m s c NULL"

function strstr_loop :: "mem \<Rightarrow> addr \<Rightarrow> addr \<Rightarrow> size_t \<Rightarrow> addr option" where
  "strstr_loop m haystack needle nl =
     do { b \<leftarrow> load8 m haystack;
          if b \<noteq> 0 then
            do { r \<leftarrow> builtin_memcmp m haystack needle nl;
                 if r = 0 then Some haystack else strstr_loop m (haystack + 1) needle nl }
          else Some NULL }"
  by pat_completeness auto
termination
  by (relation "measure (\<lambda>(m, h, n, nl). unat (- h))")
    (auto dest!: load8_SomeD simp: unat_neg_step)

declare strchr.simps [simp del] strrchr_loop.simps [simp del] strstr_loop.simps [simp del]

definition strstr :: "mem \<Rightarrow> addr \<Rightarrow> addr \<Rightarrow> addr option" where
  "strstr m haystack needle =
     do { b \<leftarrow> load8 m needle;
          if b = 0 then Some haystack
          else do { nl \<leftarrow> strlen m needle; strstr_loop m haystack needle nl } }"

section \<open>Tokenising\<close>

text \<open>
  \<^verbatim>\<open>strtok\<close> keeps its position in the function-static pointer \<^verbatim>\<open>saved\<close>, an argument and
  a result here.  The character read is promoted to \<^verbatim>\<open>int\<close> for \<^verbatim>\<open>strchr\<close>.
\<close>

definition is_delim :: "mem \<Rightarrow> addr \<Rightarrow> byte \<Rightarrow> bool option" where
  "is_delim m delim c = do { r \<leftarrow> strchr m delim (sint c); Some (r \<noteq> NULL) }"

definition strtok :: "mem \<Rightarrow> addr \<Rightarrow> addr \<Rightarrow> addr \<Rightarrow> (addr \<times> addr \<times> mem) option" where
  "strtok m saved str delim =
     (let saved = (if str \<noteq> NULL then str else saved) in
      if saved = NULL then Some (NULL, saved, m)
      else do {
        saved \<leftarrow> scan_while (\<lambda>c. if c \<noteq> 0 then is_delim m delim c else Some False) m saved;
        c \<leftarrow> load8 m saved;
        if c = 0 then Some (NULL, saved, m)
        else do {
          let tok = saved;
          saved \<leftarrow> scan_while (\<lambda>c. if c \<noteq> 0 then map_option Not (is_delim m delim c)
                                     else Some False) m saved;
          c \<leftarrow> load8 m saved;
          if c \<noteq> 0 then do { m' \<leftarrow> store8 m saved 0; Some (tok, saved + 1, m') }
          else Some (tok, saved, m) } })"

section \<open>The BSD wrappers\<close>

definition bzero :: "mem \<Rightarrow> addr \<Rightarrow> size_t \<Rightarrow> mem option" where
  "bzero m s n = builtin_memset m s 0 n"

definition bcopy :: "mem \<Rightarrow> addr \<Rightarrow> addr \<Rightarrow> size_t \<Rightarrow> mem option" where
  "bcopy m src dst n = builtin_memmove m dst src n"

definition bcmp :: "mem \<Rightarrow> addr \<Rightarrow> addr \<Rightarrow> size_t \<Rightarrow> int option" where
  "bcmp m s1 s2 n = builtin_memcmp m s1 s2 n"

section \<open>Scans and lengths\<close>

text \<open>A memory with three strings, for the examples: "Hi" with room behind it, "a,b" and ",".\<close>

definition str_mem :: mem where
  "str_mem = write_bytes (write_bytes (write_bytes Map.empty 4096 [72, 105, 0, 1, 1, 1, 1, 1])
     8192 [97, 44, 98, 0]) 12288 [44, 0]"

lemma scan_while_bytes:
  assumes "bytes_at m p xs" "\<forall>c \<in> set xs. P c = Some True"
    "load8 m (p + of_nat (length xs)) = Some c" "P c = Some False"
  shows "scan_while P m p = Some (p + of_nat (length xs))"
  using assms
proof (induction xs arbitrary: p)
  case Nil
  then show ?case by (subst scan_while.simps) simp
next
  case (Cons x xs)
  then have "scan_while P m (p + 1) = Some (p + 1 + of_nat (length xs))"
    by (simp add: ac_simps)
  with Cons.prems show ?case by (subst scan_while.simps) (simp add: ac_simps)
qed

lemma scan_while_SomeD:
  assumes "scan_while P m p = Some q"
  shows "\<exists>xs c. bytes_at m p xs \<and> (\<forall>c \<in> set xs. P c = Some True) \<and>
    q = p + of_nat (length xs) \<and> load8 m q = Some c \<and> P c = Some False"
  using assms
proof (induction P m p rule: scan_while.induct)
  case (1 P m s)
  from "1.prems" obtain c b where c: "load8 m s = Some c" "P c = Some b"
    by (subst (asm) scan_while.simps) (auto simp: bind_Some_iff)
  show ?case
  proof (cases b)
    case False
    with c "1.prems" have "q = s" by (subst (asm) scan_while.simps) simp
    with c False show ?thesis by (intro exI [of _ "[]"] exI [of _ c]) simp
  next
    case True
    with c "1.prems" have "scan_while P m (s + 1) = Some q"
      by (subst (asm) scan_while.simps) simp
    from "1.IH" [OF c True this] obtain xs d where
      "bytes_at m (s + 1) xs" "\<forall>c \<in> set xs. P c = Some True"
      "q = s + 1 + of_nat (length xs)" "load8 m q = Some d" "P d = Some False" by blast
    with c True show ?thesis
      by (intro exI [of _ "c # xs"] exI [of _ d]) (simp add: ac_simps)
  qed
qed

lemma scan_nul_iff:
  "scan_while (\<lambda>c. Some (c \<noteq> 0)) m p = Some q \<longleftrightarrow> (\<exists>s. cstr m p s \<and> q = p + of_nat (length s))"
proof
  assume "scan_while (\<lambda>c. Some (c \<noteq> 0)) m p = Some q"
  from scan_while_SomeD [OF this] show "\<exists>s. cstr m p s \<and> q = p + of_nat (length s)"
    by (force simp: cstr_def)
next
  assume "\<exists>s. cstr m p s \<and> q = p + of_nat (length s)"
  then obtain s where s: "cstr m p s" "q = p + of_nat (length s)" by blast
  show "scan_while (\<lambda>c. Some (c \<noteq> 0)) m p = Some q"
    unfolding s(2) by (rule scan_while_bytes [where c = 0]) (use s(1) in \<open>auto simp: cstr_def\<close>)
qed

lemma scan_nul: "cstr m p s \<Longrightarrow> scan_while (\<lambda>c. Some (c \<noteq> 0)) m p = Some (p + of_nat (length s))"
  using scan_nul_iff by blast

lemma strlen_cstr: "cstr m p s \<Longrightarrow> strlen m p = Some (of_nat (length s))"
  by (simp add: strlen_def scan_nul)

text \<open>
  C40.  strlen returns exactly on a NUL-terminated string in mapped memory, and returns its
  length; on anything else the loop runs into unmapped memory.
\<close>

theorem strlen_iff: "strlen m p = Some n \<longleftrightarrow> (\<exists>s. cstr m p s \<and> unat n = length s)"
proof -
  have *: "n = of_nat (length s) \<longleftrightarrow> unat n = length s" if "cstr m p s" for s
    using cstr_bounds [OF that] by (simp add: word_unat_eq_iff unat_of_nat_small)
  have "strlen m p = Some n \<longleftrightarrow> (\<exists>s. cstr m p s \<and> n = of_nat (length s))"
    by (auto simp: strlen_def bind_Some_iff scan_nul_iff)
  with * show ?thesis by auto
qed

section \<open>Copies\<close>

lemma cstr_update: "cstr m p s \<Longrightarrow> \<not> in_range a p (Suc (length s)) \<Longrightarrow> cstr (m(a \<mapsto> v)) p s"
  by (rule same_except_cstr [where p = a and n = 1])
    (auto simp: same_except_def in_range_def sep_def)

lemma bytes_at_update: "bytes_at m p s \<Longrightarrow> \<not> in_range a p (length s) \<Longrightarrow> bytes_at (m(a \<mapsto> v)) p s"
  by (rule same_except_bytes_at [where p = a and n = 1])
    (auto simp: same_except_def in_range_def sep_def)

lemma mapped_update: "mapped m p n \<Longrightarrow> mapped (m(a \<mapsto> v)) p n"
  by (erule mapped_mono) simp

lemma strcpy_loop_cstr:
  assumes "cstr m src s" "mapped m d (Suc (length s))" "sep d (Suc (length s)) src (Suc (length s))"
  shows "strcpy_loop m d src = Some (write_bytes m d (s @ [0]))"
  using assms
proof (induction s arbitrary: m d src)
  case Nil
  then show ?case by (subst strcpy_loop.simps) (auto simp: store8_def load8_def split: if_splits)
next
  case (Cons c s)
  have b: "0 < unat src \<and> unat src + Suc (length (c # s)) \<le> 2 ^ 64"
    "0 < unat d \<and> unat d + Suc (length (c # s)) \<le> 2 ^ 64"
    using cstr_bounds [OF Cons.prems(1)] mapped_bounds [OF Cons.prems(2)] by simp_all
  then have u: "unat (src + 1) = Suc (unat src)" "unat (d + 1) = Suc (unat d)"
    by (simp_all add: unat_plus_one)
  have st: "store8 m d c = Some (m(d \<mapsto> c))"
    using Cons.prems(2) by (auto simp: store8_def load8_def split: if_splits)
  have "strcpy_loop (m(d \<mapsto> c)) (d + 1) (src + 1) = Some (write_bytes (m(d \<mapsto> c)) (d + 1) (s @ [0]))"
  proof (rule Cons.IH)
    show "cstr (m(d \<mapsto> c)) (src + 1) s"
      using Cons.prems u by (intro cstr_update) (auto simp: in_range_def sep_def)
    show "mapped (m(d \<mapsto> c)) (d + 1) (Suc (length s))"
      using Cons.prems by (intro mapped_update) simp
    show "sep (d + 1) (Suc (length s)) (src + 1) (Suc (length s))"
      using Cons.prems u by (auto simp: sep_def)
  qed
  with Cons.prems st show ?case by (subst strcpy_loop.simps) (simp del: fun_upd_apply)
qed

lemma write_cstr:
  assumes "mapped m d (Suc (length s))" "0 \<notin> set s"
  shows "cstr (write_bytes m d (s @ [0])) d s"
  using assms mapped_bounds [OF assms(1)] write_bytes_at [of d "s @ [0]" m]
  by (simp add: cstr_def)

lemma strcpy_correct:
  assumes "cstr m src s" "mapped m dst (Suc (length s))"
    "sep dst (Suc (length s)) src (Suc (length s))"
  shows "\<exists>m'. strcpy m dst src = Some (dst, m') \<and> cstr m' dst s \<and> cstr m' src s \<and>
    same_except m m' dst (Suc (length s))"
proof -
  let ?m = "write_bytes m dst (s @ [0])"
  have se: "same_except m ?m dst (Suc (length s))"
    using mapped_bounds [OF assms(2)] same_except_write [of dst "s @ [0]" m] by simp
  have "cstr ?m dst s" using assms by (intro write_cstr) (auto simp: cstr_def)
  moreover have "cstr ?m src s" using same_except_cstr [OF se assms(1,3)] .
  ultimately show ?thesis using se strcpy_loop_cstr [OF assms] by (simp add: strcpy_def)
qed

lemma store8_mapped: "load8 m p \<noteq> None \<Longrightarrow> store8 m p c = Some (m(p \<mapsto> c))"
  by (auto simp: store8_def load8_def split: if_splits)

text \<open>After the first byte of a copy, what the rest of it needs holds one address further.\<close>

lemma copy_step:
  assumes "bytes_at m src (c # xs)" "xs \<noteq> []" "mapped m d (Suc k)" "0 < k" "sep d (Suc k) src (Suc (length xs))"
  shows "bytes_at (m(d \<mapsto> b)) (src + 1) xs" "mapped (m(d \<mapsto> b)) (d + 1) k" "sep (d + 1) k (src + 1) (length xs)"
proof -
  have "2 \<le> length (c # xs)" using assms(2) by (cases xs) simp_all
  then have "unat src + 2 \<le> 2 ^ 64" "unat d + 2 \<le> 2 ^ 64"
    using mapped_bounds [OF bytes_at_mapped [OF assms(1)]] mapped_bounds [OF assms(3)] assms(4) by linarith+
  then have u: "unat (src + 1) = Suc (unat src)" "unat (d + 1) = Suc (unat d)" by (simp_all add: unat_plus_one)
  show "bytes_at (m(d \<mapsto> b)) (src + 1) xs"
    using assms(1,5) u by (intro bytes_at_update) (auto simp: in_range_def sep_def)
  show "mapped (m(d \<mapsto> b)) (d + 1) k" using assms(3) by (simp add: mapped_update)
  show "sep (d + 1) k (src + 1) (length xs)" using assms(5) u by (auto simp: sep_def)
qed

lemma strncpy_copy_bytes:
  assumes "i \<le> n" "0 \<notin> set s" "bytes_at m (src + i) (take (unat n - unat i) (s @ [0]))"
    "mapped m (dst + i) (unat n - unat i)"
    "sep (dst + i) (unat n - unat i) (src + i) (min (unat n - unat i) (Suc (length s)))"
  shows "strncpy_copy m dst src i n =
    Some (i + of_nat (min (length s) (unat n - unat i)),
          write_bytes m (dst + i) (take (unat n - unat i) s))"
  using assms
proof (induction s arbitrary: m i)
  case Nil
  then show ?case
    by (cases "unat n - unat i"; subst strncpy_copy.simps) (auto simp: word_less_nat_alt)
next
  case (Cons c s)
  show ?case
  proof (cases "i < n")
    case False
    with Cons.prems(1) have "i = n" by simp
    then show ?thesis by (subst strncpy_copy.simps) simp
  next
    case True
    define k where "k = unat n - unat (i + 1)"
    have k: "unat n - unat i = Suc k"
      using True by (auto simp: k_def word_less_Suc word_less_nat_alt)
    have c: "load8 m (src + i) = Some c" "c \<noteq> 0" "load8 m (dst + i) \<noteq> None"
      and p: "bytes_at m (src + i) (c # take k (s @ [0]))" "mapped m (dst + i) (Suc k)"
      using Cons.prems(2-4) by (simp_all add: k)
    have l: "length (take k (s @ [0])) = min k (Suc (length s))" by auto
    have sp: "sep (dst + i) (Suc k) (src + i) (Suc (length (take k (s @ [0]))))"
      unfolding l using Cons.prems(5) by (simp add: k)
    have "strncpy_copy (m(dst + i \<mapsto> c)) dst src (i + 1) n =
      Some (i + 1 + of_nat (min (length s) k), write_bytes (m(dst + i \<mapsto> c)) (dst + (i + 1)) (take k s))"
    proof (cases "k = 0")
      case True
      then have "\<not> i + 1 < n" by (simp add: k_def word_less_nat_alt)
      then show ?thesis using True by (subst strncpy_copy.simps) simp
    next
      case False
      then have "take k (s @ [0]) \<noteq> []" "0 < k" by simp_all
      from copy_step [OF p(1) this(1) p(2) this(2) sp, unfolded l] show ?thesis
        unfolding k_def using Cons.prems(2) True
        by (intro Cons.IH) (simp_all add: add.assoc min.commute word_le_nat_alt word_less_nat_alt word_less_Suc del: fun_upd_apply)
    qed
    with c True store8_mapped [OF c(3)] show ?thesis
      by (subst strncpy_copy.simps) (simp add: k ac_simps del: fun_upd_apply)
  qed
qed

lemma strncpy_fill_bytes:
  assumes "i \<le> n" "mapped m (dst + i) (unat n - unat i)"
  shows "strncpy_fill m dst i n = Some (write_bytes m (dst + i) (replicate (unat n - unat i) 0))"
  using assms
proof (induction m dst i n rule: strncpy_fill.induct)
  case (1 m dst i n)
  show ?case
  proof (cases "i < n")
    case False
    with "1.prems" have "i = n" by simp
    then show ?thesis by (subst strncpy_fill.simps) simp
  next
    case True
    define k where "k = unat n - unat (i + 1)"
    have k: "unat n - unat i = Suc k"
      using True by (auto simp: k_def word_less_Suc word_less_nat_alt)
    have md: "load8 m (dst + i) \<noteq> None" "mapped m (dst + (i + 1)) k"
      using "1.prems" by (simp_all add: k ac_simps)
    have "strncpy_fill (m(dst + i \<mapsto> 0)) dst (i + 1) n =
        Some (write_bytes (m(dst + i \<mapsto> 0)) (dst + (i + 1)) (replicate (unat n - unat (i + 1)) 0))"
      using True md(2) store8_mapped [OF md(1)]
      by (intro "1.IH") (auto simp: k_def word_le_nat_alt word_less_nat_alt word_less_Suc
          simp del: fun_upd_apply intro: mapped_update)
    with True store8_mapped [OF md(1)] show ?thesis
      by (subst strncpy_fill.simps) (simp add: k k_def [symmetric] add.assoc del: fun_upd_apply)
  qed
qed

lemma strncpy_bytes:
  assumes "0 \<notin> set s" "bytes_at m src (take (unat n) (s @ [0]))" "mapped m dst (unat n)"
    "sep dst (unat n) src (min (unat n) (Suc (length s)))"
  shows "strncpy m dst src n =
    Some (dst, write_bytes m dst (take (unat n) s @ replicate (unat n - length s) 0))"
proof -
  define k where "k = min (length s) (unat n)"
  define i :: size_t where "i = of_nat k"
  have i: "unat i = k" "i \<le> n"
    using unat_bound [of n] by (simp_all add: i_def k_def unat_of_nat_small word_le_nat_alt)
  define m' where "m' = write_bytes m dst (take (unat n) s)"
  have copy: "strncpy_copy m dst src 0 n = Some (i, m')"
    using strncpy_copy_bytes [of 0 n s m src dst] assms by (simp add: i_def k_def m'_def)
  have "mapped m (dst + of_nat k) (unat n - k)"
    using assms(3) mapped_append [of m dst k "unat n - k"] by (simp add: k_def)
  then have "mapped m' (dst + i) (unat n - unat i)"
    unfolding i(1) by (simp add: m'_def i_def mapped_write)
  then have "strncpy_fill m' dst i n = Some (write_bytes m' (dst + i) (replicate (unat n - k) 0))"
    using strncpy_fill_bytes [OF i(2)] i(1) by simp
  moreover have "length (take (unat n) s) = k" "unat n - k = unat n - length s"
    by (auto simp: k_def)
  ultimately show ?thesis
    using copy by (simp add: strncpy_def m'_def write_bytes_append i_def)
qed

text \<open>
  C26.  strncpy fills exactly the n bytes at the destination with the first n characters of
  the source padded with NULs, writes nothing else and returns the destination; the result is
  terminated when the source is shorter than n.
\<close>

theorem strncpy_correct:
  assumes "0 \<notin> set s" "bytes_at m src (take (unat n) (s @ [0]))" "mapped m dst (unat n)"
    "sep dst (unat n) src (min (unat n) (Suc (length s)))"
  shows "\<exists>m'. strncpy m dst src n = Some (dst, m') \<and>
    bytes_at m' dst (take (unat n) s @ replicate (unat n - length s) 0) \<and>
    same_except m m' dst (unat n) \<and> (length s < unat n \<longrightarrow> cstr m' dst s)"
proof -
  let ?bs = "take (unat n) s @ replicate (unat n - length s) 0"
  let ?m = "write_bytes m dst ?bs"
  have len: "length ?bs = unat n" by simp
  show ?thesis
  proof (cases "unat n = 0")
    case True
    then show ?thesis using strncpy_bytes [OF assms] by simp
  next
    case False
    then have b: "0 < unat dst \<and> unat dst + unat n \<le> 2 ^ 64"
      using mapped_bounds [OF assms(3)] by simp
    have at: "bytes_at ?m dst ?bs" using b len by (intro write_bytes_at) simp_all
    moreover have "same_except m ?m dst (unat n)"
      using b len same_except_write [of dst ?bs m] by simp
    moreover have "cstr ?m dst s" if "length s < unat n"
    proof -
      from that have "?bs = (s @ [0]) @ replicate (unat n - length s - 1) 0"
        by (cases "unat n - length s") simp_all
      with at assms(1) show ?thesis by (simp add: cstr_def)
    qed
    ultimately show ?thesis using strncpy_bytes [OF assms] by simp
  qed
qed

theorem strncpy_witness:
  "\<exists>m'. strncpy str_mem 4096 8192 6 = Some (4096, m') \<and>
    bytes_at m' 4096 (take (unat (6 :: size_t)) [97, 44, 98] @
      replicate (unat (6 :: size_t) - length [97 :: byte, 44, 98]) 0) \<and>
    same_except str_mem m' 4096 (unat (6 :: size_t)) \<and>
    (length [97 :: byte, 44, 98] < unat (6 :: size_t) \<longrightarrow> cstr m' 4096 [97, 44, 98])"
  by (rule strncpy_correct) code_simp+

lemma write_append_cstr:
  assumes "cstr m dst s" "mapped m dst (length s + Suc (length t))" "0 \<notin> set t"
  shows "cstr (write_bytes m (dst + of_nat (length s)) (t @ [0])) dst (s @ t)"
    "same_except m (write_bytes m (dst + of_nat (length s)) (t @ [0])) (dst + of_nat (length s)) (Suc (length t))"
    "unat (dst + of_nat (length s)) = unat dst + length s"
proof -
  let ?d = "dst + of_nat (length s)"
  show u: "unat ?d = unat dst + length s"
    using unat_range [OF assms(2)] by simp
  have b: "unat dst + (length s + Suc (length t)) \<le> 2 ^ 64"
    using mapped_bounds [OF assms(2)] by simp
  let ?m = "write_bytes m ?d (t @ [0])"
  show se: "same_except m ?m ?d (Suc (length t))"
    using same_except_write [of ?d "t @ [0]" m] u b by simp
  have "bytes_at ?m dst s"
    using assms(1) u by (intro same_except_bytes_at [OF se]) (auto simp: cstr_def sep_def)
  moreover have "cstr ?m ?d t"
    using mapped_tail [OF assms(2)] assms(3) by (intro write_cstr)
  ultimately show "cstr ?m dst (s @ t)"
    using assms(1) by (simp add: cstr_append cstr_def)
qed

text \<open>
  strcat appends the source string to the destination string, touches only the bytes
  from the old terminator on, and returns the destination.
\<close>

theorem strcat_correct:
  assumes "cstr m dst s" "cstr m src t" "mapped m dst (length s + Suc (length t))"
    "sep dst (length s + Suc (length t)) src (Suc (length t))"
  shows "\<exists>m'. strcat m dst src = Some (dst, m') \<and> cstr m' dst (s @ t) \<and>
    same_except m m' (dst + of_nat (length s)) (Suc (length t))"
proof -
  have t: "0 \<notin> set t" using assms(2) by (simp add: cstr_def)
  note w = write_append_cstr [OF assms(1,3) t]
  have "strcpy_loop m (dst + of_nat (length s)) src
      = Some (write_bytes m (dst + of_nat (length s)) (t @ [0]))"
    using assms(2,4) w(3) mapped_tail [OF assms(3)]
    by (intro strcpy_loop_cstr) (auto simp: sep_def)
  then show ?thesis
    using w(1,2) by (simp add: strcat_def scan_nul [OF assms(1)])
qed

theorem strcat_witness:
  "\<exists>m'. strcat str_mem 4096 8192 = Some (4096, m') \<and> cstr m' 4096 ([72, 105] @ [97, 44, 98]) \<and>
    same_except str_mem m' (4096 + of_nat (length [72 :: byte, 105])) (Suc (length [97 :: byte, 44, 98]))"
  by (rule strcat_correct) code_simp+

text \<open>
  The bytes \<^verbatim>\<open>strncat\<close> appends: when the source ends before \<^verbatim>\<open>n\<close> runs out, its terminator
  is copied and a second one is stored after it.
\<close>

definition strncat_tail :: "byte list \<Rightarrow> nat \<Rightarrow> byte list" where
  "strncat_tail t n = (if length t < n then t @ [0, 0] else take n t @ [0])"

lemma strncat_loop_bytes:
  assumes "0 \<notin> set t" "bytes_at m src (take (unat n) (t @ [0]))"
    "mapped m d (min (unat n) (Suc (length t)))"
    "sep d (min (unat n) (Suc (length t))) src (min (unat n) (Suc (length t)))"
  shows "strncat_loop m d src n =
    Some (d + of_nat (min (unat n) (Suc (length t))),
          write_bytes m d (take (unat n) (t @ [0])))"
  using assms
proof (induction t arbitrary: m d src n)
  case Nil
  show ?case
  proof (cases "n = 0")
    case True then show ?thesis by (subst strncat_loop.simps) simp
  next
    case False
    then obtain k where "unat n = Suc k" using unat_eq_zero not0_implies_Suc by blast
    with Nil False show ?thesis
      by (subst strncat_loop.simps) (simp add: store8_mapped)
  qed
next
  case (Cons c t)
  show ?case
  proof (cases "n = 0")
    case True then show ?thesis by (subst strncat_loop.simps) simp
  next
    case False
    define k where "k = unat (n - 1)"
    have k: "unat n = Suc k" using False by (simp add: k_def unat_minus_one unat_gt_0)
    have c: "load8 m src = Some c" "c \<noteq> 0" "load8 m d \<noteq> None"
      and p: "bytes_at m src (c # take k (t @ [0]))" "mapped m d (Suc (min k (Suc (length t))))"
      using Cons.prems(1-3) by (simp_all add: k)
    have l: "length (take k (t @ [0])) = min k (Suc (length t))" by auto
    have sp: "sep d (Suc (min k (Suc (length t)))) src (Suc (length (take k (t @ [0]))))"
      unfolding l using Cons.prems(4) by (simp add: k)
    have "strncat_loop (m(d \<mapsto> c)) (d + 1) (src + 1) (n - 1) =
      Some (d + 1 + of_nat (min k (Suc (length t))), write_bytes (m(d \<mapsto> c)) (d + 1) (take k (t @ [0])))"
    proof (cases "k = 0")
      case True
      then have "n - 1 = 0" by (simp add: k_def unat_eq_zero)
      then show ?thesis using True by (subst strncat_loop.simps) simp
    next
      case False
      then have "take k (t @ [0]) \<noteq> []" "0 < min k (Suc (length t))" by simp_all
      from copy_step [OF p(1) this(1) p(2) this(2) sp, unfolded l] show ?thesis
        unfolding k_def using Cons.prems(1)
        by (intro Cons.IH) (simp_all add: min.commute del: fun_upd_apply)
    qed
    with False c store8_mapped [OF c(3)] show ?thesis
      by (subst strncat_loop.simps) (simp add: k k_def [symmetric] add.assoc del: fun_upd_apply)
  qed
qed

lemma strncat_bytes:
  assumes "cstr m dst s" "cstr m src t"
    "mapped m dst (length s + length (strncat_tail t (unat n)))"
    "sep dst (length s + length (strncat_tail t (unat n))) src (Suc (length t))"
  shows "strncat m dst src n =
    Some (dst, write_bytes m (dst + of_nat (length s)) (strncat_tail t (unat n)))"
proof -
  define d where "d = dst + of_nat (length s)"
  define bs where "bs = take (unat n) (t @ [0])"
  have u: "unat d = unat dst + length s"
    using unat_range [OF assms(3)] by (auto simp: strncat_tail_def d_def)
  have tail: "strncat_tail t (unat n) = bs @ [0]"
    by (auto simp: strncat_tail_def bs_def)
  have k: "min (unat n) (Suc (length t)) = length bs" by (simp add: bs_def min.commute)
  have t0: "0 \<notin> set t" "bytes_at m src (t @ [0])" using assms(2) by (auto simp: cstr_def)
  have "bytes_at m src (bs @ drop (unat n) (t @ [0]))"
    unfolding bs_def using t0(2) by (simp only: append_take_drop_id)
  then have src: "bytes_at m src bs" by (simp only: bytes_at_append)
  have "mapped m d (length bs + 1)"
    using mapped_tail [OF assms(3)] by (simp add: tail d_def)
  then have md: "mapped m d (length bs)" "load8 m (d + of_nat (length bs)) \<noteq> None"
    unfolding mapped_append by simp_all
  have "strncat_loop m d src n = Some (d + of_nat (length bs), write_bytes m d bs)"
    using assms(4) u k tail
    by (intro strncat_loop_bytes [of t m src n d, folded bs_def, unfolded k, OF t0(1) src md(1)])
      (auto simp: sep_def)
  moreover have "load8 (write_bytes m d bs) (d + of_nat (length bs)) \<noteq> None"
    using md(2) mapped_write [of m "d + of_nat (length bs)" 1] by simp
  ultimately show ?thesis
    by (simp add: strncat_def scan_nul [OF assms(1)] store8_mapped tail write_bytes_append
        flip: d_def)
qed

text \<open>
  C28.  strncat appends at most n characters and leaves a terminated string, provided the
  destination has room for all the bytes the loop writes, which is one byte more than the result
  needs whenever the source is shorter than n.
\<close>

theorem strncat_correct:
  assumes "cstr m dst s" "cstr m src t"
    "mapped m dst (length s + length (strncat_tail t (unat n)))"
    "sep dst (length s + length (strncat_tail t (unat n))) src (Suc (length t))"
  shows "\<exists>m'. strncat m dst src n = Some (dst, m') \<and> cstr m' dst (s @ take (unat n) t) \<and>
    same_except m m' (dst + of_nat (length s)) (length (strncat_tail t (unat n)))"
proof -
  define d where "d = dst + of_nat (length s)"
  let ?tail = "strncat_tail t (unat n)"
  let ?m = "write_bytes m d ?tail"
  have u: "unat d = unat dst + length s"
    using unat_range [OF assms(3)] by (auto simp: strncat_tail_def d_def)
  have b: "0 < unat dst" "unat dst + (length s + length ?tail) \<le> 2 ^ 64"
    using mapped_bounds [OF assms(3)] by (auto simp: strncat_tail_def)
  have se: "same_except m ?m d (length ?tail)"
    using b u by (intro same_except_write) simp
  have "bytes_at ?m dst s"
    using assms(1) u by (intro same_except_bytes_at [OF se]) (auto simp: cstr_def sep_def)
  moreover have "bytes_at ?m d ?tail"
    using b u by (intro write_bytes_at) simp_all
  then have "cstr ?m d (take (unat n) t)"
    using assms(2) by (auto simp: cstr_def strncat_tail_def split: if_splits dest: in_set_takeD)
  ultimately have "cstr ?m dst (s @ take (unat n) t)"
    using assms(1) by (simp add: cstr_append cstr_def d_def)
  then show ?thesis
    using strncat_bytes [OF assms] se by (simp add: d_def)
qed

theorem strncat_witness:
  "\<exists>m'. strncat str_mem 4096 8192 2 = Some (4096, m') \<and>
    cstr m' 4096 ([72, 105] @ take (unat (2 :: size_t)) [97, 44, 98]) \<and>
    same_except str_mem m' (4096 + of_nat (length [72 :: byte, 105]))
      (length (strncat_tail [97, 44, 98] (unat (2 :: size_t))))"
  by (rule strncat_correct) code_simp+

text \<open>
  strncat overruns its destination: when the source is shorter than n and the
  destination has room for exactly the concatenation and its terminator, the second terminator
  is stored past the end of the destination.
\<close>

theorem strncat_overrun:
  assumes "cstr m dst s" "cstr m src t" "length t < unat n"
    "mapped m dst (length s + Suc (length t))"
    "load8 m (dst + of_nat (length s + Suc (length t))) = None"
    "sep dst (length s + Suc (length t)) src (Suc (length t))"
  shows "strncat m dst src n = None"
proof -
  define d where "d = dst + of_nat (length s)"
  have u: "unat d = unat dst + length s"
    using unat_range [OF assms(4)] by (simp add: d_def)
  have t0: "0 \<notin> set t" "bytes_at m src (t @ [0])" using assms(2) by (auto simp: cstr_def)
  have k: "min (unat n) (Suc (length t)) = Suc (length t)" "take (unat n) (t @ [0]) = t @ [0]"
    using assms(3) by simp_all
  have "strncat_loop m d src n = Some (d + of_nat (Suc (length t)), write_bytes m d (t @ [0]))"
    using t0 mapped_tail [OF assms(4)] assms(6) u
    by (intro strncat_loop_bytes [of t m src n d, unfolded k]) (auto simp: sep_def d_def)
  moreover have "write_bytes m d (t @ [0]) (d + of_nat (Suc (length t)))
      = m (d + of_nat (Suc (length t)))"
  proof (rule write_bytes_other)
    have "unat dst + (length s + Suc (length t)) \<le> 2 ^ 64"
      using mapped_bounds [OF assms(4)] by simp
    then show b: "unat d + length (t @ [0]) \<le> 2 ^ 64" using u by simp
    show "\<not> in_range (d + of_nat (Suc (length t))) d (length (t @ [0]))"
    proof (cases "unat d + Suc (length t) = 2 ^ 64")
      case True
      then have "d + of_nat (Suc (length t)) = 0" by (rule plus_of_nat_wrap)
      then show ?thesis using u mapped_bounds [OF assms(4)] by (simp add: in_range_def)
    next
      case False
      then have "unat (d + of_nat (Suc (length t))) = unat d + Suc (length t)"
        using b by (intro unat_plus_of_nat) simp
      then show ?thesis by (simp add: in_range_def)
    qed
  qed
  moreover have "load8 m (d + of_nat (Suc (length t))) = None"
    using assms(5) by (simp add: d_def ac_simps)
  ultimately show ?thesis
    by (auto simp: strncat_def scan_nul [OF assms(1)] store8_def load8_def simp flip: d_def
        simp del: of_nat_Suc split: if_splits)
qed

theorem strncat_overrun_witness:
  "strncat (write_bytes (write_bytes Map.empty 4096 [72, 0, 1]) 8192 [97, 0]) 4096 8192 9 = None"
  by (rule strncat_overrun [where s = "[72]" and t = "[97]"]) code_simp+

section \<open>Searches\<close>

lemma to_char_sint [simp]: "to_char (sint c) = c"
  by (simp add: to_char_def)

lemma strchr_cstr:
  assumes "cstr m p s"
  shows "strchr m p c = Some
    (if to_char c \<in> set s then p + of_nat (length (takeWhile (\<lambda>b. b \<noteq> to_char c) s))
     else if c = 0 then p + of_nat (length s) else NULL)"
  using assms
proof (induction s arbitrary: p)
  case Nil
  then show ?case by (subst strchr.simps) simp
next
  case (Cons b s)
  then show ?case by (subst strchr.simps) (auto simp: ac_simps)
qed

lemma length_takeWhile_mem: "x \<in> set s \<Longrightarrow> length (takeWhile (\<lambda>b. b \<noteq> x) s) < length s"
  by (induction s) auto

lemma strrchr_loop_cstr:
  assumes "cstr m p s"
  shows "strrchr_loop m p c lst = Some
    (if to_char c \<in> set s
     then p + of_nat (length s - Suc (length (takeWhile (\<lambda>b. b \<noteq> to_char c) (rev s))))
     else lst)"
  using assms
proof (induction s arbitrary: p lst)
  case Nil
  then show ?case by (subst strrchr_loop.simps) simp
next
  case (Cons b s)
  have len: "length (takeWhile (\<lambda>b. b \<noteq> to_char c) (rev s)) < length s" if "to_char c \<in> set s"
    using that length_takeWhile_mem [of "to_char c" "rev s"] by simp
  show ?case
  proof (cases "to_char c \<in> set s")
    case True
    with Cons len [OF True] show ?thesis
      by (subst strrchr_loop.simps)
        (auto simp: takeWhile_append Suc_diff_Suc of_nat_diff algebra_simps
          simp flip: of_nat_Suc)
  next
    case False
    with Cons show ?thesis
      by (subst strrchr_loop.simps) (auto simp: takeWhile_append takeWhile_eq_all_conv)
  qed
qed

lemma strrchr_cstr:
  assumes "cstr m p s"
  shows "strrchr m p c = Some
    (if to_char c \<in> set s
     then p + of_nat (length s - Suc (length (takeWhile (\<lambda>b. b \<noteq> to_char c) (rev s))))
     else NULL)"
  unfolding strrchr_def by (rule strrchr_loop_cstr [OF assms])

lemma bytes_prefix_cstr:
  assumes "cstr m h hs" "bytes_at m h bs" "length bs = length ns" "0 \<notin> set ns"
  shows "bs = ns \<longleftrightarrow> prefix ns hs"
  using assms
proof (induction ns arbitrary: h hs bs)
  case (Cons n ns)
  then obtain b bs' where "bs = b # bs'" by (cases bs) auto
  with Cons show ?case by (cases hs) auto
qed simp

lemma strstr_loop_cstr:
  assumes "cstr m h hs" "cstr m n ns" "ns \<noteq> []" "mapped m h (length hs + length ns)"
  shows "strstr_loop m h n (of_nat (length ns)) = Some
    (if \<exists>i. prefix ns (drop i hs) then h + of_nat (LEAST i. prefix ns (drop i hs)) else NULL)"
  using assms
proof (induction hs arbitrary: h)
  case Nil
  then show ?case by (subst strstr_loop.simps) simp
next
  case (Cons c hs)
  have l: "unat (of_nat (length ns) :: size_t) = length ns"
    using cstr_bounds [OF Cons.prems(2)] by (simp add: unat_of_nat_small)
  have "mapped m h (length ns)"
    using Cons.prems(4) mapped_append [of m h "length ns" "length (c # hs)"] by (simp add: add.commute)
  then obtain bs where bs: "length bs = length ns" "bytes_at m h bs" using mapped_bytes by blast
  have cmp: "builtin_memcmp m h n (of_nat (length ns)) = Some (bytes_cmp bs ns)"
    using Cons.prems(2) bs l by (intro memcmp_bytes) (auto simp: cstr_def)
  have "0 \<notin> set ns" using Cons.prems(2) by (simp add: cstr_def)
  then have pre: "bytes_cmp bs ns = 0 \<longleftrightarrow> prefix ns (c # hs)"
    using bytes_prefix_cstr [OF Cons.prems(1) bs(2,1)] bs(1) by (simp add: bytes_cmp_eq_0)
  show ?case
  proof (cases "prefix ns (c # hs)")
    case True
    then have "(LEAST i. prefix ns (drop i (c # hs))) = 0" by (intro Least_equality) auto
    moreover have "\<exists>i. prefix ns (drop i (c # hs))" using True by (intro exI [of _ 0]) simp
    ultimately show ?thesis
      using True Cons.prems(1) cmp pre by (subst strstr_loop.simps) simp
  next
    case False
    have ex: "(\<exists>i. prefix ns (drop i (c # hs))) \<longleftrightarrow> (\<exists>i. prefix ns (drop i hs))"
      using False by (metis drop0 drop_Cons' drop_Suc_Cons)
    have "(LEAST i. prefix ns (drop i (c # hs))) = Suc (LEAST i. prefix ns (drop i hs))"
      if "prefix ns (drop j hs)" for j
      using that False by (subst Least_Suc [of _ "Suc j"]) simp_all
    with False ex Cons.prems cmp pre Cons.IH [of "h + 1"] show ?thesis
      by (subst strstr_loop.simps) (auto simp: ac_simps)
  qed
qed


text \<open>
  C24.  strstr returns the first position at which the needle occurs and the null pointer
  when there is none, provided the bytes after the haystack are readable for the length of the
  needle.
\<close>

theorem strstr_correct:
  assumes "cstr m h hs" "cstr m n ns" "mapped m h (length hs + length ns)"
  shows "strstr m h n = Some
    (if \<exists>i. prefix ns (drop i hs) then h + of_nat (LEAST i. prefix ns (drop i hs)) else NULL)"
proof (cases ns)
  case Nil
  then show ?thesis using assms(2) by (simp add: strstr_def)
next
  case (Cons c cs)
  then show ?thesis
    using strstr_loop_cstr [OF assms(1,2) _ assms(3)] strlen_cstr [OF assms(2)] assms(2)
    by (simp add: strstr_def)
qed

theorem strstr_witness:
  "strstr (str_mem(8196 \<mapsto> 7)) 8192 12288 = Some
    (if \<exists>i. prefix [44] (drop i [97 :: byte, 44, 98])
     then 8192 + of_nat (LEAST i. prefix [44] (drop i [97 :: byte, 44, 98])) else NULL)"
  by (rule strstr_correct) code_simp+

text \<open>
  strstr reads past the end of the haystack: with a haystack shorter than the needle
  whose buffer ends before the needle's length, the comparison at the first position reads
  unmapped memory.
\<close>

theorem strstr_overread:
  assumes "load8 m h = Some c" "c \<noteq> 0" "cstr m n ns" "ns \<noteq> []" "\<not> mapped m h (length ns)"
  shows "strstr m h n = None"
proof -
  have l: "unat (of_nat (length ns) :: size_t) = length ns"
    using cstr_bounds [OF assms(3)] by (simp add: unat_of_nat_small)
  have "loadn m h (length ns) = None"
    using assms(5) by (metis bytes_at_mapped loadn_iff not_None_eq)
  then have "strstr_loop m h n (of_nat (length ns)) = None"
    using assms(1,2) l by (subst strstr_loop.simps) (simp add: builtin_memcmp_def)
  moreover obtain b where "load8 m n = Some b" "b \<noteq> 0"
    using assms(3,4) by (cases ns) auto
  ultimately show ?thesis by (simp add: strstr_def strlen_cstr [OF assms(3)])
qed

theorem strstr_overread_witness:
  "strstr (write_bytes (write_bytes Map.empty 4096 [97, 0]) 8192 [98, 99, 100, 0]) 4096 8192 = None"
  by (rule strstr_overread [where ns = "[98, 99, 100]" and c = 97]) code_simp+

section \<open>Tokens\<close>

lemma is_delim_cstr:
  assumes "cstr m delim ds" "c \<noteq> 0"
  shows "is_delim m delim c = Some (c \<in> set ds)"
proof -
  have "p + of_nat k \<noteq> NULL" if "cstr m p s" "k < length s" for p :: addr and s k
  proof -
    have "unat (p + of_nat k) = unat p + k"
      using cstr_bounds [OF that(1)] that(2) by (intro unat_plus_of_nat) simp
    then show ?thesis using cstr_bounds [OF that(1)] by (auto simp: word_unat_eq_iff)
  qed
  then have "delim + of_nat (length (takeWhile (\<lambda>b. b \<noteq> c) ds)) \<noteq> NULL" if "c \<in> set ds"
    using assms(1) that by (simp add: length_takeWhile_mem)
  moreover have "sint c \<noteq> 0" using assms(2) by (simp add: signed_eq_0_iff)
  ultimately show ?thesis
    using strchr_cstr [OF assms(1), of "sint c"] by (simp add: is_delim_def)
qed

lemma scan_cstr:
  assumes "cstr m p s" "P 0 = Some False" "\<And>c. c \<noteq> 0 \<Longrightarrow> P c = Some (Q c)"
  shows "scan_while P m p = Some (p + of_nat (length (takeWhile Q s)))"
  using assms(1)
proof (induction s arbitrary: p)
  case Nil
  then show ?case by (subst scan_while.simps) (simp add: assms(2))
next
  case (Cons c s)
  then show ?case by (subst scan_while.simps) (simp add: assms(3) ac_simps)
qed

lemma strtok_cut:
  assumes "cstr m tok (t @ r)" "r \<noteq> []"
  defines "q \<equiv> tok + of_nat (length t)"
  shows "cstr (m(q \<mapsto> 0)) tok t" "cstr (m(q \<mapsto> 0)) (q + 1) (tl r)" "unat q = unat tok + length t"
proof -
  obtain c r' where r: "r = c # r'" using assms(2) by (cases r) auto
  have b: "unat tok + Suc (length (t @ r)) \<le> 2 ^ 64" using cstr_bounds [OF assms(1)] by simp
  show u: "unat q = unat tok + length t"
    unfolding q_def using b r by (intro unat_plus_of_nat) simp
  have t: "0 \<notin> set t" "bytes_at m tok t" "load8 m q = Some c" "cstr m (q + 1) r'"
    using assms(1) by (auto simp: cstr_append r q_def)
  have "bytes_at (m(q \<mapsto> 0)) tok t"
    using t u by (intro bytes_at_update) (auto simp: in_range_def)
  then show "cstr (m(q \<mapsto> 0)) tok t"
    using t by (auto simp: cstr_def load8_def q_def split: if_splits)
  have "unat (q + 1) = Suc (unat q)" using b u r by (intro unat_plus_one) simp
  then show "cstr (m(q \<mapsto> 0)) (q + 1) (tl r)"
    using t(4) r by (auto intro!: cstr_update simp: in_range_def simp del: fun_upd_apply)
qed

lemma strtok_scan:
  assumes "p \<noteq> NULL" "p = (if str \<noteq> NULL then str else saved)" "cstr m p s" "cstr m delim ds"
  defines "rest \<equiv> dropWhile (\<lambda>c. c \<in> set ds) s"
  defines "tok \<equiv> p + of_nat (length s - length rest)"
  defines "q \<equiv> tok + of_nat (length (takeWhile (\<lambda>c. c \<notin> set ds) rest))"
  shows "cstr m tok rest" "strtok m saved str delim = Some
    (if rest = [] then (NULL, tok, m)
     else if dropWhile (\<lambda>c. c \<notin> set ds) rest = [] then (tok, q, m)
     else (tok, q + 1, m(q \<mapsto> 0)))"
proof -
  let ?skip = "takeWhile (\<lambda>c. c \<in> set ds) s" and ?t = "takeWhile (\<lambda>c. c \<notin> set ds) rest"
    and ?r = "dropWhile (\<lambda>c. c \<notin> set ds) rest"
  have s: "s = ?skip @ rest" by (simp add: rest_def)
  then have "length s = length ?skip + length rest" by (metis length_append)
  then have tok_eq: "tok = p + of_nat (length ?skip)" by (simp add: tok_def)
  have skip: "scan_while (\<lambda>c. if c \<noteq> 0 then is_delim m delim c else Some False) m p = Some tok"
    unfolding tok_eq by (rule scan_cstr [OF assms(3)]) (simp_all add: is_delim_cstr [OF assms(4)])
  show tok: "cstr m tok rest"
    using assms(3) cstr_append [of m p ?skip rest] unfolding tok_eq s [symmetric] by blast
  have scan: "scan_while (\<lambda>c. if c \<noteq> 0 then map_option Not (is_delim m delim c)
      else Some False) m tok = Some q"
    unfolding q_def by (rule scan_cstr [OF tok]) (simp_all add: is_delim_cstr [OF assms(4)])
  have "cstr m q ?r"
    using tok cstr_append [of m tok ?t ?r] unfolding q_def by simp
  then show "strtok m saved str delim = Some
    (if rest = [] then (NULL, tok, m)
     else if ?r = [] then (tok, q, m) else (tok, q + 1, m(q \<mapsto> 0)))"
    using assms(1,2) skip scan tok
    by (cases rest; cases ?r) (simp_all add: strtok_def Let_def store8_mapped)
qed

text \<open>
  C25.  strtok skips leading delimiters, returns the address of the next token, terminates the
  token in place, and remembers where the rest of the string starts, so that the next call with a
  null pointer goes on with it; it returns the null pointer when only delimiters are left.
\<close>

theorem strtok_correct:
  assumes "p \<noteq> NULL" "p = (if str \<noteq> NULL then str else saved)" "cstr m p s" "cstr m delim ds"
    "sep p (Suc (length s)) delim (Suc (length ds))"
  defines "rest \<equiv> dropWhile (\<lambda>c. c \<in> set ds) s"
  shows "\<exists>tok saved' m'. strtok m saved str delim = Some (if rest = [] then NULL else tok, saved', m') \<and>
      tok = p + of_nat (length s - length rest) \<and> tok \<noteq> NULL \<and>
      cstr m' tok (takeWhile (\<lambda>c. c \<notin> set ds) rest) \<and>
      cstr m' saved' (tl (dropWhile (\<lambda>c. c \<notin> set ds) rest)) \<and>
      cstr m' delim ds \<and> same_except m m' p (Suc (length s))"
proof -
  let ?t = "takeWhile (\<lambda>c. c \<notin> set ds) rest" and ?r = "dropWhile (\<lambda>c. c \<notin> set ds) rest"
  define tok where "tok = p + of_nat (length s - length rest)"
  define q where "q = tok + of_nat (length ?t)"
  note scan = strtok_scan [OF assms(1-4), folded rest_def, folded tok_def, folded q_def]
  have tok: "cstr m tok (?t @ ?r)" using scan(1) by simp
  have b: "0 < unat p" "unat p + Suc (length s) \<le> 2 ^ 64"
    using cstr_bounds [OF assms(3)] by simp_all
  then have u: "unat tok = unat p + (length s - length rest)"
    unfolding tok_def by (intro unat_plus_of_nat) simp
  then have nn: "tok \<noteq> NULL" using b by (auto simp: word_unat_eq_iff)
  show ?thesis
  proof (cases "?r = []")
    case True
    then have t: "?t = rest" by (metis append_Nil2 takeWhile_dropWhile_id)
    have "cstr m tok ?t" unfolding t by (rule scan(1))
    moreover have "cstr m q ?r" using tok unfolding cstr_append q_def by blast
    then have "cstr m q (tl ?r)" unfolding True by simp
    moreover have "strtok m saved str delim = Some (if rest = [] then NULL else tok, q, m)"
      using scan(2) True by (cases "rest = []") (simp_all add: q_def)
    ultimately show ?thesis
      using tok_def nn assms(4) same_except_refl by blast
  next
    case False
    then have ne: "rest \<noteq> []" by auto
    note cut = strtok_cut [OF tok False, folded q_def]
    have "length rest \<le> length s" by (simp add: rest_def length_dropWhile_le)
    moreover have "length rest = length ?t + length ?r"
      by (metis length_append takeWhile_dropWhile_id)
    moreover have "0 < length ?r" using False by (simp only: length_greater_0_conv not_False_eq_True)
    ultimately have "in_range q p (length s)"
      unfolding in_range_def using u cut(3) by linarith
    then have "cstr (m(q \<mapsto> 0)) delim ds" "same_except m (m(q \<mapsto> 0)) p (Suc (length s))"
      using cstr_update [OF assms(4), of q 0] assms(5)
      by (auto simp: in_range_def sep_def same_except_def)
    then show ?thesis
      using scan(2) cut(1,2) False ne nn tok_def by auto
  qed
qed

theorem strtok_witness:
  "\<exists>tok saved' m'. strtok str_mem 0 8192 12288 = Some (tok, saved', m') \<and>
     cstr m' tok [97] \<and> cstr m' saved' [98]"
proof -
  have "(8192 :: addr) \<noteq> NULL" "(8192 :: addr) = (if (8192 :: addr) \<noteq> NULL then 8192 else 0)"
    "cstr str_mem 8192 [97, 44, 98]" "cstr str_mem 12288 [44]"
    "sep 8192 (Suc (length [97 :: byte, 44, 98])) 12288 (Suc (length [44 :: byte]))"
    by code_simp+
  from strtok_correct [OF this] show ?thesis by auto
qed

section \<open>Character classes\<close>

lemma ctype_partition:
  "(isprint c \<noteq> 0 \<longleftrightarrow> isalnum c \<noteq> 0 \<or> ispunct c \<noteq> 0 \<or> c = 32) \<and>
   (isalnum c \<noteq> 0 \<longrightarrow> ispunct c = 0)"
  by (auto simp: ctype_defs)

lemma case_conversion:
  "tolower (toupper c) = tolower c \<and> toupper (tolower c) = toupper c \<and>
   (isalpha c \<noteq> 0 \<longrightarrow> isupper (toupper c) \<noteq> 0 \<and> islower (tolower c) \<noteq> 0) \<and>
   (isalpha c = 0 \<longrightarrow> toupper c = c \<and> tolower c = c)"
  by (auto simp: ctype_defs)

end
