(* ===== verification/Heap.thy ===== *)
theory Heap
  imports Syscalls CString
begin

text \<open>
  The allocator of \<^verbatim>\<open>apps/doom/innigkeit_libc.c\<close>: a 64 MiB arena mapped on first use, cut from
  the front, with a direct mapping for what no longer fits; \<^verbatim>\<open>free\<close> does nothing.  Every block
  has its total size in the eight bytes before it.  The record \<open>heap\<close> adds the static variables
  of the allocator to the machine.

  \<open>live s\<close> is the set of bytes in use: everything mapped except the part of the arena not
  handed out yet.  The contract of the locale \<open>allocator\<close>, which \<open>malloc\<close> is shown to meet, is
  that a block is fresh, zeroed and disjoint from all live bytes, and that no live byte changes.
\<close>

record heap = machine +
  heap_base :: addr
  heap_used :: size_t
  heap_cap :: size_t

section \<open>The operations\<close>

definition ALIGN_UP :: "size_t \<Rightarrow> size_t \<Rightarrow> size_t" where
  "ALIGN_UP x a = (x + a - 1) AND NOT (a - 1)"

definition HEAP_SIZE :: size_t where
  "HEAP_SIZE = 64 * 1024 * 1024"

definition PAGE_SIZE :: size_t where
  "PAGE_SIZE = 4096"

definition heap_init :: "'s heap_scheme \<Rightarrow> 's heap_scheme option" where
  "heap_init s =
     (if heap_base s \<noteq> NULL then Some s
      else do { (p, s) \<leftarrow> innigkeit_mmap s HEAP_SIZE;
                Some (s\<lparr>heap_base := p, heap_cap := (if p \<noteq> NULL then HEAP_SIZE else 0), heap_used := 0\<rparr>) })"

text \<open>\<^verbatim>\<open>sizeof(size_t)\<close> is 8.\<close>

definition malloc_mmap :: "'s heap_scheme \<Rightarrow> size_t \<Rightarrow> (addr \<times> 's heap_scheme) option" where
  "malloc_mmap s sz =
     (let pages = ALIGN_UP (sz + 8) PAGE_SIZE in
      do { (p, s) \<leftarrow> innigkeit_mmap s pages;
           if p = NULL then Some (NULL, s)
           else do { m \<leftarrow> store64 (mem s) p pages; Some (p + 8, s\<lparr>mem := m\<rparr>) } })"

definition malloc_arena :: "'s heap_scheme \<Rightarrow> size_t \<Rightarrow> (addr \<times> 's heap_scheme) option" where
  "malloc_arena s sz =
     (let p = heap_base s + heap_used s in
      do { m \<leftarrow> store64 (mem s) p sz;
           Some (p + 8, s\<lparr>mem := m, heap_used := heap_used s + sz\<rparr>) })"

definition malloc :: "'s heap_scheme \<Rightarrow> size_t \<Rightarrow> (addr \<times> 's heap_scheme) option" where
  "malloc s n =
     do { s \<leftarrow> heap_init s;
          let sz = ALIGN_UP (n + 8) 16 in
          if heap_used s + sz > heap_cap s then malloc_mmap s sz else malloc_arena s sz }"

definition free :: "'s heap_scheme \<Rightarrow> addr \<Rightarrow> 's heap_scheme" where
  "free s ptr = s"

definition calloc :: "'s heap_scheme \<Rightarrow> size_t \<Rightarrow> size_t \<Rightarrow> (addr \<times> 's heap_scheme) option" where
  "calloc s nmemb n = malloc s (nmemb * n)"

definition realloc :: "'s heap_scheme \<Rightarrow> addr \<Rightarrow> size_t \<Rightarrow> (addr \<times> 's heap_scheme) option" where
  "realloc s old_ptr new_size =
     do { (p, s) \<leftarrow> malloc s new_size;
          if old_ptr \<noteq> NULL \<and> p \<noteq> NULL
          then do { old_size \<leftarrow> load64 (mem s) (old_ptr - 8);
                    let copy = (if old_size < new_size then old_size else new_size);
                    m \<leftarrow> builtin_memcpy (mem s) p old_ptr copy;
                    Some (p, s\<lparr>mem := m\<rparr>) }
          else Some (p, s) }"

definition strdup :: "'s heap_scheme \<Rightarrow> addr \<Rightarrow> (addr \<times> 's heap_scheme) option" where
  "strdup s str =
     do { l \<leftarrow> strlen (mem s) str;
          let n = l + 1;
          (p, s) \<leftarrow> malloc s n;
          if p \<noteq> NULL
          then do { m \<leftarrow> builtin_memcpy (mem s) p str n; Some (p, s\<lparr>mem := m\<rparr>) }
          else Some (p, s) }"

definition strndup :: "'s heap_scheme \<Rightarrow> addr \<Rightarrow> size_t \<Rightarrow> (addr \<times> 's heap_scheme) option" where
  "strndup s str n =
     do { l \<leftarrow> strlen (mem s) str;
          let len = (if l > n then n else l);
          (p, s) \<leftarrow> malloc s (len + 1);
          if p \<noteq> NULL
          then do { m \<leftarrow> builtin_memcpy (mem s) p str len;
                    m \<leftarrow> store8 m (p + len) 0;
                    Some (p, s\<lparr>mem := m\<rparr>) }
          else Some (p, s) }"

section \<open>The invariant\<close>

text \<open>The part of the arena that is not handed out yet, and the bytes in use.\<close>

definition arena_free :: "'s heap_scheme \<Rightarrow> addr \<Rightarrow> bool" where
  "arena_free s a \<longleftrightarrow>
     in_range a (heap_base s + heap_used s) (unat (heap_cap s) - unat (heap_used s))"

definition live :: "'s heap_scheme \<Rightarrow> addr \<Rightarrow> bool" where
  "live s a \<longleftrightarrow> mem s a \<noteq> None \<and> \<not> arena_free s a"

definition heap_inv :: "'s heap_scheme \<Rightarrow> bool" where
  "heap_inv s \<longleftrightarrow> vm_ok (vm_map s) \<and>
     (if heap_base s = NULL then heap_cap s = 0 \<and> heap_used s = 0
      else heap_cap s = HEAP_SIZE \<and> heap_used s \<le> heap_cap s \<and>
           unat (heap_base s) mod 16 = 0 \<and> unat (heap_used s) mod 16 = 0 \<and>
           user_base \<le> unat (heap_base s) \<and> unat (heap_base s) + unat HEAP_SIZE \<le> user_end \<and>
           mapped (mem s) (heap_base s) (unat HEAP_SIZE) \<and>
           (\<forall>a. arena_free s a \<longrightarrow> mem s a = Some 0))"

section \<open>Sizes\<close>

lemma ALIGN_UP_unat:
  assumes "k < 64" "unat x + (2 ^ k - 1) < 2 ^ 64"
  shows "unat (ALIGN_UP x (2 ^ k)) = (unat x + (2 ^ k - 1)) div 2 ^ k * 2 ^ k"
proof -
  have "unat (2 ^ k - 1 :: u64) = 2 ^ k - 1"
    using assms(1) by (simp add: unat_power2 unat_minus_one)
  then have "unat (x + (2 ^ k - 1)) = unat x + (2 ^ k - 1)"
    using assms(2) by (simp add: unat_plus_nowrap)
  moreover have "ALIGN_UP x (2 ^ k) = (x + (2 ^ k - 1)) AND NOT (mask k)"
    by (simp add: ALIGN_UP_def mask_eq_exp_minus_1 add_diff_eq)
  ultimately show ?thesis using assms(1) by (simp add: unat_and_not_mask)
qed

lemma ALIGN_UP_16: "unat x + 15 < 2 ^ 64 \<Longrightarrow> unat (ALIGN_UP x 16) = (unat x + 15) div 16 * 16"
  using ALIGN_UP_unat [of 4 x] by simp

lemma ALIGN_UP_page:
  "unat x + 4095 < 2 ^ 64 \<Longrightarrow> unat (ALIGN_UP x PAGE_SIZE) = (unat x + 4095) div 4096 * 4096"
  using ALIGN_UP_unat [of 12 x] by (simp add: PAGE_SIZE_def)

lemma HEAP_SIZE_unat: "unat HEAP_SIZE = 67108864" "HEAP_SIZE \<noteq> 0"
  by (simp_all add: HEAP_SIZE_def)

lemma block_size:
  assumes "unat n < 2 ^ 62"
  defines "sz \<equiv> ALIGN_UP (n + 8) 16"
  shows "unat n + 8 \<le> unat sz" "unat sz mod 16 = 0" "16 \<le> unat sz" "unat sz < 2 ^ 63"
proof -
  have "unat sz = (unat n + 23) div 16 * 16"
    using assms by (subst sz_def, subst ALIGN_UP_16) (simp_all add: unat_plus_nowrap)
  with assms(1) show "unat n + 8 \<le> unat sz" "unat sz mod 16 = 0" "16 \<le> unat sz" "unat sz < 2 ^ 63"
    by simp_all
qed

section \<open>What an allocation gives\<close>

text \<open>
  A block of \<open>k\<close> bytes in all, header included, whose payload starts at \<open>p\<close>: it was not in use,
  it is zeroed, its header holds its size, and nothing that was in use has changed.
\<close>

definition new_block :: "'s heap_scheme \<Rightarrow> addr \<Rightarrow> nat \<Rightarrow> 's heap_scheme \<Rightarrow> bool" where
  "new_block s p k s' \<longleftrightarrow> heap_inv s' \<and> p \<noteq> NULL \<and> unat p mod 16 = 8 \<and> 16 \<le> k \<and>
     unat p + k < user_end + 16 \<and> load64 (mem s') (p - 8) = Some (of_nat k) \<and>
     bytes_at (mem s') p (replicate (k - 8) 0) \<and>
     (\<forall>a. in_range a (p - 8) k \<longrightarrow> \<not> live s a) \<and>
     (\<forall>a. live s' a \<longleftrightarrow> live s a \<or> in_range a (p - 8) k) \<and>
     (\<forall>a. live s a \<longrightarrow> mem s' a = mem s a) \<and> (\<forall>a. mem s a \<noteq> None \<longrightarrow> mem s' a \<noteq> None)"

text \<open>A step that keeps what is in use.\<close>

definition keeps_live :: "'s heap_scheme \<Rightarrow> 's heap_scheme \<Rightarrow> bool" where
  "keeps_live s s' \<longleftrightarrow> heap_inv s' \<and> (\<forall>a. live s' a \<longleftrightarrow> live s a) \<and>
     (\<forall>a. live s a \<longrightarrow> mem s' a = mem s a) \<and> (\<forall>a. mem s a \<noteq> None \<longrightarrow> mem s' a \<noteq> None)"

lemma keeps_live_refl: "heap_inv s \<Longrightarrow> keeps_live s s"
  by (simp add: keeps_live_def)

lemma new_block_keeps: "keeps_live s s1 \<Longrightarrow> new_block s1 p k s' \<Longrightarrow> new_block s p k s'"
  by (simp add: keeps_live_def new_block_def)

lemma heap_init_keeps:
  assumes "heap_inv s"
  shows "\<exists>s'. heap_init s = Some s' \<and> keeps_live s s'"
proof (cases "heap_base s = NULL")
  case False
  then show ?thesis using assms by (simp add: heap_init_def keeps_live_refl)
next
  case True
  then have i: "vm_ok (vm_map s)" "heap_cap s = 0" "heap_used s = 0" using assms by (auto simp: heap_inv_def)
  show ?thesis
  proof (cases rule: innigkeit_mmap_cases [OF i(1), where n = HEAP_SIZE, case_names fail ok])
    case fail
    then show ?thesis
      using True assms i by (simp add: heap_init_def keeps_live_def heap_inv_def live_def arena_free_def)
  next
    case (ok a)
    let ?s = "s\<lparr>mem := map_zero (mem s) a 67108864, heap_base := a, heap_cap := HEAP_SIZE, heap_used := 0\<rparr>"
    have a: "a \<noteq> NULL" using ok(4) by (auto simp: user_base_def)
    have k: "(unat HEAP_SIZE + 4095) div 4096 * 4096 = 67108864" by (simp add: HEAP_SIZE_unat)
    have "heap_init s = Some ?s" using ok True a by (simp add: heap_init_def HEAP_SIZE_unat)
    moreover have "mapped (map_zero (mem s) a 67108864) a 67108864"
      using ok by (intro mappedI) (auto simp: map_zero_def HEAP_SIZE_unat user_base_def user_end_def)
    then have "keeps_live s ?s"
      using ok i True a
      by (auto simp: keeps_live_def heap_inv_def live_def arena_free_def map_zero_def HEAP_SIZE_unat in_range_def)
    ultimately show ?thesis by blast
  qed
qed

text \<open>Storing the header of a zeroed block.\<close>

lemma header_block:
  fixes w :: u64
  assumes "0 < unat b" "unat b + k \<le> 2 ^ 64" "8 \<le> k" "\<And>a. in_range a b k \<Longrightarrow> m a = Some 0"
  defines "m' \<equiv> write_bytes m b (le_bytes 8 w)"
  shows "store64 m b w = Some m'" "load64 m' b = Some w" "bytes_at m' (b + 8) (replicate (k - 8) 0)"
    "\<And>a. in_range a b 8 \<Longrightarrow> m' a \<noteq> None" "\<And>a. \<not> in_range a b 8 \<Longrightarrow> m' a = m a"
proof -
  have "mapped m b 8" using assms(1-4) by (intro mappedI) (auto simp: in_range_def)
  then show "store64 m b w = Some m'" by (simp add: store64_mapped m'_def)
  have "bytes_at m' b (le_bytes 8 w)"
    unfolding m'_def using assms(1-3) by (intro write_bytes_at) simp_all
  then show "load64 m' b = Some w" by (simp add: load64_bytes_at le_word64)
  show other: "m' a = m a" if "\<not> in_range a b 8" for a
    unfolding m'_def using that assms(1-3) by (intro write_bytes_other) simp_all
  show "m' a \<noteq> None" if "in_range a b 8" for a
    unfolding m'_def using that assms(3,4) by (intro write_bytes_dom) (auto simp: in_range_def)
  show "bytes_at m' (b + 8) (replicate (k - 8) 0)"
  proof (rule bytes_atI)
    fix i assume i: "i < length (replicate (k - 8) (0 :: byte))"
    then have u: "unat (b + 8 + of_nat i) = unat b + (8 + i)"
      using assms(2) unat_plus_of_nat [of b "8 + i"] by (simp add: add.assoc)
    then have "m' (b + 8 + of_nat i) = Some 0"
      using i assms(2,4) other by (auto simp: in_range_def)
    moreover have "b + 8 + of_nat i \<noteq> 0" using u by (metis unat_0 add_is_0 zero_neq_numeral)
    ultimately show "load8 m' (b + 8 + of_nat i) = Some (replicate (k - 8) 0 ! i)"
      using i by (simp add: load8_def)
  qed
qed

text \<open>
  A region that is not in use becomes a new block when its size is stored at its start: it was
  zeroed, nothing outside it changed, and it no longer belongs to the free part of the arena.
\<close>

lemma header_new_block:
  assumes inv: "heap_inv s'" and b: "0 < unat b" "unat b + k \<le> user_end" "unat b mod 16 = 0" "16 \<le> k"
    and m': "mem s' = write_bytes m b (le_bytes 8 (of_nat k :: u64))"
    and z: "\<And>a. in_range a b k \<Longrightarrow> m a = Some 0"
    and other: "\<And>a. \<not> in_range a b k \<Longrightarrow> m a = mem s a"
    and new: "\<And>a. in_range a b k \<Longrightarrow> \<not> live s a"
    and free: "\<And>a. arena_free s' a \<longleftrightarrow> arena_free s a \<and> \<not> in_range a b k"
  shows "new_block s (b + 8) k s'"
proof -
  have u64: "unat b + k \<le> 2 ^ 64" "8 \<le> k" using b(2,4) by (simp_all add: user_end_def)
  note hb = header_block [where w = "of_nat k" and m = m, OF b(1) u64 z, folded m']
  have u8: "unat (b + 8) = unat b + 8" using b(2,4) unat_plus_nowrap [of b 8] by (simp add: user_end_def)
  have out: "mem s' a = mem s a" if "\<not> in_range a b k" for a
    using that other [OF that] hb(5) [of a] u64(2) by (auto simp: in_range_def)
  have dom: "mem s' a \<noteq> None" if "in_range a b k" for a
    unfolding m' by (rule write_bytes_dom) (simp add: z [OF that])
  have "live s' a \<longleftrightarrow> live s a \<or> in_range a b k" for a
    using out [of a] dom [of a] free [of a] by (cases "in_range a b k") (simp_all add: live_def)
  moreover have "mem s' a = mem s a" if "live s a" for a using that new out by blast
  moreover have "mem s' a \<noteq> None" if "mem s a \<noteq> None" for a using that out dom by metis
  moreover have "b + 8 \<noteq> NULL" using u8 by (metis unat_0 add_is_0 zero_neq_numeral)
  moreover have "unat (b + 8) mod 16 = 8" using u8 b(3) by presburger
  ultimately show ?thesis using inv b(2,4) u8 hb(2,3) new by (simp add: new_block_def)
qed

lemma malloc_arena_new:
  assumes "heap_inv s" "heap_base s \<noteq> NULL" "unat (heap_used s) + unat sz \<le> unat (heap_cap s)"
    "unat sz mod 16 = 0" "16 \<le> unat sz"
  shows "\<exists>s'. malloc_arena s sz = Some (heap_base s + heap_used s + 8, s') \<and>
    new_block s (heap_base s + heap_used s + 8) (unat sz) s'"
proof -
  define b where "b = heap_base s + heap_used s"
  have i: "heap_cap s = HEAP_SIZE" "unat (heap_base s) mod 16 = 0" "unat (heap_used s) mod 16 = 0"
    "user_base \<le> unat (heap_base s)" "unat (heap_base s) + 67108864 \<le> user_end"
    "mapped (mem s) (heap_base s) 67108864" "\<And>a. arena_free s a \<Longrightarrow> mem s a = Some 0" "vm_ok (vm_map s)"
    using assms(1,2) by (auto simp: heap_inv_def HEAP_SIZE_unat split: if_splits)
  have b: "unat b = unat (heap_base s) + unat (heap_used s)"
    using i assms(3) by (auto simp: b_def HEAP_SIZE_unat user_end_def intro!: unat_plus_nowrap)
  have bnd: "0 < unat b" "unat b + unat sz \<le> user_end" "unat b mod 16 = 0"
    using i b assms(3,5) by (auto simp: user_base_def HEAP_SIZE_unat mod_add_eq [symmetric])
  then have u64: "unat b + unat sz \<le> 2 ^ 64" "8 \<le> unat sz" using assms(5) by (simp_all add: user_end_def)
  have fr: "arena_free s a" if "in_range a b (unat sz)" for a
    using that assms(3) by (auto simp: arena_free_def b_def [symmetric] in_range_def)
  note hb = header_block [where b = b and k = "unat sz" and m = "mem s" and w = sz, OF bnd(1) u64 i(7) [OF fr]]
  define m' where "m' = write_bytes (mem s) b (le_bytes 8 sz)"
  define s' where "s' = s\<lparr>mem := m', heap_used := heap_used s + sz\<rparr>"
  have used: "unat (heap_used s + sz) = unat (heap_used s) + unat sz"
    using assms(3) i(1) by (intro unat_plus_nowrap) (simp add: HEAP_SIZE_unat)
  have b': "unat (heap_base s + (heap_used s + sz)) = unat b + unat sz"
    using bnd(2) unat_plus_nowrap [of b sz] by (simp add: b_def user_end_def add.assoc)
  have free: "arena_free s' a \<longleftrightarrow> arena_free s a \<and> \<not> in_range a b (unat sz)" for a
    using assms(3) used b' by (auto simp: arena_free_def s'_def b_def [symmetric] in_range_def)
  have "m' a = mem s a" if "arena_free s' a" for a
    using that free hb(5) [of a] u64 by (auto simp: m'_def in_range_def)
  moreover have "m' a \<noteq> None" if "mem s a \<noteq> None" for a using that unfolding m'_def by (rule write_bytes_dom)
  ultimately have "heap_inv s'"
    using assms(2,3,4) i used free mapped_mono [OF i(6), of m']
    by (auto simp: heap_inv_def s'_def HEAP_SIZE_unat word_le_nat_alt)
  then have "new_block s (b + 8) (unat sz) s'"
    using bnd assms(5) i(7) fr free by (intro header_new_block [where m = "mem s"]) (auto simp: s'_def m'_def live_def)
  moreover have "malloc_arena s sz = Some (b + 8, s')"
    using hb(1) by (simp add: malloc_arena_def b_def [symmetric] m'_def s'_def)
  ultimately show ?thesis unfolding b_def by blast
qed

lemma malloc_mmap_new:
  assumes "heap_inv s" "unat sz < 2 ^ 63"
  shows "malloc_mmap s sz = Some (NULL, s) \<or>
    (\<exists>p k s'. malloc_mmap s sz = Some (p, s') \<and> new_block s p k s' \<and> unat sz + 8 \<le> k)"
proof -
  define pages where "pages = ALIGN_UP (sz + 8) PAGE_SIZE"
  have v: "vm_ok (vm_map s)" using assms(1) by (simp add: heap_inv_def)
  have sz8: "unat (sz + 8) = unat sz + 8"
    using assms(2) unat_plus_nowrap [of sz 8] by simp
  have pg: "unat pages = (unat sz + 8 + 4095) div 4096 * 4096"
    using sz8 assms(2) ALIGN_UP_page [of "sz + 8"] by (simp add: pages_def)
  then have k: "(unat pages + 4095) div 4096 * 4096 = unat pages" "unat sz + 8 \<le> unat pages" "unat pages mod 4096 = 0"
    by simp_all
  show ?thesis
  proof (cases rule: innigkeit_mmap_cases [OF v, where n = pages, case_names fail ok])
    case fail
    then show ?thesis by (simp add: malloc_mmap_def pages_def)
  next
    case (ok b)
    note ok = ok [unfolded k(1)]
    define m where "m = map_zero (mem s) b (unat pages)"
    define s' where "s' = s\<lparr>mem := write_bytes m b (le_bytes 8 pages)\<rparr>"
    have bnd: "0 < unat b" "unat b + unat pages \<le> 2 ^ 64" "8 \<le> unat pages" "unat b mod 16 = 0" "16 \<le> unat pages"
      using ok(4-6) k(2,3) mod_mod_cancel [of 16 4096 "unat b"] dvd_imp_le [of 4096 "unat pages"]
      by (auto simp: user_base_def user_end_def)
    have z: "m a = Some 0" if "in_range a b (unat pages)" for a using that by (simp add: m_def map_zero_def)
    note hb = header_block [where b = b and k = "unat pages" and m = m and w = pages, OF bnd(1-3) z]
    have nf: "\<not> arena_free s a" if "in_range a b (unat pages)" for a
      using that ok(7) [of a] assms(1)
      by (auto simp: heap_inv_def arena_free_def in_range_def split: if_splits)
    have "mem s' a = mem s a" if "mem s a \<noteq> None" for a
    proof -
      have "\<not> in_range a b (unat pages)" using that ok(7) [of a] by auto
      then show ?thesis using hb(5) [of a] bnd(3) by (auto simp: s'_def m_def map_zero_def in_range_def)
    qed
    then have inv: "heap_inv s'"
      using assms(1) mapped_mono [of "mem s" "heap_base s" "unat HEAP_SIZE" "mem s'"]
      by (auto simp: heap_inv_def arena_free_def s'_def split: if_splits)
    have "new_block s (b + 8) (unat pages) s'"
      using inv bnd(1,4,5) ok(5,7) z nf
      by (intro header_new_block [where m = m]) (auto simp: s'_def m_def map_zero_def live_def arena_free_def)
    moreover have "malloc_mmap s sz = Some (b + 8, s')"
      using ok(1) hb(1) bnd(1) by (auto simp: malloc_mmap_def pages_def [symmetric] m_def s'_def)
    ultimately show ?thesis using k(2) by blast
  qed
qed

text \<open>
  An allocation of less than \<open>2^62\<close> bytes returns; it returns a new block that holds the bytes
  asked for, or the null pointer and keeps what is in use.
\<close>

lemma malloc_new:
  assumes "heap_inv s" "unat n < 2 ^ 62"
  shows "(\<exists>s'. malloc s n = Some (NULL, s') \<and> keeps_live s s') \<or>
    (\<exists>p k s'. malloc s n = Some (p, s') \<and> new_block s p k s' \<and> unat n + 8 \<le> k)"
proof -
  define sz where "sz = ALIGN_UP (n + 8) 16"
  note sz = block_size [OF assms(2), folded sz_def]
  obtain s1 where s1: "heap_init s = Some s1" "keeps_live s s1" using heap_init_keeps [OF assms(1)] by blast
  then have inv: "heap_inv s1" by (simp add: keeps_live_def)
  then have cap: "unat (heap_used s1) \<le> unat (heap_cap s1)" "unat (heap_cap s1) \<le> 67108864"
    by (auto simp: heap_inv_def HEAP_SIZE_unat word_le_nat_alt split: if_splits)
  then have add: "unat (heap_used s1 + sz) = unat (heap_used s1) + unat sz"
    using sz(4) by (intro unat_plus_nowrap) simp
  show ?thesis
  proof (cases "heap_used s1 + sz > heap_cap s1")
    case True
    then have eq: "malloc s n = malloc_mmap s1 sz" using s1(1) by (simp add: malloc_def sz_def Let_def)
    from malloc_mmap_new [OF inv sz(4)] show ?thesis
    proof (elim disjE exE conjE)
      fix p k s' assume "malloc_mmap s1 sz = Some (p, s')" "new_block s1 p k s'" "unat sz + 8 \<le> k"
      then show ?thesis using eq new_block_keeps [OF s1(2)] sz(1) by (intro disjI2 exI [of _ p] exI [of _ k]) auto
    qed (use eq s1(2) in auto)
  next
    case False
    then have "malloc s n = malloc_arena s1 sz" using s1(1) by (simp add: malloc_def sz_def Let_def)
    moreover have fits: "unat (heap_used s1) + unat sz \<le> unat (heap_cap s1)"
      using False add by (simp add: word_less_nat_alt)
    moreover have "heap_base s1 \<noteq> NULL" using inv fits sz(3) by (auto simp: heap_inv_def split: if_splits)
    ultimately show ?thesis
      using malloc_arena_new [OF inv _ fits sz(2,3)] new_block_keeps [OF s1(2)] sz(1)
      by (intro disjI2 exI [of _ "heap_base s1 + heap_used s1 + 8"] exI [of _ "unat sz"]) auto
  qed
qed

section \<open>The contract of an allocator\<close>

lemma sep_disjoint:
  "(\<And>a. \<not> (in_range a p n \<and> in_range a q n)) \<Longrightarrow> sep p n q n"
proof (rule ccontr)
  assume h: "\<And>a. \<not> (in_range a p n \<and> in_range a q n)" and n: "\<not> sep p n q n"
  from n have "in_range (if unat p \<le> unat q then q else p) p n \<and>
      in_range (if unat p \<le> unat q then q else p) q n"
    by (auto simp: sep_def in_range_def)
  with h show False by blast
qed

text \<open>Blocks that are in use and pairwise disjoint.\<close>

definition blocks_ok :: "(addr \<Rightarrow> bool) \<Rightarrow> (addr \<times> size_t) list \<Rightarrow> bool" where
  "blocks_ok lv bs \<longleftrightarrow> (\<forall>(p, n) \<in> set bs. \<forall>a. in_range a p (unat n) \<longrightarrow> lv a) \<and>
     sorted_wrt (\<lambda>(p, n) (q, k). \<forall>a. \<not> (in_range a p (unat n) \<and> in_range a q (unat k))) bs"

locale allocator =
  fixes alloc :: "'s \<Rightarrow> size_t \<Rightarrow> (addr \<times> 's) option"
    and lives :: "'s \<Rightarrow> addr \<Rightarrow> bool"
    and content :: "'s \<Rightarrow> mem"
    and invar :: "'s \<Rightarrow> bool"
    and limit :: nat
  assumes alloc_returns: "invar s \<Longrightarrow> unat n < limit \<Longrightarrow> \<exists>p s'. alloc s n = Some (p, s')"
    and alloc_invar: "invar s \<Longrightarrow> unat n < limit \<Longrightarrow> alloc s n = Some (p, s') \<Longrightarrow> invar s'"
    and alloc_keeps: "invar s \<Longrightarrow> unat n < limit \<Longrightarrow> alloc s n = Some (p, s') \<Longrightarrow> lives s a \<Longrightarrow>
      lives s' a \<and> content s' a = content s a"
    and alloc_fresh: "invar s \<Longrightarrow> unat n < limit \<Longrightarrow> alloc s n = Some (p, s') \<Longrightarrow> p \<noteq> NULL \<Longrightarrow>
      in_range a p (unat n) \<Longrightarrow> \<not> lives s a \<and> lives s' a"
    and alloc_zero: "invar s \<Longrightarrow> unat n < limit \<Longrightarrow> alloc s n = Some (p, s') \<Longrightarrow> p \<noteq> NULL \<Longrightarrow>
      bytes_at (content s') p (replicate (unat n) 0)"
begin

lemma alloc_blocks:
  assumes "invar s" "unat n < limit" "alloc s n = Some (p, s')" "blocks_ok (lives s) bs"
  shows "blocks_ok (lives s') (if p = NULL then bs else (p, n) # bs)"
proof -
  have old: "lives s a" if "(q, k) \<in> set bs" "in_range a q (unat k)" for q k a
    using that assms(4) by (auto simp: blocks_ok_def)
  then have "\<not> in_range a p (unat n)" if "(q, k) \<in> set bs" "in_range a q (unat k)" "p \<noteq> NULL" for q k a
    using that alloc_fresh [OF assms(1-3)] by blast
  with old show ?thesis
    using assms(4) alloc_keeps [OF assms(1-3)] alloc_fresh [OF assms(1-3)]
    by (auto simp: blocks_ok_def)
qed

lemma alloc_mapped:
  assumes "invar s" "unat n < limit" "alloc s n = Some (p, s')" "p \<noteq> NULL"
  shows "mapped (content s') p (unat n)"
  using bytes_at_mapped [OF alloc_zero [OF assms]] by simp

text \<open>Bytes in use survive an allocation, and can be copied into the new block.\<close>

lemma alloc_bytes:
  assumes "invar s" "unat n < limit" "alloc s n = Some (p, s')" "bytes_at (content s) q xs"
    "\<And>a. in_range a q (length xs) \<Longrightarrow> lives s a"
  shows "bytes_at (content s') q xs"
  by (rule bytes_at_cong [OF assms(4)]) (use alloc_keeps [OF assms(1-3) assms(5)] in simp)

lemma alloc_copy:
  assumes "invar s" "unat n < limit" "alloc s n = Some (p, s')" "p \<noteq> NULL" "bytes_at (content s) q xs"
    "\<And>a. in_range a q (length xs) \<Longrightarrow> lives s a" "unat k = length xs" "length xs \<le> unat n"
  shows "builtin_memcpy (content s') p q k = Some (write_bytes (content s') p xs)"
proof -
  have "sep p (length xs) q (length xs)"
  proof (rule sep_disjoint)
    fix a
    have "in_range a p (length xs) \<Longrightarrow> in_range a p (unat n)" using assms(8) by (simp add: in_range_def)
    then show "\<not> (in_range a p (length xs) \<and> in_range a q (length xs))"
      using alloc_fresh [OF assms(1-4)] assms(6) by blast
  qed
  moreover have "mapped (content s') p (length xs)"
    using alloc_mapped [OF assms(1-4)] assms(8) by (rule mapped_less)
  ultimately show ?thesis
    using alloc_bytes [OF assms(1-3,5,6)] assms(7)
    by (simp add: builtin_memcpy_def builtin_memmove_def loadn_bytes_at storen_eq)
qed

end

lemma new_block_payload:
  assumes "new_block s p k s'" "unat n + 8 \<le> k"
  shows "bytes_at (mem s') p (replicate (unat n) 0)" "in_range a p (unat n) \<Longrightarrow> in_range a (p - 8) k"
proof -
  have "bytes_at (mem s') p (replicate (unat n) 0 @ replicate (k - 8 - unat n) 0)"
    using assms by (simp add: new_block_def replicate_add [symmetric])
  then show "bytes_at (mem s') p (replicate (unat n) 0)" by simp
  have "unat p mod 16 = 8" using assms(1) by (simp add: new_block_def)
  then have "8 \<le> unat p" by presburger
  then have "unat (p - 8) = unat p - 8" by (simp add: unat_sub word_le_nat_alt)
  then show "in_range a p (unat n) \<Longrightarrow> in_range a (p - 8) k"
    using assms(2) \<open>8 \<le> unat p\<close> by (auto simp: in_range_def)
qed

interpretation hp: allocator malloc live mem heap_inv "2 ^ 62"
proof unfold_locales
  fix s s' :: "'a heap_scheme" and n :: size_t and p a :: addr
  assume s: "heap_inv s" and n: "unat n < 2 ^ 62"
  show "\<exists>p s'. malloc s n = Some (p, s')" using malloc_new [OF s n] by blast
  assume m: "malloc s n = Some (p, s')"
  then have c: "(p = NULL \<and> keeps_live s s') \<or> (\<exists>k. new_block s p k s' \<and> unat n + 8 \<le> k)"
    using malloc_new [OF s n] by auto
  then show "heap_inv s'" by (auto simp: keeps_live_def new_block_def)
  show "live s a \<Longrightarrow> live s' a \<and> mem s' a = mem s a"
    using c by (auto simp: keeps_live_def new_block_def)
  assume "p \<noteq> NULL"
  with c obtain k where k: "new_block s p k s'" "unat n + 8 \<le> k" by blast
  show "bytes_at (mem s') p (replicate (unat n) 0)" by (rule new_block_payload [OF k])
  show "in_range a p (unat n) \<Longrightarrow> \<not> live s a \<and> live s' a"
    using new_block_payload(2) [OF k] k(1) by (auto simp: new_block_def)
qed

section \<open>Programs that allocate and write\<close>

text \<open>
  The states a client reaches by allocating, freeing, and writing inside the blocks it was given,
  with those blocks.
\<close>

inductive heap_reach :: "'s heap_scheme \<Rightarrow> (addr \<times> size_t) list \<Rightarrow> bool" where
  hr_start: "vm_ok (vm_map s) \<Longrightarrow> heap_base s = NULL \<Longrightarrow> heap_used s = 0 \<Longrightarrow> heap_cap s = 0 \<Longrightarrow> heap_reach s []"
| hr_alloc: "heap_reach s bs \<Longrightarrow> unat n < 2 ^ 62 \<Longrightarrow> malloc s n = Some (p, s') \<Longrightarrow>
    heap_reach s' (if p = NULL then bs else (p, n) # bs)"
| hr_free: "heap_reach s bs \<Longrightarrow> heap_reach (free s p) bs"
| hr_write: "heap_reach s bs \<Longrightarrow> (p, n) \<in> set bs \<Longrightarrow> in_range a p (unat n) \<Longrightarrow> store8 (mem s) a v = Some m \<Longrightarrow>
    heap_reach (s\<lparr>mem := m\<rparr>) bs"

lemma heap_inv_poke:
  assumes "heap_inv s" "live s a" "store8 (mem s) a v = Some m"
  shows "heap_inv (s\<lparr>mem := m\<rparr>)" "live (s\<lparr>mem := m\<rparr>) = live s"
proof -
  have m: "m = (mem s)(a \<mapsto> v)" "\<And>x. (m x = None) = (mem s x = None)"
    using assms(3) by (auto simp: store8_def split: if_splits)
  have fr: "arena_free (s\<lparr>mem := m\<rparr>) x \<longleftrightarrow> arena_free s x" for x by (simp add: arena_free_def)
  have "mapped m (heap_base s) (unat HEAP_SIZE)" if "mapped (mem s) (heap_base s) (unat HEAP_SIZE)"
    by (rule mapped_mono [OF that]) (simp add: m(2))
  moreover have "m x = mem s x" if "arena_free s x" for x using that assms(2) m(1) by (auto simp: live_def)
  ultimately show "heap_inv (s\<lparr>mem := m\<rparr>)"
    using assms(1) fr by (auto simp: heap_inv_def split: if_splits)
  show "live (s\<lparr>mem := m\<rparr>) = live s" using fr m(2) by (simp add: live_def fun_eq_iff)
qed

lemma heap_reach_invariant:
  "heap_reach s bs \<Longrightarrow> heap_inv s \<and> blocks_ok (live s) bs \<and> (\<forall>(p, n) \<in> set bs. p \<noteq> NULL)"
proof (induction rule: heap_reach.induct)
  case (hr_start s)
  then show ?case by (simp add: heap_inv_def blocks_ok_def)
next
  case (hr_alloc s bs n p s')
  then show ?case using hp.alloc_blocks [of s n p s' bs] hp.alloc_invar [of s n p s'] by auto
next
  case (hr_free s bs p)
  then show ?case by (simp add: free_def)
next
  case (hr_write s bs p n a v m)
  then have "live s a" by (auto simp: blocks_ok_def)
  then show ?case using hr_write heap_inv_poke [of s a v m] by auto
qed


text \<open>
  C11.  malloc of less than 2^62 bytes always returns: a block that was not in use, holds the bytes
  asked for, is zeroed and has its total size in front; or the null pointer.  In both cases no
  byte in use changes.  Blocks start 8 bytes after a multiple of 16.
\<close>

theorem malloc_contract:
  assumes "heap_inv s" "unat n < 2 ^ 62"
  shows "\<exists>p s'. malloc s n = Some (p, s') \<and>
    (if p = NULL then keeps_live s s' else \<exists>k. unat n + 8 \<le> k \<and> new_block s p k s')"
  using malloc_new [OF assms]
proof (elim disjE exE conjE)
  fix p k s' assume "malloc s n = Some (p, s')" "new_block s p k s'" "unat n + 8 \<le> k"
  moreover from this(2) have "p \<noteq> NULL" by (simp add: new_block_def)
  ultimately show ?thesis by (intro exI [of _ p] exI [of _ s']) auto
qed auto

text \<open>
  malloc of the largest size wraps around: the request for SIZE_MAX bytes is served from the
  arena with a block of 16 bytes in all, eight of them usable.
\<close>

theorem malloc_size_wraps:
  assumes "heap_inv s" "heap_base s \<noteq> NULL" "unat (heap_used s) + 16 \<le> unat (heap_cap s)"
  shows "\<exists>s'. malloc s (- 1) = Some (heap_base s + heap_used s + 8, s') \<and>
    new_block s (heap_base s + heap_used s + 8) 16 s'"
proof -
  have "ALIGN_UP (- 1 + 8) 16 = 16" by (simp add: ALIGN_UP_def)
  moreover have "\<not> heap_used s + 16 > heap_cap s"
    using assms(3) unat_bound [of "heap_cap s"] unat_plus_nowrap [of "heap_used s" 16]
    by (cases "unat (heap_used s) + 16 < 2 ^ 64") (auto simp: word_less_nat_alt)
  ultimately have "malloc s (- 1) = malloc_arena s 16"
    using assms(2) by (simp add: malloc_def heap_init_def Let_def)
  then show ?thesis using malloc_arena_new [OF assms(1,2), of 16] assms(3) by simp
qed


section \<open>Growing and copying\<close>

lemma new_block_start: "new_block s p k s' \<Longrightarrow> unat (p - 8) = unat p - 8 \<and> 8 \<le> unat p"
proof -
  assume "new_block s p k s'"
  then have "unat p mod 16 = 8" by (simp add: new_block_def)
  then have "8 \<le> unat p" by presburger
  then show ?thesis by (simp add: unat_sub word_le_nat_alt)
qed

lemma arena_used_live:
  assumes "heap_inv s" "heap_base s \<noteq> NULL" "unat (heap_base s) \<le> unat a"
    "unat a < unat (heap_base s) + unat (heap_used s)"
  shows "live s a"
proof -
  have i: "heap_used s \<le> HEAP_SIZE" "mapped (mem s) (heap_base s) (unat HEAP_SIZE)"
    "unat (heap_base s) + unat HEAP_SIZE \<le> user_end"
    using assms(1,2) by (auto simp: heap_inv_def split: if_splits)
  then have "in_range a (heap_base s) (unat HEAP_SIZE)"
    using assms(3,4) by (simp add: in_range_def word_le_nat_alt)
  then have "mem s a \<noteq> None"
    using mapped_range [OF i(2), of a] by (auto simp: load8_def split: if_splits)
  moreover have "unat (heap_base s + heap_used s) = unat (heap_base s) + unat (heap_used s)"
    using i(1,3) by (intro unat_plus_nowrap) (simp add: word_le_nat_alt user_end_def)
  ultimately show ?thesis using assms(4) by (simp add: live_def arena_free_def in_range_def)
qed

text \<open>
  The copy of a block that lies in the used part of the arena, and the eight bytes behind it,
  do not meet a new block's payload.
\<close>

lemma arena_copy_sep:
  assumes "heap_inv s" "new_block s p k s'" "l + 8 \<le> k" "heap_base s \<noteq> NULL"
    "unat (heap_base s) < unat q" "unat q < unat (heap_base s) + unat (heap_used s)"
    "unat q + l \<le> unat (heap_base s) + unat (heap_used s) + 8"
  shows "sep p l q l"
proof (rule ccontr)
  assume ns: "\<not> sep p l q l"
  note p8 = new_block_start [OF assms(2)]
  define c where "c = (if unat (p - 8) \<le> unat (heap_base s) then heap_base s else p - 8)"
  have "in_range c (p - 8) k" "unat (heap_base s) \<le> unat c"
    "unat c < unat (heap_base s) + unat (heap_used s)"
    using ns p8 assms(3,5-7) by (auto simp: sep_def in_range_def c_def)
  then have "in_range c (p - 8) k \<and> live s c" using arena_used_live [OF assms(1,4)] by blast
  then show False using assms(2) by (auto simp: new_block_def)
qed

lemma heap_arena_bytes:
  assumes "heap_inv s" "heap_base s \<noteq> NULL" "unat (heap_base s) < unat q" "unat (heap_used s) < unat (heap_cap s)"
    "unat q + l \<le> unat (heap_base s) + unat (heap_used s) + 8"
  shows "mapped (mem s) q l"
proof -
  have i: "heap_cap s = HEAP_SIZE" "unat (heap_used s) mod 16 = 0" "mapped (mem s) (heap_base s) (unat HEAP_SIZE)"
    using assms(1,2) by (auto simp: heap_inv_def split: if_splits)
  have "unat (heap_used s) + 16 \<le> 67108864"
    using i(1,2) assms(4) by (auto simp: HEAP_SIZE_unat elim!: dvdE)
  then show ?thesis
    using assms(3,5) by (intro mapped_sub [OF i(3)]) (simp_all add: HEAP_SIZE_unat)
qed

lemma realloc_block:
  assumes "heap_inv s" "heap_base s \<noteq> NULL" "unat (heap_used s) < unat (heap_cap s)"
    "load64 (mem s) (old - 8) = Some (of_nat k)" "16 \<le> k" "bytes_at (mem s) old xs" "length xs = k - 8"
    "unat (heap_base s) + 8 \<le> unat old" "unat old + k \<le> unat (heap_base s) + unat (heap_used s) + 8"
    "malloc s n = Some (p, s1)" "new_block s p k' s1" "unat n + 8 \<le> k'"
  shows "\<exists>m'. realloc s old n = Some (p, s1\<lparr>mem := m'\<rparr>) \<and> bytes_at m' p (take (unat n) xs) \<and>
    (\<forall>a. live s a \<longrightarrow> m' a = mem s a)"
proof -
  have old: "unat (old - 8) = unat old - 8" "old \<noteq> NULL"
    using assms(8) by (auto simp: unat_sub word_le_nat_alt)
  have nb: "p \<noteq> NULL" "\<And>a. live s a \<Longrightarrow> mem s1 a = mem s a" "\<And>a. mem s a \<noteq> None \<Longrightarrow> mem s1 a \<noteq> None"
    using assms(11) by (auto simp: new_block_def)
  have lv: "mem s1 a = mem s a" if "in_range a (old - 8) k" for a
    using that nb(2) arena_used_live [OF assms(1,2)] assms(8,9) old by (auto simp: in_range_def)
  have k: "unat (of_nat k :: size_t) = k"
    using assms(1,2,9) unat_bound [of "heap_base s"] by (intro unat_of_nat_small) (auto simp: heap_inv_def user_end_def HEAP_SIZE_unat word_le_nat_alt split: if_splits)
  define c where "c = (if of_nat k < n then of_nat k else n)"
  have c: "unat c = min k (unat n)" using k by (auto simp: c_def word_less_nat_alt)
  have "load64 (mem s1) (old - 8) = Some (of_nat k)"
    using assms(4) by (rule load64_cong) (use assms(5) in \<open>auto intro!: lv simp: in_range_def\<close>)
  moreover have "bytes_at (mem s1) old xs"
    using assms(6) by (rule bytes_at_cong) (use assms(7) old in \<open>auto intro!: lv simp: in_range_def\<close>)
  moreover have "mapped (mem s) old (unat c)"
    using assms(1-3,8,9) c by (intro heap_arena_bytes) auto
  then have "mapped (mem s1) old (unat c)" by (rule mapped_mono) (rule nb(3))
  moreover have "sep p (unat c) old (unat c)"
    using assms(1,2,5,8,9,12) c by (intro arena_copy_sep [OF assms(1,11)]) auto
  moreover have "mapped (mem s1) p (unat n)"
    using bytes_at_mapped [OF new_block_payload(1) [OF assms(11,12)]] by simp
  moreover have "take (min (k - 8) (unat n)) xs = take (unat n) xs" "min (k - 8) (unat n) \<le> min k (unat n)"
    using assms(7) by (auto simp: min_def)
  ultimately obtain m' where m': "builtin_memcpy (mem s1) p old c = Some m'"
      "bytes_at m' p (take (unat n) xs)" "same_except (mem s1) m' p (unat c)"
    using copy_into_block [of "mem s1" p "unat n" old "unat c" c xs "take (unat n) xs"] c assms(7) by auto
  have "m' a = mem s a" if "live s a" for a
  proof -
    have "\<not> in_range a p (unat n)"
      using new_block_payload(2) [OF assms(11,12)] that assms(11) by (auto simp: new_block_def)
    then show ?thesis using m'(3) nb(2) [OF that] c by (auto simp: same_except_def in_range_def)
  qed
  with m' show ?thesis
    using assms(10) nb(1) old(2) \<open>load64 (mem s1) (old - 8) = _\<close>
    by (auto simp: realloc_def c_def [symmetric] Let_def)
qed

text \<open>
  C21.  realloc of a block inside the arena keeps its contents: the new block starts with the bytes
  of the old one, up to the new size, and nothing in use is changed.  The copy also reads the
  eight bytes behind the old block, which are mapped as long as the arena is not used up.
\<close>

theorem realloc_keeps:
  assumes "heap_inv s" "heap_base s \<noteq> NULL" "unat (heap_used s) < unat (heap_cap s)"
    "load64 (mem s) (old - 8) = Some (of_nat k)" "16 \<le> k" "bytes_at (mem s) old xs" "length xs = k - 8"
    "unat (heap_base s) + 8 \<le> unat old" "unat old + k \<le> unat (heap_base s) + unat (heap_used s) + 8"
    "unat n < 2 ^ 62"
  shows "\<exists>p s'. realloc s old n = Some (p, s') \<and> (\<forall>a. live s a \<longrightarrow> mem s' a = mem s a) \<and>
    (p \<noteq> NULL \<longrightarrow> bytes_at (mem s') p (take (unat n) xs) \<and> (\<forall>a. in_range a p (unat n) \<longrightarrow> \<not> live s a))"
  using malloc_new [OF assms(1,10)]
proof (elim disjE exE conjE)
  fix s1 assume "malloc s n = Some (NULL, s1)" "keeps_live s s1"
  then show ?thesis by (simp add: realloc_def keeps_live_def)
next
  fix p k' s1 assume m: "malloc s n = Some (p, s1)" "new_block s p k' s1" "unat n + 8 \<le> k'"
  moreover have "\<not> live s a" if "in_range a p (unat n)" for a
    using new_block_payload(2) [OF m(2,3) that] m(2) by (auto simp: new_block_def)
  ultimately show ?thesis using realloc_block [OF assms(1-9) m] by fastforce
qed

lemma malloc_arena_dom: "malloc_arena s sz = Some (p, s') \<Longrightarrow> (mem s' a = None) = (mem s a = None)"
proof -
  assume "malloc_arena s sz = Some (p, s')"
  then obtain m where m: "store64 (mem s) (heap_base s + heap_used s) sz = Some m" "mem s' = m"
    by (auto simp: malloc_arena_def Let_def bind_Some_iff)
  then have "mapped (mem s) (heap_base s + heap_used s) 8" "m = write_bytes (mem s) (heap_base s + heap_used s) (le_bytes 8 sz)"
    by (auto simp: store64_def storen_eq split: if_splits)
  then show ?thesis
    using m(2) mapped_write_dom [of "mem s" "heap_base s + heap_used s" "le_bytes 8 sz" a] by simp
qed

lemma malloc_uses_arena:
  assumes "heap_inv s" "heap_base s \<noteq> NULL" "unat (heap_used s) + unat n + 24 \<le> unat (heap_cap s)"
  defines "sz \<equiv> ALIGN_UP (n + 8) 16"
  shows "malloc s n = malloc_arena s sz" "unat n + 8 \<le> unat sz"
    "\<exists>s'. malloc_arena s sz = Some (heap_base s + heap_used s + 8, s') \<and>
      new_block s (heap_base s + heap_used s + 8) (unat sz) s'"
proof -
  have cap: "unat (heap_cap s) = 67108864" using assms(1,2) by (auto simp: heap_inv_def HEAP_SIZE_unat split: if_splits)
  then have n: "unat n < 2 ^ 62" using assms(3) by simp
  note sz = block_size [OF n, folded sz_def]
  have u: "unat sz = (unat n + 23) div 16 * 16"
    using n by (subst sz_def, subst ALIGN_UP_16) (simp_all add: unat_plus_nowrap)
  have fits: "unat (heap_used s) + unat sz \<le> unat (heap_cap s)"
    using assms(3) u div_times_less_eq_dividend [of "unat n + 23" 16] by linarith
  then have "\<not> heap_used s + sz > heap_cap s"
    using cap by (simp add: word_less_nat_alt unat_plus_nowrap)
  then show "malloc s n = malloc_arena s sz"
    using assms(2) by (simp add: malloc_def heap_init_def sz_def Let_def)
  show "unat n + 8 \<le> unat sz" by (rule sz(1))
  show "\<exists>s'. malloc_arena s sz = Some (heap_base s + heap_used s + 8, s') \<and>
      new_block s (heap_base s + heap_used s + 8) (unat sz) s'"
    by (rule malloc_arena_new [OF assms(1,2) fits sz(2,3)])
qed

lemma memcpy_unmapped: "\<not> mapped m q (unat c) \<Longrightarrow> builtin_memcpy m p q c = None"
proof -
  assume "\<not> mapped m q (unat c)"
  then have "loadn m q (unat c) = None" by (cases "loadn m q (unat c)") (auto simp: loadn_iff dest: bytes_at_mapped)
  then show ?thesis by (simp add: builtin_memcpy_def builtin_memmove_def)
qed

text \<open>
  realloc reads past the end of a block: growing a block that ends where the mapped memory
  ends copies eight bytes too many, since the size in the header counts the header.  This is
  the situation of a block that malloc mapped directly, whose total size is whole pages.
\<close>

theorem realloc_overread:
  assumes "heap_inv s" "heap_base s \<noteq> NULL" "unat (heap_used s) + unat n + 24 \<le> unat (heap_cap s)"
    "\<And>a. in_range a (old - 8) k \<Longrightarrow> live s a" "8 \<le> unat old" "unat old + k \<le> user_end"
    "load64 (mem s) (old - 8) = Some (of_nat k)" "16 \<le> k" "k \<le> unat n" "mem s (old - 8 + of_nat k) = None"
  shows "realloc s old n = None"
proof -
  define sz where "sz = ALIGN_UP (n + 8) 16"
  note ar = malloc_uses_arena [OF assms(1-3), folded sz_def]
  obtain p s1 where m: "malloc s n = Some (p, s1)" "new_block s p (unat sz) s1" "malloc_arena s sz = Some (p, s1)"
    using ar by auto
  have nb: "p \<noteq> NULL" "\<And>a. live s a \<Longrightarrow> mem s1 a = mem s a" using m(2) by (auto simp: new_block_def)
  have old: "unat (old - 8) = unat old - 8" "old \<noteq> NULL" using assms(5) by (auto simp: unat_sub word_le_nat_alt)
  have k: "unat (of_nat k :: size_t) = k" using assms(6) by (intro unat_of_nat_small) (simp add: user_end_def)
  define c where "c = (if of_nat k < n then of_nat k else n)"
  have c: "unat c = k" using k assms(9) by (auto simp: c_def word_less_nat_alt)
  have "load64 (mem s1) (old - 8) = Some (of_nat k)"
    using assms(7) by (rule load64_cong) (use assms(4,8) nb(2) in \<open>auto simp: in_range_def\<close>)
  moreover have "mem s1 (old - 8 + of_nat k) = None" using malloc_arena_dom [OF m(3)] assms(10) by simp
  then have "\<not> mapped (mem s1) old (unat c)"
  proof -
    have "unat (old - 8 + of_nat k) = unat old - 8 + k"
      using unat_plus_of_nat [of "old - 8" k] assms(5,6) old(1) by (simp add: user_end_def)
    then have "in_range (old - 8 + of_nat k) old (unat c)" using assms(5,8) c by (simp add: in_range_def)
    with \<open>mem s1 _ = None\<close> show ?thesis using mapped_range by (fastforce simp: load8_def split: if_splits)
  qed
  ultimately show ?thesis
    using m(1) nb(1) old(2) by (simp add: realloc_def c_def [symmetric] Let_def memcpy_unmapped)
qed

lemma unat_length_small: "n < 2 ^ 62 \<Longrightarrow> unat (of_nat n :: size_t) = n"
  by (simp add: unat_of_nat_small)

text \<open>
  C23.  strdup returns the null pointer or a fresh copy of the string; the string itself and all
  other bytes in use are unchanged.
\<close>

theorem strdup_copies:
  assumes "heap_inv s" "cstr (mem s) q str" "length str + 1 < 2 ^ 62"
    "\<And>a. in_range a q (Suc (length str)) \<Longrightarrow> live s a"
  shows "\<exists>p s'. strdup s q = Some (p, s') \<and> (\<forall>a. live s a \<longrightarrow> mem s' a = mem s a) \<and>
    (p \<noteq> NULL \<longrightarrow> cstr (mem s') p str \<and> (\<forall>a. in_range a p (Suc (length str)) \<longrightarrow> \<not> live s a))"
proof -
  define n :: size_t where "n = of_nat (length str) + 1"
  have n: "unat n = Suc (length str)"
    using unat_length_small [OF assms(3)] by (simp add: n_def add.commute)
  then have lim: "unat n < 2 ^ 62" using assms(3) by simp
  obtain p s1 where m: "malloc s n = Some (p, s1)" using hp.alloc_returns [OF assms(1) lim] by blast
  note keeps = hp.alloc_keeps [OF assms(1) lim m]
  show ?thesis
  proof (cases "p = NULL")
    case True
    then show ?thesis using m keeps strlen_cstr [OF assms(2)] by (auto simp: strdup_def n_def [symmetric] Let_def)
  next
    case False
    have b: "bytes_at (mem s) q (str @ [0])" "0 \<notin> set str" using assms(2) by (auto simp: cstr_def)
    have cp: "builtin_memcpy (mem s1) p q n = Some (write_bytes (mem s1) p (str @ [0]))"
      using n assms(4) by (intro hp.alloc_copy [OF assms(1) lim m False b(1)]) auto
    have mp: "0 < unat p" "unat p + length (str @ [0]) \<le> 2 ^ 64"
      using mapped_bounds [OF hp.alloc_mapped [OF assms(1) lim m False]] n by auto
    have "cstr (write_bytes (mem s1) p (str @ [0])) p str"
      using write_bytes_at [OF mp] b(2) by (simp add: cstr_def)
    moreover have fresh: "\<not> live s a" if "in_range a p (Suc (length str))" for a
      using hp.alloc_fresh [OF assms(1) lim m False] n that by auto
    moreover have "write_bytes (mem s1) p (str @ [0]) a = mem s a" if "live s a" for a
      using that fresh [of a] keeps [of a] write_bytes_other [OF mp(2), of a "mem s1"]
      by (cases "in_range a p (Suc (length str))") simp_all
    ultimately show ?thesis
      using m False cp strlen_cstr [OF assms(2)] by (auto simp: strdup_def n_def [symmetric] Let_def)
  qed
qed

section \<open>A concrete heap\<close>

definition boot_heap :: heap where
  "boot_heap = machine.extend boot_machine (heap.fields 0 0 0)"

text \<open>A heap with one block of 16 bytes in the arena and one page mapped directly.\<close>

definition arena_mem :: mem where
  "arena_mem = write_bytes (map_zero (write_bytes (map_zero Map.empty 0x10000000000 67108864)
     0x10000000000 (le_bytes 8 (16 :: u64))) 0x20000000000 4096) 0x20000000000 (le_bytes 8 (4096 :: u64))"

definition arena_heap :: heap where
  "arena_heap = boot_heap\<lparr>mem := arena_mem, heap_base := 0x10000000000, heap_used := 16, heap_cap := HEAP_SIZE\<rparr>"

lemma boot_heap_inv: "heap_inv (boot_heap\<lparr>mem := m\<rparr>)" "live (boot_heap\<lparr>mem := m\<rparr>) a \<longleftrightarrow> m a \<noteq> None"
  by (simp_all add: heap_inv_def boot_heap_def machine.defs heap.defs boot_machine_def two_place_vm_ok live_def arena_free_def in_range_def)

lemma arena_mem_eq:
  "arena_mem a =
     (if in_range a 0x20000000000 8 then arena_mem a
      else if in_range a 0x20000000000 4096 then Some 0
      else if in_range a 0x10000000000 8 then arena_mem a
      else if in_range a 0x10000000000 67108864 then Some 0 else None)"
  using write_bytes_other [where p = "0x20000000000" and bs = "le_bytes 8 (4096 :: u64)" and a = a]
    write_bytes_other [where p = "0x10000000000" and bs = "le_bytes 8 (16 :: u64)" and a = a]
  by (simp add: arena_mem_def map_zero_def)

lemma arena_mem_dom:
  "in_range a 0x20000000000 4096 \<or> in_range a 0x10000000000 67108864 \<Longrightarrow> arena_mem a \<noteq> None"
  using write_bytes_dom [of "map_zero Map.empty 0x10000000000 67108864" a "0x10000000000" "le_bytes 8 (16 :: u64)"]
  unfolding arena_mem_def by (intro write_bytes_dom) (auto simp: map_zero_def)

lemma arena_heap_simps [simp]:
  "mem arena_heap = arena_mem" "heap_base arena_heap = 0x10000000000" "heap_used arena_heap = 16"
  "heap_cap arena_heap = HEAP_SIZE" "vm_map arena_heap = two_place_vm"
  by (simp_all add: arena_heap_def boot_heap_def machine.defs heap.defs boot_machine_def)

lemma arena_heap_live:
  "live arena_heap a \<longleftrightarrow> in_range a 0x10000000000 16 \<or> in_range a 0x20000000000 4096"
proof -
  have "arena_free arena_heap a \<longleftrightarrow> in_range a 0x10000000010 67108848"
    by (simp add: arena_free_def HEAP_SIZE_unat)
  then show ?thesis
    using arena_mem_eq [of a] arena_mem_dom [of a] by (auto simp: live_def in_range_def split: if_splits)
qed

lemma arena_heap_inv: "heap_inv arena_heap"
proof -
  have "arena_mem a = Some 0" if "arena_free arena_heap a" for a
    using that arena_mem_eq [of a] by (auto simp: arena_free_def HEAP_SIZE_unat in_range_def split: if_splits)
  moreover have "mapped arena_mem 0x10000000000 67108864"
    by (intro mappedI arena_mem_dom) auto
  ultimately show ?thesis
    by (simp add: heap_inv_def two_place_vm_ok HEAP_SIZE_unat user_base_def user_end_def word_le_nat_alt)
qed

lemma arena_heap_headers:
  "load64 arena_mem 0x10000000000 = Some 16" "load64 arena_mem 0x20000000000 = Some 4096"
  "bytes_at arena_mem 0x10000000008 (replicate 8 0)"
proof -
  let ?m0 = "map_zero Map.empty 0x10000000000 67108864"
  let ?m1 = "write_bytes ?m0 0x10000000000 (le_bytes 8 (16 :: u64))"
  note h1 = header_block [where b = "0x10000000000 :: addr" and k = 16 and m = ?m0 and w = 16, simplified]
  note h2 = header_block [where b = "0x20000000000 :: addr" and k = 4096 and m = "map_zero ?m1 0x20000000000 4096"
      and w = 4096, simplified]
  have same: "arena_mem a = ?m1 a" if "in_range a 0x10000000000 16" for a
    using that write_bytes_other [where p = "0x20000000000" and bs = "le_bytes 8 (4096 :: u64)" and a = a]
    by (simp add: arena_mem_def map_zero_def in_range_def)
  have "load64 ?m1 0x10000000000 = Some 16" by (rule h1(2)) (simp add: map_zero_def in_range_def)
  then show "load64 arena_mem 0x10000000000 = Some 16" by (rule load64_cong) (auto intro!: same simp: in_range_def)
  have "bytes_at ?m1 0x10000000008 (replicate 8 0)" by (rule h1(3)) (simp add: map_zero_def in_range_def)
  then show "bytes_at arena_mem 0x10000000008 (replicate 8 0)"
    by (rule bytes_at_cong) (auto intro!: same simp: in_range_def)
  show "load64 arena_mem 0x20000000000 = Some 4096"
    unfolding arena_mem_def by (rule h2(2)) (simp add: map_zero_def)
qed

lemma boot_heap_mmap:
  "innigkeit_mmap boot_heap HEAP_SIZE =
     Some (0x10000000000, boot_heap\<lparr>mem := map_zero Map.empty 0x10000000000 67108864\<rparr>)"
  by (simp add: innigkeit_mmap_def sys_mmap_def boot_heap_def machine.defs heap.defs boot_machine_def
      HEAP_SIZE_def alignForward_def two_place_vm_def range_free_empty wire_def decode_def)

definition first_block_heap :: heap where
  "first_block_heap = boot_heap\<lparr>mem := write_bytes (map_zero Map.empty 0x10000000000 67108864)
     0x10000000000 (le_bytes 8 (16 :: u64)), heap_base := 0x10000000000, heap_used := 16, heap_cap := HEAP_SIZE\<rparr>"

lemma boot_malloc: "malloc boot_heap 8 = Some (0x10000000008, first_block_heap)"
proof -
  let ?m = "map_zero Map.empty 0x10000000000 67108864"
  have "store64 ?m 0x10000000000 16 = Some (write_bytes ?m 0x10000000000 (le_bytes 8 (16 :: u64)))"
    by (rule header_block(1) [where k = 16]) (auto simp: map_zero_def in_range_def)
  moreover have "heap_base boot_heap = NULL" by (simp add: boot_heap_def machine.defs heap.defs)
  moreover have "ALIGN_UP 16 16 = 16" by (simp add: ALIGN_UP_def)
  ultimately show ?thesis
    by (simp add: malloc_def heap_init_def boot_heap_mmap malloc_arena_def first_block_heap_def
      HEAP_SIZE_unat word_less_nat_alt)
qed


theorem malloc_contract_witness:
  "\<exists>p s'. malloc arena_heap 100 = Some (p, s') \<and>
    (if p = NULL then keeps_live arena_heap s' else \<exists>k. unat (100 :: size_t) + 8 \<le> k \<and> new_block arena_heap p k s')"
  by (rule malloc_contract) (simp_all add: arena_heap_inv)

theorem malloc_size_wraps_witness:
  "\<exists>s'. malloc arena_heap (- 1) = Some (0x10000000018, s') \<and> new_block arena_heap 0x10000000018 16 s'"
  using malloc_size_wraps [OF arena_heap_inv] by (simp add: HEAP_SIZE_unat)


theorem realloc_keeps_witness:
  "\<exists>p s'. realloc arena_heap 0x10000000008 100 = Some (p, s') \<and>
    (\<forall>a. live arena_heap a \<longrightarrow> mem s' a = mem arena_heap a) \<and>
    (p \<noteq> NULL \<longrightarrow> bytes_at (mem s') p (take (unat (100 :: size_t)) (replicate 8 0)) \<and>
      (\<forall>a. in_range a p (unat (100 :: size_t)) \<longrightarrow> \<not> live arena_heap a))"
  using arena_heap_headers
  by (intro realloc_keeps [where k = 16]) (simp_all add: arena_heap_inv HEAP_SIZE_unat)

theorem realloc_overread_witness: "realloc arena_heap 0x20000000008 5000 = None"
proof (rule realloc_overread [where k = 4096])
  show "mem arena_heap (0x20000000008 - 8 + of_nat 4096) = None"
    using arena_mem_eq [of "0x20000001000"] by (simp add: in_range_def)
qed (simp_all add: arena_heap_inv HEAP_SIZE_unat arena_heap_live arena_heap_headers user_end_def)

theorem strdup_copies_witness:
  "\<exists>p s'. strdup (boot_heap\<lparr>mem := str_mem\<rparr>) 4096 = Some (p, s') \<and>
    (p \<noteq> NULL \<longrightarrow> cstr (mem s') p [72, 105])"
proof -
  have c: "cstr str_mem 4096 [72, 105]" by code_simp
  have "str_mem a \<noteq> None" if "in_range a 4096 (Suc (Suc (Suc 0)))" for a
    using mapped_range [OF bytes_at_mapped [of str_mem 4096 "[72, 105, 0]"], of a] that c
    by (auto simp: cstr_def load8_def split: if_splits)
  then show ?thesis
    using strdup_copies [OF boot_heap_inv(1), of str_mem 4096 "[72, 105]"] c
    by (auto simp: boot_heap_inv(2))
qed

end
