(* ===== verification/Format.thy ===== *)
theory Format
  imports CString
begin

text \<open>
  The formatted output and string comparison of \<^verbatim>\<open>apps/doom/libc.zig\<close>, which the C runtime and
  doomgeneric link against: \<^verbatim>\<open>vsnprintf\<close> with its writer, conversion parser and integer
  formatting, and \<^verbatim>\<open>strncmp\<close>, \<^verbatim>\<open>strcmp\<close>, \<^verbatim>\<open>strncasecmp\<close> and \<^verbatim>\<open>strcasecmp\<close>.

  A variable argument list is the list of its 64-bit slots.  A conversion yields pieces of
  output: literal bytes, or bytes of a string argument that are read as they are written, so
  that a buffer overlapping an argument behaves as in the source.  Arithmetic that the source
  checks (\<^verbatim>\<open>@intCast\<close>, negation, array bounds) gives \<^const>\<open>None\<close> where it fails.
\<close>

section \<open>The writer\<close>

record Writer =
  w_mem :: mem
  w_buf :: addr
  w_cap :: nat
  w_len :: nat

definition putByte :: "byte \<Rightarrow> Writer \<Rightarrow> Writer option" where
  "putByte c w =
     (if w_len w < w_cap w
      then do { m \<leftarrow> store8 (w_mem w) (w_buf w + of_nat (w_len w)) c;
                Some (w\<lparr>w_mem := m, w_len := w_len w + 1\<rparr>) }
      else Some (w\<lparr>w_len := w_len w + 1\<rparr>))"

fun putStr :: "byte list \<Rightarrow> Writer \<Rightarrow> Writer option" where
  "putStr [] w = Some w"
| "putStr (c # s) w = do { w \<leftarrow> putByte c w; putStr s w }"

text \<open>\<^verbatim>\<open>putStr\<close> of a slice of memory: each byte is loaded when it is written.\<close>

fun putMem :: "addr \<Rightarrow> nat \<Rightarrow> Writer \<Rightarrow> Writer option" where
  "putMem p 0 w = Some w"
| "putMem p (Suc n) w = do { c \<leftarrow> load8 (w_mem w) p; w \<leftarrow> putByte c w; putMem (p + 1) n w }"

datatype piece = Lit "byte list" | Slice addr nat

fun emit :: "piece list \<Rightarrow> Writer \<Rightarrow> Writer option" where
  "emit [] w = Some w"
| "emit (Lit s # ps) w = do { w \<leftarrow> putStr s w; emit ps w }"
| "emit (Slice p n # ps) w = do { w \<leftarrow> putMem p n w; emit ps w }"

section \<open>Variable arguments\<close>

type_synonym va_list = "u64 list"

definition va_slot :: "va_list \<Rightarrow> (u64 \<times> va_list) option" where
  "va_slot args = (case args of [] \<Rightarrow> None | x # xs \<Rightarrow> Some (x, xs))"

definition va_int :: "va_list \<Rightarrow> (int \<times> va_list) option" where
  "va_int args = do { (x, args) \<leftarrow> va_slot args; Some (sint (ucast x :: u32), args) }"

text \<open>\<^verbatim>\<open>c_int\<close> or, with a length modifier, \<^verbatim>\<open>c_long\<close> or \<^verbatim>\<open>c_longlong\<close>; and the unsigned types.\<close>

definition va_signed :: "nat \<Rightarrow> va_list \<Rightarrow> (int \<times> va_list) option" where
  "va_signed longness args =
     (if longness = 0 then va_int args
      else do { (x, args) \<leftarrow> va_slot args; Some (sint x, args) })"

definition va_unsigned :: "nat \<Rightarrow> va_list \<Rightarrow> (nat \<times> va_list) option" where
  "va_unsigned longness args =
     do { (x, args) \<leftarrow> va_slot args;
          Some (if longness = 0 then unat (ucast x :: u32) else unat x, args) }"

section \<open>Conversion specifications\<close>

record fmt_spec =
  f_left :: bool
  f_zero :: bool
  f_width :: nat
  f_prec :: "nat option"
  f_long :: nat

function parse_flags :: "mem \<Rightarrow> addr \<Rightarrow> bool \<Rightarrow> bool \<Rightarrow> (bool \<times> bool \<times> addr) option" where
  "parse_flags m p left zero =
     do { c \<leftarrow> load8 m p;
          if c = 45 then parse_flags m (p + 1) True zero
          else if c = 48 then parse_flags m (p + 1) left True
          else if c = 43 \<or> c = 32 \<or> c = 35 then parse_flags m (p + 1) left zero
          else Some (left, zero, p) }"
  by pat_completeness auto
termination
  by (relation "measure (\<lambda>(m, p, l, z). unat (- p))") (auto dest!: load8_SomeD simp: unat_neg_step)

function parse_num :: "mem \<Rightarrow> addr \<Rightarrow> nat \<Rightarrow> (nat \<times> addr) option" where
  "parse_num m p n =
     do { c \<leftarrow> load8 m p;
          if 48 \<le> c \<and> c \<le> 57 then
            let n' = n * 10 + (unat c - 48) in
            if n' \<ge> 2 ^ 64 then None else parse_num m (p + 1) n'
          else Some (n, p) }"
  by pat_completeness auto
termination
  by (relation "measure (\<lambda>(m, p, n). unat (- p))") (auto dest!: load8_SomeD simp: unat_neg_step)

declare parse_flags.simps [simp del] parse_num.simps [simp del]

definition parse_width ::
    "mem \<Rightarrow> addr \<Rightarrow> bool \<Rightarrow> va_list \<Rightarrow> (bool \<times> nat \<times> addr \<times> va_list) option" where
  "parse_width m p left args =
     do { (width, p) \<leftarrow> parse_num m p 0;
          c \<leftarrow> load8 m p;
          if c = 42 then
            do { (wv, args) \<leftarrow> va_int args;
                 if wv < 0 then do { n \<leftarrow> c_int (- wv); Some (True, nat n, p + 1, args) }
                 else Some (left, nat wv, p + 1, args) }
          else Some (left, width, p, args) }"

definition parse_prec :: "mem \<Rightarrow> addr \<Rightarrow> va_list \<Rightarrow> (nat option \<times> addr \<times> va_list) option" where
  "parse_prec m p args =
     do { c \<leftarrow> load8 m p;
          if c = 46 then
            do { (n, p) \<leftarrow> parse_num m (p + 1) 0;
                 c \<leftarrow> load8 m p;
                 if c = 42 then
                   do { (pv, args) \<leftarrow> va_int args;
                        Some (if pv \<ge> 0 then Some (nat pv) else None, p + 1, args) }
                 else Some (Some n, p, args) }
          else Some (None, p, args) }"

definition parse_long :: "mem \<Rightarrow> addr \<Rightarrow> (nat \<times> addr) option" where
  "parse_long m p =
     do { c \<leftarrow> load8 m p;
          if c = 108 then
            do { c \<leftarrow> load8 m (p + 1); if c = 108 then Some (2, p + 2) else Some (1, p + 1) }
          else if c = 104 then
            do { c \<leftarrow> load8 m (p + 1); if c = 104 then Some (0, p + 2) else Some (0, p + 1) }
          else if c = 122 \<or> c = 106 \<or> c = 116 then Some (1, p + 1)
          else Some (0, p) }"

definition parse_spec :: "mem \<Rightarrow> addr \<Rightarrow> va_list \<Rightarrow> (fmt_spec \<times> addr \<times> va_list) option" where
  "parse_spec m p args =
     do { (left, zero, p) \<leftarrow> parse_flags m p False False;
          (left, width, p, args) \<leftarrow> parse_width m p left args;
          (prec, p, args) \<leftarrow> parse_prec m p args;
          (longness, p) \<leftarrow> parse_long m p;
          Some (\<lparr>f_left = left, f_zero = zero, f_width = width, f_prec = prec, f_long = longness\<rparr>,
                p, args) }"

section \<open>Conversions\<close>

definition digit_char :: "bool \<Rightarrow> nat \<Rightarrow> byte" where
  "digit_char upper d = (if d < 10 then 48 + of_nat d else (if upper then 65 else 97) + of_nat d - 10)"

text \<open>The digits, least significant first; the base is 8, 10 or 16.\<close>

function digits_rev :: "nat \<Rightarrow> bool \<Rightarrow> nat \<Rightarrow> byte list" where
  "digits_rev base upper v =
     (if v = 0 \<or> base < 2 then [] else digit_char upper (v mod base) # digits_rev base upper (v div base))"
  by pat_completeness auto
termination
  by (relation "measure (\<lambda>(b, u, v). v)") auto

declare digits_rev.simps [simp del]

text \<open>\<^verbatim>\<open>fmtUint\<close>: the digit array has 64 cells.\<close>

definition fmtUint ::
    "nat \<Rightarrow> nat \<Rightarrow> bool \<Rightarrow> bool \<Rightarrow> nat \<Rightarrow> nat option \<Rightarrow> bool \<Rightarrow> bool \<Rightarrow> byte list option" where
  "fmtUint v base upper negative width prec zero_pad left =
     (let tmp = (if v = 0 then (if prec = None \<or> prec \<noteq> Some 0 then [48] else [])
                 else digits_rev base upper v);
          min_d = (case prec of None \<Rightarrow> 0 | Some p \<Rightarrow> p) in
      if length tmp > 64 \<or> min_d > 64 then None
      else
        let ds = tmp @ replicate (min_d - length tmp) 48;
            do_zero_pad = (zero_pad \<and> prec = None);
            sign = (if negative then [45] else []);
            pad_n = width - (length ds + length sign) in
        Some (if \<not> left then
                (if do_zero_pad then sign @ replicate pad_n 48 else replicate pad_n 32 @ sign) @ rev ds
              else sign @ rev ds @ replicate pad_n 32))"

definition fmtStr :: "piece \<Rightarrow> nat \<Rightarrow> nat \<Rightarrow> bool \<Rightarrow> piece list" where
  "fmtStr s len width left =
     (if \<not> left then [Lit (replicate (width - len) 32), s] else [s, Lit (replicate (width - len) 32)])"

text \<open>The bytes of \<^verbatim>\<open>(null)\<close>.\<close>

definition null_str :: "byte list" where
  "null_str = [40, 110, 117, 108, 108, 41]"

definition convert :: "mem \<Rightarrow> fmt_spec \<Rightarrow> byte \<Rightarrow> va_list \<Rightarrow> (piece list \<times> va_list) option" where
  "convert m f c args =
     (let uint_conv = (\<lambda>base upper.
            do { (v, args) \<leftarrow> va_unsigned (f_long f) args;
                 s \<leftarrow> fmtUint v base upper False (f_width f) (f_prec f) (f_zero f) (f_left f);
                 Some ([Lit s], args) }) in
      if c = 100 \<or> c = 105 then
        do { (v, args) \<leftarrow> va_signed (f_long f) args;
             abs_v \<leftarrow> (if v < 0 then c_long (- v) else Some v);
             s \<leftarrow> fmtUint (nat abs_v) 10 False (v < 0) (f_width f) (f_prec f) (f_zero f) (f_left f);
             Some ([Lit s], args) }
      else if c = 117 then uint_conv 10 False
      else if c = 120 then uint_conv 16 False
      else if c = 88 then uint_conv 16 True
      else if c = 111 then uint_conv 8 False
      else if c = 112 then
        do { (v, args) \<leftarrow> va_slot args;
             s \<leftarrow> fmtUint (unat v) 16 False False 0 (Some 1) False False;
             Some ([Lit [48, 120], Lit s], args) }
      else if c = 115 then
        do { (sp, args) \<leftarrow> va_slot args;
             (s, len) \<leftarrow> (if sp \<noteq> NULL
                then do { l \<leftarrow> strlen m sp;
                          let len = (case f_prec f of Some pr \<Rightarrow> min pr (unat l) | None \<Rightarrow> unat l);
                          Some (Slice sp len, len) }
                else let s = (case f_prec f of Some pr \<Rightarrow> take (min pr (length null_str)) null_str
                                             | None \<Rightarrow> null_str) in Some (Lit s, length s));
             Some (fmtStr s len (f_width f) (f_left f), args) }
      else if c = 99 then
        do { (v, args) \<leftarrow> va_int args;
             if v < 0 then None
             else Some (fmtStr (Lit [of_int v]) 1 (f_width f) (f_left f), args) }
      else if c = 37 then Some ([Lit [37]], args)
      else Some ([], args))"

section \<open>The cursor only moves forward\<close>

lemma parse_flags_forward: "parse_flags m p l z = Some (l', z', q) \<Longrightarrow> unat (- q) \<le> unat (- p)"
proof (induction m p l z rule: parse_flags.induct)
  case (1 m p l z)
  then obtain c where c: "load8 m p = Some c" by (auto simp: parse_flags.simps [of m p] bind_Some_iff)
  then have "unat (- (p + 1)) < unat (- p)" using unat_neg_step [of p] by (auto dest: load8_SomeD)
  then show ?case
    using 1(1-3) [OF c] 1(4) c by (auto simp: parse_flags.simps [of m p] split: if_splits)
qed

lemma parse_num_forward: "parse_num m p n = Some (n', q) \<Longrightarrow> unat (- q) \<le> unat (- p)"
proof (induction m p n rule: parse_num.induct)
  case (1 m p n)
  then obtain c where c: "load8 m p = Some c" by (auto simp: parse_num.simps [of m p] bind_Some_iff)
  then have "unat (- (p + 1)) < unat (- p)" using unat_neg_step [of p] by (auto dest: load8_SomeD)
  then show ?case
    using 1(1) [OF c _ refl] 1(2) c by (auto simp: parse_num.simps [of m p] Let_def split: if_splits)
qed

lemma load8_forward: "load8 m p = Some c \<Longrightarrow> unat (- (p + 1)) < unat (- p)"
  using unat_neg_step [of p] by (auto dest: load8_SomeD)

lemma parse_width_forward:
  "parse_width m p l args = Some (l', w, q, args') \<Longrightarrow> unat (- q) \<le> unat (- p)"
  by (auto simp: parse_width_def bind_Some_iff split: if_splits
      dest!: parse_num_forward load8_forward)

lemma parse_prec_forward:
  "parse_prec m p args = Some (pr, q, args') \<Longrightarrow> unat (- q) \<le> unat (- p)"
  by (auto simp: parse_prec_def bind_Some_iff split: if_splits
      dest!: parse_num_forward load8_forward)

lemma parse_long_forward: "parse_long m p = Some (l, q) \<Longrightarrow> unat (- q) \<le> unat (- p)"
  using load8_forward [of m p] load8_forward [of m "p + 1"]
  by (auto simp: parse_long_def bind_Some_iff add.assoc split: if_splits)

lemma parse_spec_forward:
  "parse_spec m p args = Some (f, q, args') \<Longrightarrow> unat (- q) \<le> unat (- p)"
  by (auto simp: parse_spec_def bind_Some_iff
      dest!: parse_flags_forward parse_width_forward parse_prec_forward parse_long_forward)

section \<open>The formatter\<close>

function formatV :: "Writer \<Rightarrow> addr \<Rightarrow> va_list \<Rightarrow> Writer option" where
  "formatV w p args =
     do { c \<leftarrow> load8 (w_mem w) p;
          if c = 0 then Some w
          else if c \<noteq> 37 then do { w' \<leftarrow> putByte c w; formatV w' (p + 1) args }
          else
            do { (f, q, args') \<leftarrow> parse_spec (w_mem w) (p + 1) args;
                 k \<leftarrow> load8 (w_mem w) q;
                 (ps, args'') \<leftarrow> convert (w_mem w) f k args';
                 w' \<leftarrow> emit ps w;
                 formatV w' (q + 1) args'' } }"
  by pat_completeness auto
termination
proof (relation "measure (\<lambda>(w, p, args). unat (- p))", goal_cases)
  case (2 w p args c w')
  then show ?case using load8_forward [of "w_mem w" p c] by simp
next
  case (3 w p args c fqa f qa q args' k psa ps args'' w')
  have "unat (- (q + 1)) < unat (- q)" by (rule load8_forward) fact
  also have "\<dots> \<le> unat (- (p + 1))" using 3 by (intro parse_spec_forward) auto
  also have "\<dots> < unat (- p)" by (rule load8_forward) fact
  finally show ?case by simp
qed simp

declare formatV.simps [simp del]

definition vsnprintf :: "mem \<Rightarrow> addr \<Rightarrow> size_t \<Rightarrow> addr \<Rightarrow> va_list \<Rightarrow> (int \<times> mem) option" where
  "vsnprintf m s n fmt args =
     (if n = 0 then Some (0, m)
      else do { w \<leftarrow> formatV \<lparr>w_mem = m, w_buf = s, w_cap = unat n - 1, w_len = 0\<rparr> fmt args;
                m \<leftarrow> store8 (w_mem w) (s + of_nat (if w_len w < unat n then w_len w else unat n - 1)) 0;
                r \<leftarrow> c_int (int (w_len w));
                Some (r, m) })"

definition snprintf :: "mem \<Rightarrow> addr \<Rightarrow> size_t \<Rightarrow> addr \<Rightarrow> va_list \<Rightarrow> (int \<times> mem) option" where
  "snprintf m s n fmt args = vsnprintf m s n fmt args"

section \<open>Comparison\<close>

text \<open>The loops index both strings by the same counter below \<open>num\<close>.\<close>

function strncmp_loop :: "(byte \<Rightarrow> byte) \<Rightarrow> mem \<Rightarrow> addr \<Rightarrow> addr \<Rightarrow> size_t \<Rightarrow> size_t \<Rightarrow> int option" where
  "strncmp_loop lower m lhs rhs i num =
     (if i < num then
        do { l0 \<leftarrow> load8 m (lhs + i);
             r0 \<leftarrow> load8 m (rhs + i);
             let l = lower l0; r = lower r0 in
             if l = 0 \<and> r = 0 then Some 0
             else if l \<noteq> r \<or> l = 0 \<or> r = 0 then Some (int (unat l) - int (unat r))
             else strncmp_loop lower m lhs rhs (i + 1) num }
      else Some 0)"
  by pat_completeness auto
termination
  by (relation "measure (\<lambda>(lower, m, lhs, rhs, i, num). unat num - unat i)")
    (auto simp: word_less_Suc word_less_nat_alt diff_less_mono2)

declare strncmp_loop.simps [simp del]

definition strncmp :: "mem \<Rightarrow> addr \<Rightarrow> addr \<Rightarrow> size_t \<Rightarrow> int option" where
  "strncmp m lhs rhs num = strncmp_loop (\<lambda>c. c) m lhs rhs 0 num"

definition strcmp :: "mem \<Rightarrow> addr \<Rightarrow> addr \<Rightarrow> int option" where
  "strcmp m lhs rhs = strncmp m lhs rhs (- 1)"

definition ascii_toLower :: "byte \<Rightarrow> byte" where
  "ascii_toLower c = (if 65 \<le> c \<and> c \<le> 90 then c OR 32 else c)"

definition strncasecmp :: "mem \<Rightarrow> addr \<Rightarrow> addr \<Rightarrow> size_t \<Rightarrow> int option" where
  "strncasecmp m lhs rhs num = strncmp_loop ascii_toLower m lhs rhs 0 num"

definition strcasecmp :: "mem \<Rightarrow> addr \<Rightarrow> addr \<Rightarrow> int option" where
  "strcasecmp m lhs rhs = strncasecmp m lhs rhs (- 1)"

section \<open>What a format produces\<close>

text \<open>
  The bytes a format and its arguments stand for, with no buffer involved: the reference the
  writer is measured against.
\<close>

fun piece_bytes :: "mem \<Rightarrow> piece list \<Rightarrow> byte list option" where
  "piece_bytes m [] = Some []"
| "piece_bytes m (Lit s # ps) = do { bs \<leftarrow> piece_bytes m ps; Some (s @ bs) }"
| "piece_bytes m (Slice p n # ps) = do { s \<leftarrow> loadn m p n; bs \<leftarrow> piece_bytes m ps; Some (s @ bs) }"

function format_bytes :: "mem \<Rightarrow> addr \<Rightarrow> va_list \<Rightarrow> byte list option" where
  "format_bytes m p args =
     do { c \<leftarrow> load8 m p;
          if c = 0 then Some []
          else if c \<noteq> 37 then do { bs \<leftarrow> format_bytes m (p + 1) args; Some (c # bs) }
          else
            do { (f, q, args') \<leftarrow> parse_spec m (p + 1) args;
                 k \<leftarrow> load8 m q;
                 (ps, args'') \<leftarrow> convert m f k args';
                 s \<leftarrow> piece_bytes m ps;
                 bs \<leftarrow> format_bytes m (q + 1) args'';
                 Some (s @ bs) } }"
  by pat_completeness auto
termination
proof (relation "measure (\<lambda>(m, p, args). unat (- p))", goal_cases)
  case (2 m p args c)
  then show ?case using load8_forward [of m p c] by simp
next
  case (3 m p args c fqa f qa q args' k psa ps args'' s)
  have "unat (- (q + 1)) < unat (- q)" by (rule load8_forward) fact
  also have "\<dots> \<le> unat (- (p + 1))" using 3 by (intro parse_spec_forward) auto
  also have "\<dots> < unat (- p)" by (rule load8_forward) fact
  finally show ?case by simp
qed simp

declare format_bytes.simps [simp del]

section \<open>Reading does not depend on memory that is not read\<close>

lemma load8_mono: "m \<subseteq>\<^sub>m m' \<Longrightarrow> load8 m p \<noteq> None \<Longrightarrow> load8 m' p = load8 m p"
  by (auto simp: load8_def map_le_def dom_def split: if_splits)

lemma loadn_mono: "m \<subseteq>\<^sub>m m' \<Longrightarrow> loadn m p n \<noteq> None \<Longrightarrow> loadn m' p n = loadn m p n"
proof (induction n arbitrary: p)
  case (Suc n)
  note L = load8_mono [OF Suc.prems(1)]
  show ?case using Suc L [of p] by (cases "load8 m p") (auto split: Option.bind_splits)
qed simp

lemma scan_while_mono:
  "m \<subseteq>\<^sub>m m' \<Longrightarrow> scan_while P m p \<noteq> None \<Longrightarrow> scan_while P m' p = scan_while P m p"
proof (induction P m p rule: scan_while.induct)
  case (1 P m p)
  note L = load8_mono [OF 1(2), of p]
  show ?case
    using 1 L by (cases "load8 m p"; cases "P (the (load8 m p))")
      (auto simp: scan_while.simps [of P m p] scan_while.simps [of P m' p])
qed

lemma strlen_mono: "m \<subseteq>\<^sub>m m' \<Longrightarrow> strlen m p \<noteq> None \<Longrightarrow> strlen m' p = strlen m p"
  using scan_while_mono [of m m'] by (auto simp: strlen_def bind_eq_None_conv)

lemma parse_flags_mono:
  "m \<subseteq>\<^sub>m m' \<Longrightarrow> parse_flags m p l z \<noteq> None \<Longrightarrow> parse_flags m' p l z = parse_flags m p l z"
proof (induction m p l z rule: parse_flags.induct)
  case (1 m p l z)
  note L = load8_mono [OF 1(4), of p]
  show ?case
    using 1 L by (cases "load8 m p") (auto simp: parse_flags.simps [of m p] parse_flags.simps [of m' p])
qed

lemma parse_num_mono:
  "m \<subseteq>\<^sub>m m' \<Longrightarrow> parse_num m p n \<noteq> None \<Longrightarrow> parse_num m' p n = parse_num m p n"
proof (induction m p n rule: parse_num.induct)
  case (1 m p n)
  note L = load8_mono [OF 1(2), of p]
  show ?case
    using 1 L
    by (cases "load8 m p") (auto simp: parse_num.simps [of m p] parse_num.simps [of m' p] Let_def)
qed

lemma parse_width_mono:
  assumes "m \<subseteq>\<^sub>m m'" "parse_width m p l args \<noteq> None"
  shows "parse_width m' p l args = parse_width m p l args"
proof -
  note L = load8_mono [OF assms(1)] and N = parse_num_mono [OF assms(1)]
  obtain n q where n: "parse_num m p 0 = Some (n, q)" using assms(2) by (auto simp: parse_width_def bind_eq_None_conv)
  then obtain c where "load8 m q = Some c" using assms(2) by (auto simp: parse_width_def bind_eq_None_conv)
  then show ?thesis using n L [of q] N [of p 0] by (simp add: parse_width_def)
qed

lemma parse_prec_mono:
  assumes "m \<subseteq>\<^sub>m m'" "parse_prec m p args \<noteq> None"
  shows "parse_prec m' p args = parse_prec m p args"
proof -
  note L = load8_mono [OF assms(1)] and N = parse_num_mono [OF assms(1)]
  obtain c where c: "load8 m p = Some c" using assms(2) by (auto simp: parse_prec_def bind_eq_None_conv)
  show ?thesis
  proof (cases "c = 46")
    case True
    with c assms(2) obtain n q where n: "parse_num m (p + 1) 0 = Some (n, q)"
      by (auto simp: parse_prec_def bind_eq_None_conv)
    then obtain d where "load8 m q = Some d" using True c assms(2) by (auto simp: parse_prec_def bind_eq_None_conv)
    then show ?thesis using n c L [of p] L [of q] N [of "p + 1" 0] by (simp add: parse_prec_def)
  qed (use c L [of p] in \<open>simp add: parse_prec_def\<close>)
qed

lemma parse_long_mono:
  assumes "m \<subseteq>\<^sub>m m'" "parse_long m p \<noteq> None"
  shows "parse_long m' p = parse_long m p"
proof -
  note L = load8_mono [OF assms(1)]
  obtain c where c: "load8 m p = Some c" using assms(2) by (auto simp: parse_long_def bind_eq_None_conv)
  then show ?thesis
    using assms(2) L [of p] L [of "p + 1"] by (cases "load8 m (p + 1)") (auto simp: parse_long_def)
qed

lemma parse_spec_mono:
  assumes "m \<subseteq>\<^sub>m m'" "parse_spec m p args = Some r"
  shows "parse_spec m' p args = Some r"
proof -
  obtain l z p1 l' w p2 args1 pr p3 args2 lo p4
    where h: "parse_flags m p False False = Some (l, z, p1)" "parse_width m p1 l args = Some (l', w, p2, args1)"
      "parse_prec m p2 args1 = Some (pr, p3, args2)" "parse_long m p3 = Some (lo, p4)"
    using assms(2) by (auto simp: parse_spec_def bind_Some_iff)
  then have "parse_flags m' p False False = Some (l, z, p1)" "parse_width m' p1 l args = Some (l', w, p2, args1)"
      "parse_prec m' p2 args1 = Some (pr, p3, args2)" "parse_long m' p3 = Some (lo, p4)"
    using parse_flags_mono [OF assms(1), of p False False] parse_width_mono [OF assms(1), of p1 l args]
      parse_prec_mono [OF assms(1), of p2 args1] parse_long_mono [OF assms(1), of p3] by simp_all
  with h assms(2) show ?thesis by (simp add: parse_spec_def)
qed

lemma convert_mono:
  assumes "m \<subseteq>\<^sub>m m'" "convert m f c args = Some r"
  shows "convert m' f c args = Some r"
proof (cases "c = 115")
  case True
  show ?thesis
  proof (cases args)
    case (Cons sp args')
    show ?thesis
      using True Cons assms(2) strlen_mono [OF assms(1), of sp]
      by (cases "strlen m sp") (auto simp: convert_def Let_def va_slot_def)
  qed (use assms(2) True in \<open>simp add: convert_def va_slot_def\<close>)
next
  case False
  then have "convert m' f c args = convert m f c args" by (simp add: convert_def)
  with assms(2) show ?thesis by simp
qed

section \<open>The contract of a byte sink\<close>

locale byte_sink =
  fixes put :: "byte \<Rightarrow> 'w \<Rightarrow> 'w option"
    and shown :: "'w \<Rightarrow> byte list \<Rightarrow> bool"
  assumes put_shown: "shown w bs \<Longrightarrow> \<exists>w'. put c w = Some w' \<and> shown w' (bs @ [c])"
begin

primrec put_all :: "byte list \<Rightarrow> 'w \<Rightarrow> 'w option" where
  "put_all [] w = Some w"
| "put_all (c # s) w = do { w \<leftarrow> put c w; put_all s w }"

lemma put_all_shown: "shown w bs \<Longrightarrow> \<exists>w'. put_all s w = Some w' \<and> shown w' (bs @ s)"
proof (induction s arbitrary: w bs)
  case (Cons c s)
  obtain w1 where w1: "put c w = Some w1" "shown w1 (bs @ [c])" using put_shown [OF Cons.prems] by blast
  from Cons.IH [OF w1(2)] w1(1) show ?case by auto
qed auto

end

text \<open>
  A writer over the buffer of \<open>k\<close> bytes at \<open>b\<close> has taken the bytes \<open>bs\<close>: as many as fit are in
  the buffer, the rest is counted.
\<close>

definition writer_shown :: "mem \<Rightarrow> addr \<Rightarrow> nat \<Rightarrow> Writer \<Rightarrow> byte list \<Rightarrow> bool" where
  "writer_shown m b k w bs \<longleftrightarrow> mapped m b k \<and>
     w = \<lparr>w_mem = write_bytes m b (take k bs), w_buf = b, w_cap = k, w_len = length bs\<rparr>"

interpretation wr: byte_sink putByte "writer_shown m b k" for m b k
proof unfold_locales
  fix w bs c
  assume "writer_shown m b k w bs"
  then have mp: "mapped m b k" and w: "w = \<lparr>w_mem = write_bytes m b (take k bs), w_buf = b, w_cap = k, w_len = length bs\<rparr>"
    by (auto simp: writer_shown_def)
  show "\<exists>w'. putByte c w = Some w' \<and> writer_shown m b k w' (bs @ [c])"
  proof (cases "length bs < k")
    case True
    have "mapped (write_bytes m b bs) (b + of_nat (length bs)) 1"
      using True by (intro mapped_write mapped_less [OF mapped_tail [of m b "length bs" "k - length bs"]]) (use mp in auto)
    then have "store8 (write_bytes m b bs) (b + of_nat (length bs)) c =
        Some ((write_bytes m b bs)(b + of_nat (length bs) \<mapsto> c))"
      by (intro store8_mapped) simp
    then show ?thesis
      using True mp w by (simp add: putByte_def writer_shown_def write_bytes_append)
  qed (use mp w in \<open>simp add: putByte_def writer_shown_def\<close>)
qed

lemma putStr_put_all: "putStr s = wr.put_all s"
  by (induction s) (intro ext, simp)+

lemma unmap_range_le:
  assumes "writer_shown m b k w bs"
  shows "unmap_range m b k \<subseteq>\<^sub>m w_mem w"
proof (cases "k = 0")
  case False
  have mp: "mapped m b k" and w: "w_mem w = write_bytes m b (take k bs)"
    using assms by (auto simp: writer_shown_def)
  then have "write_bytes m b (take k bs) a = m a" if "\<not> in_range a b k" for a
    using that mapped_bounds [OF mp] False by (intro write_bytes_other) (auto simp: in_range_def)
  then show ?thesis by (auto simp: map_le_def unmap_range_def w split: if_splits)
qed (use assms in \<open>auto simp: writer_shown_def unmap_range_def in_range_def map_le_def\<close>)

lemma putMem_shown:
  assumes "writer_shown m b k w bs" "loadn (unmap_range m b k) p n = Some s"
  shows "\<exists>w'. putMem p n w = Some w' \<and> writer_shown m b k w' (bs @ s)"
  using assms
proof (induction n arbitrary: p w bs s)
  case (Suc n)
  obtain c s' where c: "load8 (unmap_range m b k) p = Some c" "loadn (unmap_range m b k) (p + 1) n = Some s'" "s = c # s'"
    using Suc.prems(2) by (auto simp: bind_Some_iff)
  obtain w1 where w1: "putByte c w = Some w1" "writer_shown m b k w1 (bs @ [c])"
    using wr.put_shown [OF Suc.prems(1)] by blast
  have "load8 (w_mem w) p = Some c" using load8_mono [OF unmap_range_le [OF Suc.prems(1)]] c(1) by simp
  with Suc.IH [OF w1(2) c(2)] w1(1) c(3) show ?case by auto
qed auto

lemma emit_shown:
  assumes "writer_shown m b k w bs" "piece_bytes (unmap_range m b k) ps = Some s"
  shows "\<exists>w'. emit ps w = Some w' \<and> writer_shown m b k w' (bs @ s)"
  using assms
proof (induction ps arbitrary: w bs s)
  case (Cons pc ps)
  show ?case
  proof (cases pc)
    case (Lit l)
    obtain s' where s': "piece_bytes (unmap_range m b k) ps = Some s'" "s = l @ s'"
      using Cons.prems(2) Lit by (auto simp: bind_Some_iff)
    obtain w1 where w1: "putStr l w = Some w1" "writer_shown m b k w1 (bs @ l)"
      using wr.put_all_shown [OF Cons.prems(1)] by (auto simp: putStr_put_all)
    from Cons.IH [OF w1(2) s'(1)] w1(1) s'(2) Lit show ?thesis by auto
  next
    case (Slice p n)
    obtain s1 s' where s': "loadn (unmap_range m b k) p n = Some s1"
        "piece_bytes (unmap_range m b k) ps = Some s'" "s = s1 @ s'"
      using Cons.prems(2) Slice by (auto simp: bind_Some_iff)
    obtain w1 where w1: "putMem p n w = Some w1" "writer_shown m b k w1 (bs @ s1)"
      using putMem_shown [OF Cons.prems(1) s'(1)] by auto
    from Cons.IH [OF w1(2) s'(2)] w1(1) s'(3) Slice show ?thesis by auto
  qed
qed auto

lemma formatV_shown:
  assumes "writer_shown m b k w bs" "format_bytes (unmap_range m b k) p args = Some out"
  shows "\<exists>w'. formatV w p args = Some w' \<and> writer_shown m b k w' (bs @ out)"
  using assms
proof (induction w p args arbitrary: bs out rule: formatV.induct)
  case (1 w p args)
  note le = unmap_range_le [OF 1(3)]
  obtain c where c: "load8 (unmap_range m b k) p = Some c"
    using 1(4) by (auto simp: format_bytes.simps [of _ p] bind_Some_iff)
  have c': "load8 (w_mem w) p = Some c" using load8_mono [OF le] c by simp
  show ?case
  proof (cases "c = 0 \<or> c \<noteq> 37")
    case True
    show ?thesis
    proof (cases "c = 0")
      case True
      then show ?thesis using 1(3,4) c c' by (auto simp: formatV.simps [of w] format_bytes.simps [of _ p])
    next
      case nz: False
      obtain o' where o': "format_bytes (unmap_range m b k) (p + 1) args = Some o'" "out = c # o'"
        using 1(4) c nz True by (auto simp: format_bytes.simps [of _ p] bind_Some_iff)
      obtain w1 where w1: "putByte c w = Some w1" "writer_shown m b k w1 (bs @ [c])"
        using wr.put_shown [OF 1(3)] by blast
      from 1(1) [OF c' nz _ w1(1) w1(2) o'(1)] show ?thesis
        using True nz c' w1(1) o'(2) by (auto simp: formatV.simps [of w])
    qed
  next
    case False
    then have c37: "c = 37" by simp
    obtain f q args' d ps args'' s o' where h: "parse_spec (unmap_range m b k) (p + 1) args = Some (f, q, args')"
        "load8 (unmap_range m b k) q = Some d" "convert (unmap_range m b k) f d args' = Some (ps, args'')"
        "piece_bytes (unmap_range m b k) ps = Some s" "format_bytes (unmap_range m b k) (q + 1) args'' = Some o'"
        "out = s @ o'"
      using 1(4) c c37 by (auto simp: format_bytes.simps [of _ p] bind_Some_iff)
    have r: "parse_spec (w_mem w) (p + 1) args = Some (f, q, args')" "load8 (w_mem w) q = Some d"
        "convert (w_mem w) f d args' = Some (ps, args'')"
      using parse_spec_mono [OF le h(1)] load8_mono [OF le, of q] h(2) convert_mono [OF le h(3)] by auto
    obtain w1 where w1: "emit ps w = Some w1" "writer_shown m b k w1 (bs @ s)"
      using emit_shown [OF 1(3) h(4)] by blast
    from 1(2) [OF c' _ _ r(1) refl refl r(2) r(3) refl w1(1) w1(2) h(5)] show ?thesis
      using c37 c' r w1(1) h(6) by (auto simp: formatV.simps [of w])
  qed
qed

section \<open>The buffer is never overrun\<close>

definition w_within :: "Writer \<Rightarrow> Writer \<Rightarrow> bool" where
  "w_within w w' \<longleftrightarrow> w_buf w' = w_buf w \<and> w_cap w' = w_cap w \<and>
     same_except (w_mem w) (w_mem w') (w_buf w) (w_cap w)"

lemma w_within_trans: "w_within w1 w2 \<Longrightarrow> w_within w2 w3 \<Longrightarrow> w_within w1 w3"
  by (auto simp: w_within_def same_except_def)

lemma w_within_refl: "w_within w w"
  by (simp add: w_within_def same_except_def)

lemma putByte_within:
  assumes "putByte c w = Some w'" "unat (w_buf w) + w_cap w \<le> 2 ^ 64"
  shows "w_within w w'"
proof (cases "w_len w < w_cap w")
  case True
  then have "unat (w_buf w + of_nat (w_len w)) = unat (w_buf w) + w_len w"
    using assms(2) by (intro unat_plus_of_nat) simp
  then have "in_range (w_buf w + of_nat (w_len w)) (w_buf w) (w_cap w)" using True by (simp add: in_range_def)
  then show ?thesis
    using True assms(1)
    by (auto simp: putByte_def bind_Some_iff store8_def w_within_def same_except_def split: if_splits)
qed (use assms(1) in \<open>auto simp: putByte_def w_within_def same_except_def\<close>)

lemma putStr_within:
  "putStr s w = Some w' \<Longrightarrow> unat (w_buf w) + w_cap w \<le> 2 ^ 64 \<Longrightarrow> w_within w w'"
proof (induction s arbitrary: w)
  case (Cons c s)
  then obtain w1 where w1: "putByte c w = Some w1" "putStr s w1 = Some w'" by (auto simp: bind_Some_iff)
  have *: "w_within w w1" by (rule putByte_within [OF w1(1) Cons.prems(2)])
  then have "w_within w1 w'" using Cons.IH [OF w1(2)] Cons.prems(2) by (simp add: w_within_def)
  with * show ?case by (rule w_within_trans)
qed (simp add: w_within_refl)

lemma putMem_within:
  "putMem p n w = Some w' \<Longrightarrow> unat (w_buf w) + w_cap w \<le> 2 ^ 64 \<Longrightarrow> w_within w w'"
proof (induction n arbitrary: p w)
  case (Suc n)
  then obtain c w1 where w1: "putByte c w = Some w1" "putMem (p + 1) n w1 = Some w'" by (auto simp: bind_Some_iff)
  have *: "w_within w w1" by (rule putByte_within [OF w1(1) Suc.prems(2)])
  then have "w_within w1 w'" using Suc.IH [OF w1(2)] Suc.prems(2) by (simp add: w_within_def)
  with * show ?case by (rule w_within_trans)
qed (simp add: w_within_refl)

lemma emit_within:
  "emit ps w = Some w' \<Longrightarrow> unat (w_buf w) + w_cap w \<le> 2 ^ 64 \<Longrightarrow> w_within w w'"
proof (induction ps arbitrary: w)
  case (Cons pc ps)
  then obtain w1 where w1: "w_within w w1" "emit ps w1 = Some w'"
    by (cases pc) (auto simp: bind_Some_iff dest: putStr_within putMem_within)
  then have "w_within w1 w'" using Cons.IH [OF w1(2)] Cons.prems(2) by (simp add: w_within_def)
  with w1(1) show ?case by (rule w_within_trans)
qed (simp add: w_within_refl)

text \<open>Induction over a successful run of the formatter.\<close>

lemma formatV_Some_induct [consumes 1, case_names nul lit conv]:
  assumes "formatV w p args = Some w'"
    and nul: "\<And>w p args. load8 (w_mem w) p = Some 0 \<Longrightarrow> P w p args w"
    and lit: "\<And>w p args c w1 w'. load8 (w_mem w) p = Some c \<Longrightarrow> c \<noteq> 0 \<Longrightarrow> c \<noteq> 37 \<Longrightarrow>
      putByte c w = Some w1 \<Longrightarrow> formatV w1 (p + 1) args = Some w' \<Longrightarrow> P w1 (p + 1) args w' \<Longrightarrow> P w p args w'"
    and conv: "\<And>w p args f q args' k ps args'' w1 w'. load8 (w_mem w) p = Some 37 \<Longrightarrow>
      parse_spec (w_mem w) (p + 1) args = Some (f, q, args') \<Longrightarrow> load8 (w_mem w) q = Some k \<Longrightarrow>
      convert (w_mem w) f k args' = Some (ps, args'') \<Longrightarrow> emit ps w = Some w1 \<Longrightarrow>
      formatV w1 (q + 1) args'' = Some w' \<Longrightarrow> P w1 (q + 1) args'' w' \<Longrightarrow> P w p args w'"
  shows "P w p args w'"
  using assms(1)
proof (induction w p args rule: formatV.induct)
  case (1 w p args)
  obtain c where c: "load8 (w_mem w) p = Some c" using 1(3) by (auto simp: formatV.simps [of w] bind_Some_iff)
  consider (n) "c = 0" | (l) w1 where "c \<noteq> 0" "c \<noteq> 37" "putByte c w = Some w1" "formatV w1 (p + 1) args = Some w'"
    | (v) f q args' k ps args'' w1 where "c \<noteq> 0" "\<not> c \<noteq> 37" "parse_spec (w_mem w) (p + 1) args = Some (f, q, args')"
      "load8 (w_mem w) q = Some k" "convert (w_mem w) f k args' = Some (ps, args'')" "emit ps w = Some w1"
      "formatV w1 (q + 1) args'' = Some w'"
    using 1(3) c by (auto simp: formatV.simps [of w] bind_Some_iff split: if_splits)
  then show ?case
  proof cases
    case n
    then show ?thesis using 1(3) c nul [of w p args] by (simp add: formatV.simps [of w])
  next
    case l
    then show ?thesis using lit [OF c l] 1(1) [OF c l] by simp
  next
    case v
    then show ?thesis
      using conv [OF _ v(3-7)] c 1(2) [OF c v(1,2,3) refl refl v(4,5) refl v(6,7)] by simp
  qed
qed

lemma formatV_within:
  "formatV w p args = Some w' \<Longrightarrow> unat (w_buf w) + w_cap w \<le> 2 ^ 64 \<Longrightarrow> w_within w w'"
proof (induction rule: formatV_Some_induct)
  case (lit w p args c w1 w')
  then have "w_within w w1" using putByte_within by blast
  moreover from this have "w_within w1 w'" using lit by (simp add: w_within_def)
  ultimately show ?case by (rule w_within_trans)
next
  case (conv w p args f q args' k ps args'' w1 w')
  then have "w_within w w1" using emit_within by blast
  moreover from this have "w_within w1 w'" using conv by (simp add: w_within_def)
  ultimately show ?case by (rule w_within_trans)
qed (rule w_within_refl)


lemma vsnprintf_shows:
  assumes "format_bytes (unmap_range m s (unat n - 1)) fmt args = Some out" "mapped m s (unat n)" "n \<noteq> 0"
    "int (length out) \<le> INT_MAX"
  shows "vsnprintf m s n fmt args = Some (int (length out), write_bytes m s (take (unat n - 1) out @ [0]))"
proof -
  have n: "0 < unat n" using assms(3) by (simp add: unat_gt_0)
  have mp: "mapped m s (unat n - 1)" using assms(2) by (rule mapped_less) simp
  let ?w0 = "\<lparr>w_mem = m, w_buf = s, w_cap = unat n - 1, w_len = 0\<rparr>"
  have "writer_shown m s (unat n - 1) ?w0 []" using mp by (simp add: writer_shown_def)
  from formatV_shown [OF this assms(1)]
  obtain w where w: "formatV ?w0 fmt args = Some w" "writer_shown m s (unat n - 1) w out" by auto
  then have wm: "w_mem w = write_bytes m s (take (unat n - 1) out)" "w_len w = length out"
    by (auto simp: writer_shown_def)
  define i where "i = length (take (unat n - 1) out)"
  have i: "(if length out < unat n then length out else unat n - 1) = i" using n by (auto simp: i_def)
  have "mapped m s (i + (unat n - i))" using assms(2) n by (simp add: i_def)
  then have "mapped m (s + of_nat i) 1"
    by (rule mapped_less [OF mapped_tail]) (use n in \<open>simp add: i_def\<close>)
  then have "store8 (w_mem w) (s + of_nat i) 0 = Some ((w_mem w)(s + of_nat i \<mapsto> 0))"
    using mapped_write [of m "s + of_nat i" 1 s "take (unat n - 1) out"] wm(1) by (simp add: store8_mapped)
  moreover have "(w_mem w)(s + of_nat i \<mapsto> 0) = write_bytes m s (take (unat n - 1) out @ [0])"
    unfolding write_bytes_append i_def [symmetric] wm(1) by simp
  moreover have "c_int (int (length out)) = Some (int (length out))"
    using assms(4) by (simp add: c_int_def INT_MIN_def)
  ultimately show ?thesis
    using assms(3) w(1) wm(2) i
    by (cases "length out < unat n") (simp_all add: vsnprintf_def del: fun_upd_apply)
qed


text \<open>
  A format that ends in a lone percent sign is read past its terminator: the formatter takes
  the terminator for the conversion character and goes on behind it, into unmapped memory here.
\<close>

theorem vsnprintf_percent_overread:
  assumes "load8 m fmt = Some 37" "load8 m (fmt + 1) = Some 0" "load8 m (fmt + 2) = None" "n \<noteq> 0"
  shows "vsnprintf m s n fmt args = None"
proof -
  define w where "w = \<lparr>w_mem = m, w_buf = s, w_cap = unat n - 1, w_len = 0\<rparr>"
  then have wm: "w_mem w = m" by simp
  have "parse_spec m (fmt + 1) args =
      Some (\<lparr>f_left = False, f_zero = False, f_width = 0, f_prec = None, f_long = 0\<rparr>, fmt + 1, args)"
    using assms(2)
    by (simp add: parse_spec_def parse_flags.simps [of m "fmt + 1"] parse_width_def
        parse_num.simps [of m "fmt + 1"] parse_prec_def parse_long_def)
  then have "formatV w fmt args = formatV w (fmt + 1 + 1) args"
    using assms(1,2) wm by (simp add: formatV.simps [of w fmt] convert_def Let_def)
  also have "\<dots> = None" using assms(3) wm by (simp add: formatV.simps [of w "fmt + 2"] add.assoc)
  finally show ?thesis using assms(4) by (simp add: vsnprintf_def w_def)
qed

section \<open>Comparison is lexicographic\<close>

fun str_diff :: "byte list \<Rightarrow> byte list \<Rightarrow> int" where
  "str_diff [] [] = 0"
| "str_diff (a # as) [] = int (unat a)"
| "str_diff [] (b # bs) = - int (unat b)"
| "str_diff (a # as) (b # bs) = (if a = b then str_diff as bs else int (unat a) - int (unat b))"

lemma strncmp_loop_step:
  assumes "\<And>c. lower c = 0 \<longleftrightarrow> c = 0" "i < num" "load8 m (lhs + i) = Some a" "load8 m (rhs + i) = Some b"
  shows "strncmp_loop lower m lhs rhs i num =
    (if a = 0 \<and> b = 0 then Some 0
     else if lower a = lower b then strncmp_loop lower m lhs rhs (i + 1) num
     else Some (int (unat (lower a)) - int (unat (lower b))))"
  using assms(1) [of a] assms(1) [of b] assms(2-)
  by (subst strncmp_loop.simps) (auto simp: Let_def)

lemma strncmp_loop_diff:
  assumes L: "\<And>c. lower c = 0 \<longleftrightarrow> c = 0"
    and "cstr m (lhs + i) s" "cstr m (rhs + i) t" "unat i + length s < unat num"
  shows "strncmp_loop lower m lhs rhs i num = Some (str_diff (map lower s) (map lower t))"
  using assms(2-)
proof (induction s arbitrary: i t)
  case Nil
  have i: "i < num" using Nil.prems(3) by (simp add: word_less_nat_alt)
  have L0: "lower 0 = 0" using L [of 0] by simp
  show ?case
  proof (cases t)
    case (Cons b t')
    then have "lower b \<noteq> 0" "0 \<noteq> lower b" using Nil.prems L [of b] by auto
    then show ?thesis
      using strncmp_loop_step [OF L i, of m lhs 0 rhs b] Nil.prems Cons L0 by simp
  qed (use strncmp_loop_step [OF L i, of m lhs 0 rhs 0] Nil.prems in simp)
next
  case (Cons a s)
  have i: "i < num" "unat (i + 1) = Suc (unat i)"
    using Cons.prems(3) word_less_Suc [of i num] by (simp_all add: word_less_nat_alt)
  have L0: "lower 0 = 0" and La: "lower a \<noteq> 0" using L [of 0] L [of a] Cons.prems(1) by auto
  show ?case
  proof (cases t)
    case Nil
    then show ?thesis
      using strncmp_loop_step [OF L i(1), of m lhs a rhs 0] Cons.prems L0 La by simp
  next
    case t: (Cons b t')
    have "strncmp_loop lower m lhs rhs (i + 1) num = Some (str_diff (map lower s) (map lower t'))"
      using Cons.IH [of "i + 1" t'] Cons.prems t i(2) by (simp add: add.assoc)
    then show ?thesis
      using strncmp_loop_step [OF L i(1), of m lhs a rhs b] Cons.prems t by simp
  qed
qed

lemma ascii_toLower_0: "ascii_toLower c = 0 \<longleftrightarrow> c = 0"
  by (auto simp: ascii_toLower_def or_eq_0_iff)

lemma unat_minus_1: "unat (- 1 :: size_t) = 2 ^ 64 - 1"
  by (simp add: unsigned_minus_1_eq_mask mask_eq_exp_minus_1)

lemma strcmp_cstr: "cstr m p s \<Longrightarrow> cstr m q t \<Longrightarrow> strcmp m p q = Some (str_diff s t)"
  using strncmp_loop_diff [of "\<lambda>c. c" m p 0 s q t "- 1"] cstr_bounds [of m p s]
  by (simp add: strcmp_def strncmp_def unat_minus_1)

lemma strcasecmp_cstr:
  "cstr m p s \<Longrightarrow> cstr m q t \<Longrightarrow>
   strcasecmp m p q = Some (str_diff (map ascii_toLower s) (map ascii_toLower t))"
  using strncmp_loop_diff [of ascii_toLower m p 0 s q t "- 1"] cstr_bounds [of m p s]
  by (simp add: strcasecmp_def strncasecmp_def ascii_toLower_0 unat_minus_1)

lemma str_diff_0: "0 \<notin> set s \<Longrightarrow> 0 \<notin> set t \<Longrightarrow> str_diff s t = 0 \<longleftrightarrow> s = t"
  by (induction s t rule: str_diff.induct) (auto simp: uint_0_iff simp flip: word_uint_eq_iff)

lemma str_diff_less:
  "0 \<notin> set s \<Longrightarrow> 0 \<notin> set t \<Longrightarrow> str_diff s t < 0 \<longleftrightarrow> (s, t) \<in> lexord {(a, b). a < b}"
  by (induction s t rule: str_diff.induct) (auto simp: word_less_def uint_0_iff less_le)

text \<open>
  C30.  strcmp orders strings lexicographically by their unsigned bytes: it returns on every pair
  of strings, zero exactly for equal ones and a negative number exactly when the first comes
  before the second.
\<close>

theorem strcmp_lexicographic:
  assumes "cstr m p s" "cstr m q t"
  shows "\<exists>r. strcmp m p q = Some r \<and> (r = 0 \<longleftrightarrow> s = t) \<and> (r < 0 \<longleftrightarrow> (s, t) \<in> lexord {(a, b). a < b})"
  using strcmp_cstr [OF assms] str_diff_0 [of s t] str_diff_less [of s t] assms by (auto simp: cstr_def)

theorem strcmp_lexicographic_witness:
  "\<exists>r. strcmp str_mem 4096 8192 = Some r \<and> (r = 0 \<longleftrightarrow> [72, 105] = [97, 44, 98 :: byte]) \<and>
    (r < 0 \<longleftrightarrow> ([72, 105], [97, 44, 98 :: byte]) \<in> lexord {(a, b). a < b})"
  by (rule strcmp_lexicographic) code_simp+

theorem vsnprintf_percent_overread_witness:
  "vsnprintf (write_bytes Map.empty 4096 [37, 0]) 8192 10 4096 [] = None"
  by (rule vsnprintf_percent_overread) code_simp+

text \<open>The format "a%d" and a buffer of eight bytes, for the examples.\<close>

definition fmt_mem :: mem where
  "fmt_mem = write_bytes (write_bytes Map.empty 64 [1, 1, 1, 1, 1, 1, 1, 1]) 128 [97, 37, 100, 0]"

lemma fmt_mem_bytes: "format_bytes (unmap_range fmt_mem 64 (unat (8 :: size_t) - 1)) 128 [5] = Some [97, 53]"
  by code_simp



end
