(* ===== verification/Stdio.thy ===== *)
theory Stdio
  imports Heap Format
begin

text \<open>
  The printing half of the C runtime (\<^verbatim>\<open>apps/doom/innigkeit_libc.c\<close>, lines 14-18 and 207-275):
  the \<^verbatim>\<open>printf\<close> family over a static buffer, \<^verbatim>\<open>puts\<close> and \<^verbatim>\<open>putchar\<close>, \<^verbatim>\<open>abort\<close>, the assertion
  handler and \<^verbatim>\<open>exit\<close>.

  String literals and local variables occupy memory while the call that uses them runs:
  \<open>with_locals\<close> places their bytes and restores what was there when the call returns.  The state
  holds the address of the static buffer, of the literals and of the local variables, and the
  bytes a local array holds before it is written.
\<close>

record stdio = heap +
  printf_buf :: addr
  errno_val :: addr
  literals :: addr
  c_frame :: addr
  junk :: "nat \<Rightarrow> byte"

section \<open>Literals and locals\<close>

definition chars :: "string \<Rightarrow> byte list" where
  "chars = map of_char"

definition restore_range :: "mem \<Rightarrow> addr \<Rightarrow> nat \<Rightarrow> mem \<Rightarrow> mem" where
  "restore_range m p n m' = (\<lambda>a. if in_range a p n then m a else m' a)"

definition with_locals ::
    "addr \<Rightarrow> byte list \<Rightarrow> ('s machine_scheme \<Rightarrow> ('r \<times> 's machine_scheme) option) \<Rightarrow>
     's machine_scheme \<Rightarrow> ('r \<times> 's machine_scheme) option" where
  "with_locals p bs body s =
     do { (r, s') \<leftarrow> body (s\<lparr>mem := write_bytes (mem s) p bs\<rparr>);
          Some (r, s'\<lparr>mem := restore_range (mem s) p (length bs) (mem s')\<rparr>) }"

section \<open>The operations\<close>

definition write_stdout :: "'s machine_scheme \<Rightarrow> addr \<Rightarrow> size_t \<Rightarrow> (int \<times> 's machine_scheme) option" where
  "write_stdout s buf len = do { (r, s) \<leftarrow> innigkeit_write s buf len; Some (to_int r, s) }"

definition write_literal :: "'s stdio_scheme \<Rightarrow> byte list \<Rightarrow> (int \<times> 's stdio_scheme) option" where
  "write_literal s l =
     with_locals (literals s) l (\<lambda>s. write_stdout s (literals s) (of_nat (length l))) s"

definition vsprintf :: "mem \<Rightarrow> addr \<Rightarrow> addr \<Rightarrow> va_list \<Rightarrow> (int \<times> mem) option" where
  "vsprintf m buf fmt ap = vsnprintf m buf (- 1) fmt ap"

definition sprintf :: "mem \<Rightarrow> addr \<Rightarrow> addr \<Rightarrow> va_list \<Rightarrow> (int \<times> mem) option" where
  "sprintf m buf fmt ap = vsprintf m buf fmt ap"

definition vprintf :: "'s stdio_scheme \<Rightarrow> addr \<Rightarrow> va_list \<Rightarrow> (int \<times> 's stdio_scheme) option" where
  "vprintf s fmt ap =
     do { (n, m) \<leftarrow> vsnprintf (mem s) (printf_buf s) 4096 fmt ap;
          (_, s) \<leftarrow> write_stdout (s\<lparr>mem := m\<rparr>) (printf_buf s) (word_of_int (if n < 4096 then n else 4095));
          Some (n, s) }"

definition printf :: "'s stdio_scheme \<Rightarrow> addr \<Rightarrow> va_list \<Rightarrow> (int \<times> 's stdio_scheme) option" where
  "printf s fmt ap = vprintf s fmt ap"

definition vfprintf :: "'s stdio_scheme \<Rightarrow> addr \<Rightarrow> addr \<Rightarrow> va_list \<Rightarrow> (int \<times> 's stdio_scheme) option" where
  "vfprintf s stream fmt ap = vprintf s fmt ap"

definition fprintf :: "'s stdio_scheme \<Rightarrow> addr \<Rightarrow> addr \<Rightarrow> va_list \<Rightarrow> (int \<times> 's stdio_scheme) option" where
  "fprintf s stream fmt ap = vprintf s fmt ap"

text \<open>A call of \<^verbatim>\<open>printf\<close> with a literal format.\<close>

definition printf_literal :: "'s stdio_scheme \<Rightarrow> byte list \<Rightarrow> va_list \<Rightarrow> (int \<times> 's stdio_scheme) option" where
  "printf_literal s fmt ap =
     with_locals (literals s) (fmt @ [0]) (\<lambda>s. printf s (literals s) ap) s"

definition puts :: "'s stdio_scheme \<Rightarrow> addr \<Rightarrow> (int \<times> 's stdio_scheme) option" where
  "puts s str =
     do { l \<leftarrow> strlen (mem s) str;
          (_, s) \<leftarrow> write_stdout s str l;
          (_, s) \<leftarrow> write_literal s [10];
          Some (0, s) }"

definition putchar :: "'s stdio_scheme \<Rightarrow> int \<Rightarrow> (int \<times> 's stdio_scheme) option" where
  "putchar s c =
     do { (_, s) \<leftarrow> with_locals (c_frame s) [to_char c] (\<lambda>s. write_stdout s (c_frame s) 1) s;
          Some (c, s) }"

definition fputs :: "'s stdio_scheme \<Rightarrow> addr \<Rightarrow> addr \<Rightarrow> (int \<times> 's stdio_scheme) option" where
  "fputs s str stream = do { (r, s) \<leftarrow> puts s str; Some (if r \<ge> 0 then 0 else - 1, s) }"

definition fputc :: "'s stdio_scheme \<Rightarrow> int \<Rightarrow> addr \<Rightarrow> (int \<times> 's stdio_scheme) option" where
  "fputc s c stream = putchar s c"

definition errno_location :: "'s stdio_scheme \<Rightarrow> addr" where
  "errno_location s = errno_val s"

definition abort :: "'s stdio_scheme \<Rightarrow> 's stdio_scheme option" where
  "abort s = do { (_, s) \<leftarrow> write_literal s (chars ''abort()'' @ [10]); Some (innigkeit_exit s 1) }"

definition assert_format :: "byte list" where
  "assert_format = chars ''assert failed: %s at %s:%u (%s)'' @ [10]"

definition assert_fail :: "'s stdio_scheme \<Rightarrow> addr \<Rightarrow> addr \<Rightarrow> u32 \<Rightarrow> addr \<Rightarrow> 's stdio_scheme option" where
  "assert_fail s expr file line fn =
     do { (_, s) \<leftarrow> with_locals (c_frame s) (map (junk s) [0..<256])
            (\<lambda>s. do { (_, s) \<leftarrow> with_locals (literals s) (assert_format @ [0])
                        (\<lambda>s. do { (r, m) \<leftarrow> snprintf (mem s) (c_frame s) 256 (literals s) [expr, file, ucast line, fn];
                                  Some (r, s\<lparr>mem := m\<rparr>) }) s;
                      l \<leftarrow> strlen (mem s) (c_frame s);
                      write_stdout s (c_frame s) l }) s;
          Some (innigkeit_exit s 1) }"

definition exit :: "'s stdio_scheme \<Rightarrow> int \<Rightarrow> 's stdio_scheme" where
  "exit s code = innigkeit_exit s code"

section \<open>What the formats produce\<close>

definition decimal :: "nat \<Rightarrow> byte list" where
  "decimal v = (if v = 0 then [48] else rev (digits_rev 10 False v))"

lemma length_digits_rev: "2 \<le> b \<Longrightarrow> v < b ^ k \<Longrightarrow> length (digits_rev b u v) \<le> k"
proof (induction k arbitrary: v)
  case (Suc k)
  then have "v div b < b ^ k" by (simp add: less_mult_imp_div_less mult.commute)
  with Suc.IH Suc.prems(1) show ?case by (simp add: digits_rev.simps [of b u v])
qed (simp add: digits_rev.simps)

lemma length_decimal: "v < 10 ^ k \<Longrightarrow> 0 < k \<Longrightarrow> length (decimal v) \<le> k"
  using length_digits_rev [of 10 v k False] by (simp add: decimal_def)

lemma fmtUint_decimal:
  assumes "v < 2 ^ 64"
  shows "fmtUint v 10 False False 0 None False False = Some (decimal v)"
proof -
  have "(2 :: nat) ^ 64 \<le> 10 ^ 64" by (rule power_mono) simp_all
  then have "length (digits_rev 10 False v) \<le> 64" using assms by (intro length_digits_rev) simp_all
  then show ?thesis by (simp add: fmtUint_def decimal_def Let_def)
qed

lemma format_bytes_end: "load8 m p = Some 0 \<Longrightarrow> format_bytes m p args = Some []"
  by (simp add: format_bytes.simps [of m p])

lemma format_bytes_plain:
  assumes "bytes_at m p bs" "0 \<notin> set bs" "37 \<notin> set bs"
    "format_bytes m (p + of_nat (length bs)) args = Some out"
  shows "format_bytes m p args = Some (bs @ out)"
  using assms
proof (induction bs arbitrary: p)
  case (Cons b bs)
  then have "format_bytes m (p + 1) args = Some (bs @ out)" by (simp add: ac_simps)
  with Cons.prems show ?case by (auto simp: format_bytes.simps [of m p])
qed simp

lemma parse_flags_none:
  "load8 m p = Some c \<Longrightarrow> c \<notin> {45, 48, 43, 32, 35} \<Longrightarrow> parse_flags m p l z = Some (l, z, p)"
  by (simp add: parse_flags.simps [of m p])

lemma parse_num_none: "load8 m p = Some c \<Longrightarrow> \<not> (48 \<le> c \<and> c \<le> 57) \<Longrightarrow> parse_num m p n = Some (n, p)"
  by (auto simp add: parse_num.simps [of m p])

definition plain_spec :: fmt_spec where
  "plain_spec = \<lparr>f_left = False, f_zero = False, f_width = 0, f_prec = None, f_long = 0\<rparr>"

lemma parse_spec_s: "load8 m p = Some 115 \<Longrightarrow> parse_spec m p args = Some (plain_spec, p, args)"
  by (simp add: parse_spec_def parse_flags_none parse_num_none parse_width_def parse_prec_def parse_long_def plain_spec_def)

lemma parse_spec_u: "load8 m p = Some 117 \<Longrightarrow> parse_spec m p args = Some (plain_spec, p, args)"
  by (simp add: parse_spec_def parse_flags_none parse_num_none parse_width_def parse_prec_def parse_long_def plain_spec_def)

lemma parse_spec_z:
  "load8 m p = Some 122 \<Longrightarrow> parse_spec m p args = Some (plain_spec\<lparr>f_long := 1\<rparr>, p + 1, args)"
  by (simp add: parse_spec_def parse_flags_none parse_num_none parse_width_def parse_prec_def parse_long_def plain_spec_def)

lemma parse_num_digit:
  assumes "load8 m p = Some c" "48 \<le> c" "c \<le> 57" "load8 m (p + 1) = Some d" "\<not> (48 \<le> d \<and> d \<le> 57)"
  shows "parse_num m p 0 = Some (unat c - 48, p + 1)"
proof -
  have "unat c \<le> 57" using assms(3) by (simp add: word_le_nat_alt)
  then show ?thesis using assms by (simp add: parse_num.simps [of m p] parse_num_none Let_def)
qed

lemma parse_spec_prec_s:
  assumes "load8 m p = Some 46" "load8 m (p + 1) = Some c" "48 \<le> c" "c \<le> 57" "load8 m (p + 1 + 1) = Some 115"
  shows "parse_spec m p args = Some (plain_spec\<lparr>f_prec := Some (unat c - 48)\<rparr>, p + 1 + 1, args)"
  using assms parse_num_digit [OF assms(2-5)]
  by (simp add: parse_spec_def parse_flags_none parse_num_none parse_width_def parse_prec_def parse_long_def plain_spec_def)

lemma strlen_cstr_unat: "cstr m p s \<Longrightarrow> \<exists>l. strlen m p = Some l \<and> unat l = length s"
  using cstr_bounds [of m p s] strlen_cstr [of m p s] by (auto simp: unat_of_nat_small)

lemma convert_s:
  assumes "cstr m sp str" "f_width f = 0" "f_left f = False"
  defines "k \<equiv> (case f_prec f of Some pr \<Rightarrow> min pr (length str) | None \<Rightarrow> length str)"
  shows "convert m f 115 (sp # args) = Some ([Lit [], Slice sp k], args)"
proof -
  obtain l where "strlen m sp = Some l" "unat l = length str" using strlen_cstr_unat [OF assms(1)] by blast
  moreover have "sp \<noteq> NULL" using cstr_bounds [OF assms(1)] by auto
  ultimately show ?thesis using assms(2,3)
    by (cases "f_prec f") (simp_all add: convert_def va_slot_def fmtStr_def k_def Let_def)
qed

lemma cstr_loadn: "cstr m p s \<Longrightarrow> k \<le> length s \<Longrightarrow> loadn m p k = Some (take k s)"
  using bytes_at_slice [of m p s 0 k] by (simp add: loadn_iff cstr_def)

lemma format_bytes_s:
  assumes "bytes_at m p [37, 115]" "cstr m sp str" "format_bytes m (p + 1 + 1) args = Some out"
  shows "format_bytes m p (sp # args) = Some (str @ out)"
  using assms convert_s [OF assms(2), of plain_spec args] parse_spec_s [of m "p + 1" "sp # args"] cstr_loadn [OF assms(2) order_refl]
  by (simp add: format_bytes.simps [of m p] plain_spec_def)

lemma format_bytes_prec_s:
  assumes "bytes_at m p [37, 46, c, 115]" "48 \<le> c" "c \<le> 57" "cstr m sp str"
    "format_bytes m (p + 1 + 1 + 1 + 1) args = Some out"
  shows "format_bytes m p (sp # args) = Some (take (unat c - 48) str @ out)"
proof -
  let ?k = "min (unat c - 48) (length str)"
  have "loadn m sp ?k = Some (take (unat c - 48) str)"
    using cstr_loadn [OF assms(4), of ?k] by (simp add: min_def)
  then show ?thesis
    using assms convert_s [OF assms(4), of "plain_spec\<lparr>f_prec := Some (unat c - 48)\<rparr>" args]
      parse_spec_prec_s [of m "p + 1" c "sp # args"]
    by (simp add: format_bytes.simps [of m p] plain_spec_def)
qed

lemma format_bytes_u:
  assumes "bytes_at m p [37, 117]" "format_bytes m (p + 1 + 1) args = Some out"
  shows "format_bytes m p (x # args) = Some (decimal (unat (ucast x :: u32)) @ out)"
proof -
  have "unat (ucast x :: u32) < 2 ^ 64" using unsigned_less [of "ucast x :: u32", where 'a = nat] by simp
  then show ?thesis
    using assms parse_spec_u [of m "p + 1" "x # args"]
    by (simp add: format_bytes.simps [of m p] plain_spec_def convert_def va_unsigned_def va_slot_def fmtUint_decimal)
qed

lemma format_bytes_zu:
  assumes "bytes_at m p [37, 122, 117]" "format_bytes m (p + 1 + 1 + 1) args = Some out"
  shows "format_bytes m p (x # args) = Some (decimal (unat x) @ out)"
  using assms parse_spec_z [of m "p + 1" "x # args"] unsigned_less [of x, where 'a = nat]
  by (simp add: format_bytes.simps [of m p] plain_spec_def convert_def va_unsigned_def va_slot_def fmtUint_decimal)

section \<open>Printing\<close>

lemma to_int_write: "n \<le> 4096 \<Longrightarrow> to_int (int n) = int n"
  by (rule to_int_id) (simp_all add: c_range_defs)

lemma write_stdout_ok:
  assumes "bytes_at (mem s) buf bs" "unat len = length bs" "length bs \<le> 4096" "terminal_ok s"
    "userBuffer (print_frame s) 4096"
  shows "write_stdout s buf len = Some (int (length bs), s\<lparr>terminal := terminal s @ bs\<rparr>)"
  using innigkeit_write_ok [OF assms] assms(3) by (simp add: write_stdout_def to_int_write)

definition prints_ok :: "'s stdio_scheme \<Rightarrow> bool" where
  "prints_ok s \<longleftrightarrow> mapped (mem s) (printf_buf s) 4096 \<and> terminal_ok s \<and> userBuffer (print_frame s) 4096"

lemma vprintf_shows:
  assumes "prints_ok s" "format_bytes (unmap_range (mem s) (printf_buf s) 4095) fmt args = Some out"
    "int (length out) \<le> INT_MAX"
  shows "vprintf s fmt args = Some (int (length out),
    s\<lparr>mem := write_bytes (mem s) (printf_buf s) (take 4095 out @ [0]), terminal := terminal s @ take 4095 out\<rparr>)"
proof -
  let ?m = "write_bytes (mem s) (printf_buf s) (take 4095 out @ [0])"
  have p: "mapped (mem s) (printf_buf s) 4096" "terminal_ok s" "userBuffer (print_frame s) 4096"
    using assms(1) by (simp_all add: prints_ok_def)
  have v: "vsnprintf (mem s) (printf_buf s) 4096 fmt args = Some (int (length out), ?m)"
    using vsnprintf_shows [of "mem s" "printf_buf s" 4096 fmt args out] assms(2,3) p(1) by simp
  have "bytes_at ?m (printf_buf s) (take 4095 out @ [0])"
    using mapped_bounds [OF p(1)] by (intro write_bytes_at) auto
  then have "bytes_at ?m (printf_buf s) (take 4095 out)" by simp
  moreover have "unat (word_of_int (if int (length out) < 4096 then int (length out) else 4095) :: size_t)
      = length (take 4095 out)"
    by (simp add: unat_of_nat_small)
  ultimately have "write_stdout (s\<lparr>mem := ?m\<rparr>) (printf_buf s)
      (word_of_int (if int (length out) < 4096 then int (length out) else 4095)) =
      Some (int (length (take 4095 out)), s\<lparr>mem := ?m, terminal := terminal s @ take 4095 out\<rparr>)"
    using p(2,3) by (subst write_stdout_ok [where bs = "take 4095 out"]) simp_all
  with v show ?thesis by (simp add: vprintf_def)
qed

section \<open>Literals and locals during a call\<close>

lemma write_bytes_value:
  assumes "unat p + length bs \<le> 2 ^ 64" "in_range a p (length bs)"
  shows "write_bytes m p bs a = Some (bs ! (unat a - unat p))"
proof -
  have "a = p + of_nat (unat a - unat p)" using assms(2) by (intro word_le_plus_of_nat) (simp add: in_range_def)
  then show ?thesis
    using write_bytes_range [OF assms(1), of "unat a - unat p" m] assms(2) by (auto simp: in_range_def)
qed

lemma restore_range_write:
  assumes "unat p + length bs \<le> 2 ^ 64" "unat q + length cs \<le> 2 ^ 64" "sep p (length bs) q (length cs)"
  shows "restore_range m p (length bs) (write_bytes (write_bytes m p bs) q cs) = write_bytes m q cs"
proof
  fix a
  show "restore_range m p (length bs) (write_bytes (write_bytes m p bs) q cs) a = write_bytes m q cs a"
  proof (cases "in_range a q (length cs)")
    case True
    then have "\<not> in_range a p (length bs)" using assms(3) by (auto simp: in_range_def sep_def)
    then show ?thesis using True assms(2) by (simp add: restore_range_def write_bytes_value)
  next
    case False
    then show ?thesis using assms(1,2) by (simp add: restore_range_def write_bytes_other)
  qed
qed

lemma restore_range_self:
  assumes "unat p + length bs \<le> 2 ^ 64"
  shows "restore_range m p (length bs) (write_bytes m p bs) = m"
  using restore_range_write [of p bs p "[]" m] assms by (auto simp: restore_range_def write_bytes_other)

text \<open>Where the literals of at most \<open>n\<close> bytes and the local variables may lie.\<close>

definition literal_room :: "'s stdio_scheme \<Rightarrow> nat \<Rightarrow> bool" where
  "literal_room s n \<longleftrightarrow> 0 < unat (literals s) \<and> unat (literals s) + n \<le> 2 ^ 64 \<and>
     sep (literals s) n (printf_buf s) 4096"

lemma write_literal_shows:
  assumes "terminal_ok s" "userBuffer (print_frame s) 4096" "0 < unat (literals s)"
    "unat (literals s) + length l \<le> 2 ^ 64" "length l \<le> 4096"
  shows "write_literal s l = Some (int (length l), s\<lparr>terminal := terminal s @ l\<rparr>)"
proof -
  let ?s = "s\<lparr>mem := write_bytes (mem s) (literals s) l\<rparr>"
  have w: "write_stdout ?s (literals s) (of_nat (length l)) = Some (int (length l), ?s\<lparr>terminal := terminal s @ l\<rparr>)"
    using assms write_bytes_at [OF assms(3,4), of "mem s"]
    by (simp add: write_stdout_ok [where bs = l] unat_of_nat_small)
  show ?thesis
    using w assms(4) by (simp add: write_literal_def with_locals_def restore_range_self)
qed

lemma printf_literal_shows:
  assumes "prints_ok s" "literal_room s (Suc (length fmt))" "int (length out) \<le> INT_MAX"
    "format_bytes (unmap_range (write_bytes (mem s) (literals s) (fmt @ [0])) (printf_buf s) 4095) (literals s) args = Some out"
  shows "printf_literal s fmt args = Some (int (length out),
    s\<lparr>mem := write_bytes (mem s) (printf_buf s) (take 4095 out @ [0]), terminal := terminal s @ take 4095 out\<rparr>)"
proof -
  let ?l = "fmt @ [0]"
  let ?s = "s\<lparr>mem := write_bytes (mem s) (literals s) ?l\<rparr>"
  have buf: "mapped (mem s) (printf_buf s) 4096" using assms(1) by (simp add: prints_ok_def)
  have "prints_ok ?s" using assms(1) mapped_write [OF buf] by (simp add: prints_ok_def)
  from vprintf_shows [OF this, of "literals s" args out] assms(3,4)
  have v: "printf ?s (literals s) args = Some (int (length out),
      ?s\<lparr>mem := write_bytes (mem ?s) (printf_buf s) (take 4095 out @ [0]), terminal := terminal s @ take 4095 out\<rparr>)"
    by (simp add: printf_def)
  have "restore_range (mem s) (literals s) (length ?l)
      (write_bytes (write_bytes (mem s) (literals s) ?l) (printf_buf s) (take 4095 out @ [0])) =
      write_bytes (mem s) (printf_buf s) (take 4095 out @ [0])"
    using assms(2) mapped_bounds [OF buf]
    by (intro restore_range_write) (auto simp: literal_room_def sep_def)
  then show ?thesis
    using v by (simp add: printf_literal_def with_locals_def)
qed

text \<open>The bytes of a literal, seen from a format.\<close>

lemma bytes_at_unmap:
  assumes "bytes_at m p bs" "sep p (length bs) q n"
  shows "bytes_at (unmap_range m q n) p bs"
  using assms(1)
  by (rule bytes_at_cong) (use assms(2) in \<open>auto simp: unmap_range_def in_range_def sep_def\<close>)

lemma cstr_unmap: "cstr m p s \<Longrightarrow> sep p (Suc (length s)) q n \<Longrightarrow> cstr (unmap_range m q n) p s"
  using bytes_at_unmap [of m p "s @ [0]" q n] by (simp add: cstr_def)

lemma literal_bytes:
  assumes "literal_room s (Suc (length fmt))"
  shows "bytes_at (unmap_range (write_bytes (mem s) (literals s) (fmt @ [0])) (printf_buf s) 4095)
    (literals s) (fmt @ [0])"
  using assms
  by (intro bytes_at_unmap write_bytes_at) (auto simp: literal_room_def sep_def)

section \<open>Formats made of the conversions the runtime uses\<close>

text \<open>
  The formats of the runtime and of the platform layer are sequences of plain text and of the
  conversions below; each item carries the arguments it consumes.
\<close>

datatype fitem = Txt "byte list" | ConvS addr "byte list" | ConvPS byte addr "byte list" | ConvU u64 | ConvZU u64

fun item_text :: "fitem \<Rightarrow> byte list" where
  "item_text (Txt l) = l"
| "item_text (ConvS sp str) = [37, 115]"
| "item_text (ConvPS c sp str) = [37, 46, c, 115]"
| "item_text (ConvU x) = [37, 117]"
| "item_text (ConvZU x) = [37, 122, 117]"

fun item_args :: "fitem \<Rightarrow> va_list" where
  "item_args (Txt l) = []"
| "item_args (ConvS sp str) = [sp]"
| "item_args (ConvPS c sp str) = [sp]"
| "item_args (ConvU x) = [x]"
| "item_args (ConvZU x) = [x]"

fun item_out :: "fitem \<Rightarrow> byte list" where
  "item_out (Txt l) = l"
| "item_out (ConvS sp str) = str"
| "item_out (ConvPS c sp str) = take (unat c - 48) str"
| "item_out (ConvU x) = decimal (unat (ucast x :: u32))"
| "item_out (ConvZU x) = decimal (unat x)"

fun item_ok :: "mem \<Rightarrow> fitem \<Rightarrow> bool" where
  "item_ok m (Txt l) \<longleftrightarrow> 0 \<notin> set l \<and> 37 \<notin> set l"
| "item_ok m (ConvS sp str) \<longleftrightarrow> cstr m sp str"
| "item_ok m (ConvPS c sp str) \<longleftrightarrow> 48 \<le> c \<and> c \<le> 57 \<and> cstr m sp str"
| "item_ok m (ConvU x) \<longleftrightarrow> True"
| "item_ok m (ConvZU x) \<longleftrightarrow> True"

lemma format_item:
  assumes "bytes_at m p (item_text i)" "item_ok m i"
    "format_bytes m (p + of_nat (length (item_text i))) args = Some out"
  shows "format_bytes m p (item_args i @ args) = Some (item_out i @ out)"
proof (cases i)
  case (Txt l)
  then show ?thesis using assms format_bytes_plain [of m p l args out] by simp
next
  case (ConvS sp str)
  then show ?thesis using assms format_bytes_s [of m p sp str args out] by (simp add: add.assoc)
next
  case (ConvPS c sp str)
  then show ?thesis using assms format_bytes_prec_s [of m p c sp str args out] by (simp add: add.assoc)
next
  case (ConvU x)
  then show ?thesis using assms format_bytes_u [of m p args out x] by (simp add: add.assoc)
next
  case (ConvZU x)
  then show ?thesis using assms format_bytes_zu [of m p args out x] by (simp add: add.assoc)
qed

lemma format_items:
  "bytes_at m p (concat (map item_text is) @ [0]) \<Longrightarrow> (\<And>i. i \<in> set is \<Longrightarrow> item_ok m i) \<Longrightarrow>
   format_bytes m p (concat (map item_args is)) = Some (concat (map item_out is))"
proof (induction "is" arbitrary: p)
  case (Cons i "is")
  let ?q = "p + of_nat (length (item_text i))"
  have "bytes_at m ?q (concat (map item_text is) @ [0])" using Cons.prems(1) by (simp add: add.assoc)
  then have "format_bytes m ?q (concat (map item_args is)) = Some (concat (map item_out is))"
    using Cons.prems(2) by (intro Cons.IH) auto
  then show ?case using format_item [of m p i] Cons.prems by simp
qed (simp add: format_bytes_end)

lemma length_decimal_u32: "length (decimal (unat (x :: u32))) \<le> 10"
  using unsigned_less [of x, where 'a = nat] by (intro length_decimal) simp_all

lemma length_decimal_u64: "length (decimal (unat (x :: u64))) \<le> 20"
  using unsigned_less [of x, where 'a = nat] by (intro length_decimal) simp_all

lemma digit_char_nonzero: "digit_char False (v mod 10) \<noteq> 0"
proof -
  have "unat (48 + of_nat (v mod 10) :: byte) = 48 + v mod 10"
    by (simp add: unat_word_ariths unat_of_nat)
  then show ?thesis by (auto simp: digit_char_def)
qed

lemma decimal_no_nul: "0 \<notin> set (decimal v)"
proof -
  have "0 \<notin> set (digits_rev 10 False v)" for v
    by (induction v rule: less_induct)
      (simp add: digits_rev.simps [of 10 False] digit_char_nonzero [THEN not_sym])
  then show ?thesis by (simp add: decimal_def)
qed

lemma printf_items:
  assumes "prints_ok s" "fmt = concat (map item_text is)" "literal_room s (Suc (length fmt))"
    "args = concat (map item_args is)" "length (concat (map item_out is)) \<le> 4095"
    "\<And>i. i \<in> set is \<Longrightarrow>
      item_ok (unmap_range (write_bytes (mem s) (literals s) (fmt @ [0])) (printf_buf s) 4095) i"
  shows "\<exists>m. printf_literal s fmt args = Some (int (length (concat (map item_out is))),
      s\<lparr>mem := m, terminal := terminal s @ concat (map item_out is)\<rparr>) \<and>
    same_except (mem s) m (printf_buf s) 4096 \<and> (\<forall>a. m a = None \<longleftrightarrow> mem s a = None)"
proof -
  let ?out = "concat (map item_out is)"
  have buf: "mapped (mem s) (printf_buf s) 4096" using assms(1) by (simp add: prints_ok_def)
  have "format_bytes (unmap_range (write_bytes (mem s) (literals s) (fmt @ [0])) (printf_buf s) 4095)
      (literals s) args = Some ?out"
    using literal_bytes [OF assms(3)] assms(2,4,6) by (simp add: format_items)
  moreover have "int (length ?out) \<le> INT_MAX" using assms(5) by (simp add: INT_MAX_def)
  ultimately have "printf_literal s fmt args = Some (int (length ?out),
      s\<lparr>mem := write_bytes (mem s) (printf_buf s) (?out @ [0]), terminal := terminal s @ ?out\<rparr>)"
    using printf_literal_shows [OF assms(1,3)] assms(5) by simp
  moreover have "mapped (mem s) (printf_buf s) (length (?out @ [0]))"
    using buf by (rule mapped_less) (use assms(5) in simp)
  moreover have "same_except (mem s) (write_bytes (mem s) (printf_buf s) (?out @ [0])) (printf_buf s) 4096"
    using mapped_bounds [OF buf] assms(5)
    by (intro same_except_trans [OF same_except_write same_except_refl [of _ "printf_buf s" 0]]) simp_all
  ultimately show ?thesis using mapped_write_dom by blast
qed

section \<open>Output without a bound\<close>

text \<open>
  A writer whose capacity is not reached behaves as one of any larger capacity, so that
  \<^verbatim>\<open>sprintf\<close>, which passes the largest possible size, needs only the room it uses.
\<close>

lemma putByte_len: "putByte c w = Some w' \<Longrightarrow> w_len w' = Suc (w_len w) \<and> w_cap w' = w_cap w"
  by (auto simp: putByte_def bind_Some_iff split: if_splits)

lemma putByte_cap:
  "putByte c w = Some w' \<Longrightarrow> w_len w' \<le> w_cap w \<Longrightarrow> w_cap w \<le> K \<Longrightarrow>
   putByte c (w\<lparr>w_cap := K\<rparr>) = Some (w'\<lparr>w_cap := K\<rparr>)"
  by (auto simp: putByte_def bind_Some_iff split: if_splits)

lemma putStr_len: "putStr s w = Some w' \<Longrightarrow> w_len w \<le> w_len w' \<and> w_cap w' = w_cap w"
  by (induction s arbitrary: w) (fastforce simp: bind_Some_iff dest!: putByte_len)+

lemma putStr_cap:
  "putStr s w = Some w' \<Longrightarrow> w_len w' \<le> w_cap w \<Longrightarrow> w_cap w \<le> K \<Longrightarrow>
   putStr s (w\<lparr>w_cap := K\<rparr>) = Some (w'\<lparr>w_cap := K\<rparr>)"
proof (induction s arbitrary: w)
  case (Cons c s)
  then obtain w1 where w1: "putByte c w = Some w1" "putStr s w1 = Some w'" by (auto simp: bind_Some_iff)
  note l = putByte_len [OF w1(1)] putStr_len [OF w1(2)]
  have "putByte c (w\<lparr>w_cap := K\<rparr>) = Some (w1\<lparr>w_cap := K\<rparr>)"
    using l Cons.prems w1(1) by (intro putByte_cap) simp_all
  moreover have "putStr s (w1\<lparr>w_cap := K\<rparr>) = Some (w'\<lparr>w_cap := K\<rparr>)"
    using l Cons.prems w1(2) by (intro Cons.IH) simp_all
  ultimately show ?case by simp
qed simp

lemma putMem_len: "putMem p n w = Some w' \<Longrightarrow> w_len w \<le> w_len w' \<and> w_cap w' = w_cap w"
  by (induction n arbitrary: p w) (fastforce simp: bind_Some_iff dest!: putByte_len)+

lemma putMem_cap:
  "putMem p n w = Some w' \<Longrightarrow> w_len w' \<le> w_cap w \<Longrightarrow> w_cap w \<le> K \<Longrightarrow>
   putMem p n (w\<lparr>w_cap := K\<rparr>) = Some (w'\<lparr>w_cap := K\<rparr>)"
proof (induction n arbitrary: p w)
  case (Suc n)
  then obtain c w1 where w1: "load8 (w_mem w) p = Some c" "putByte c w = Some w1" "putMem (p + 1) n w1 = Some w'"
    by (auto simp: bind_Some_iff)
  note l = putByte_len [OF w1(2)] putMem_len [OF w1(3)]
  have "putByte c (w\<lparr>w_cap := K\<rparr>) = Some (w1\<lparr>w_cap := K\<rparr>)"
    using l Suc.prems w1(2) by (intro putByte_cap) simp_all
  moreover have "putMem (p + 1) n (w1\<lparr>w_cap := K\<rparr>) = Some (w'\<lparr>w_cap := K\<rparr>)"
    using l Suc.prems w1(3) by (intro Suc.IH) simp_all
  ultimately show ?case using w1(1) by simp
qed simp

lemma emit_len: "emit ps w = Some w' \<Longrightarrow> w_len w \<le> w_len w' \<and> w_cap w' = w_cap w"
proof (induction ps arbitrary: w)
  case (Cons pc ps)
  then show ?case by (cases pc) (fastforce simp: bind_Some_iff dest!: putStr_len putMem_len)+
qed simp

lemma emit_cap:
  "emit ps w = Some w' \<Longrightarrow> w_len w' \<le> w_cap w \<Longrightarrow> w_cap w \<le> K \<Longrightarrow>
   emit ps (w\<lparr>w_cap := K\<rparr>) = Some (w'\<lparr>w_cap := K\<rparr>)"
proof (induction ps arbitrary: w)
  case (Cons pc ps)
  show ?case
  proof (cases pc)
    case (Lit l)
    with Cons.prems obtain w1 where w1: "putStr l w = Some w1" "emit ps w1 = Some w'" by (auto simp: bind_Some_iff)
    note l = putStr_len [OF w1(1)] emit_len [OF w1(2)]
    show ?thesis
      using Lit l Cons.prems putStr_cap [OF w1(1), of K] Cons.IH [OF w1(2)] by simp
  next
    case (Slice p n)
    with Cons.prems obtain w1 where w1: "putMem p n w = Some w1" "emit ps w1 = Some w'" by (auto simp: bind_Some_iff)
    note l = putMem_len [OF w1(1)] emit_len [OF w1(2)]
    show ?thesis
      using Slice l Cons.prems putMem_cap [OF w1(1), of K] Cons.IH [OF w1(2)] by simp
  qed
qed simp

lemma formatV_len: "formatV w p args = Some w' \<Longrightarrow> w_len w \<le> w_len w' \<and> w_cap w' = w_cap w"
  by (induction rule: formatV_Some_induct) (fastforce dest!: putByte_len emit_len)+

lemma formatV_cap:
  "formatV w p args = Some w' \<Longrightarrow> w_len w' \<le> w_cap w \<Longrightarrow> w_cap w \<le> K \<Longrightarrow>
   formatV (w\<lparr>w_cap := K\<rparr>) p args = Some (w'\<lparr>w_cap := K\<rparr>)"
proof (induction rule: formatV_Some_induct)
  case (nul w p args)
  then show ?case by (simp add: formatV.simps [of "w\<lparr>w_cap := K\<rparr>"])
next
  case (lit w p args c w1 w')
  note l = putByte_len [OF lit(4)] formatV_len [OF lit(5)]
  have "putByte c (w\<lparr>w_cap := K\<rparr>) = Some (w1\<lparr>w_cap := K\<rparr>)" using l lit by (intro putByte_cap) simp_all
  then show ?case using lit l by (simp add: formatV.simps [of "w\<lparr>w_cap := K\<rparr>"])
next
  case (conv w p args f q args' k ps args'' w1 w')
  note l = emit_len [OF conv(5)] formatV_len [OF conv(6)]
  have "emit ps (w\<lparr>w_cap := K\<rparr>) = Some (w1\<lparr>w_cap := K\<rparr>)" using l conv by (intro emit_cap) simp_all
  then show ?case using conv l by (simp add: formatV.simps [of "w\<lparr>w_cap := K\<rparr>"])
qed

lemma sprintf_shows:
  assumes "format_bytes (unmap_range m b (length out)) fmt args = Some out" "mapped m b (Suc (length out))"
    "int (length out) \<le> INT_MAX"
  shows "sprintf m b fmt args = Some (int (length out), write_bytes m b (out @ [0]))"
proof -
  define K where "K = unat (- 1 :: size_t) - 1"
  have K: "length out \<le> K" "length out < unat (- 1 :: size_t)"
    using assms(3) by (simp_all add: K_def unat_minus_1 INT_MAX_def)
  let ?w = "\<lparr>w_mem = m, w_buf = b, w_cap = length out, w_len = 0\<rparr>"
  have mp: "mapped m b (length out)" "mapped m (b + of_nat (length out)) 1"
    using mapped_append [of m b "length out" 1] assms(2) by simp_all
  then have "writer_shown m b (length out) ?w []" by (simp add: writer_shown_def)
  from formatV_shown [OF this assms(1)]
  obtain w where "formatV ?w fmt args = Some w" "writer_shown m b (length out) w out" by auto
  then have "formatV ?w fmt args = Some \<lparr>w_mem = write_bytes m b out, w_buf = b, w_cap = length out, w_len = length out\<rparr>"
    by (simp add: writer_shown_def)
  from formatV_cap [OF this, of K] K(1)
  have f: "formatV \<lparr>w_mem = m, w_buf = b, w_cap = K, w_len = 0\<rparr> fmt args =
      Some \<lparr>w_mem = write_bytes m b out, w_buf = b, w_cap = K, w_len = length out\<rparr>" by simp
  have "store8 (write_bytes m b out) (b + of_nat (length out)) 0 =
      Some ((write_bytes m b out)(b + of_nat (length out) \<mapsto> 0))"
    using mapped_write [OF mp(2), of b out] by (simp add: store8_mapped)
  moreover have "(write_bytes m b out)(b + of_nat (length out) \<mapsto> 0) = write_bytes m b (out @ [0])"
    unfolding write_bytes_append by simp
  moreover have "c_int (int (length out)) = Some (int (length out))"
    using assms(3) by (simp add: c_int_def INT_MIN_def)
  ultimately show ?thesis
    using f K(2) by (simp add: sprintf_def vsprintf_def vsnprintf_def K_def del: fun_upd_apply)
qed

section \<open>The assertion handler\<close>

text \<open>The frame of \<open>n\<close> bytes and a literal of \<open>k\<close> bytes lie apart; an object lies apart from both.\<close>

definition locals_room :: "'s stdio_scheme \<Rightarrow> nat \<Rightarrow> nat \<Rightarrow> bool" where
  "locals_room s n k \<longleftrightarrow> 0 < unat (c_frame s) \<and> unat (c_frame s) + n \<le> 2 ^ 64 \<and>
     0 < unat (literals s) \<and> unat (literals s) + k \<le> 2 ^ 64 \<and> sep (c_frame s) n (literals s) k"

definition apart_locals :: "'s stdio_scheme \<Rightarrow> nat \<Rightarrow> nat \<Rightarrow> addr \<Rightarrow> nat \<Rightarrow> bool" where
  "apart_locals s n k p l \<longleftrightarrow> sep p l (c_frame s) n \<and> sep p l (literals s) k"

definition assert_message :: "byte list \<Rightarrow> byte list \<Rightarrow> u32 \<Rightarrow> byte list \<Rightarrow> byte list" where
  "assert_message es fs line ns =
     chars ''assert failed: '' @ es @ chars '' at '' @ fs @ chars '':'' @ decimal (unat line) @
     chars '' ('' @ ns @ [41, 10]"

lemma assert_format_bytes:
  assumes "bytes_at m p (assert_format @ [0])" "cstr m e es" "cstr m f fs" "cstr m n ns"
  shows "format_bytes m p [e, f, ucast line, n] = Some (assert_message es fs line ns)"
proof -
  let ?is = "[Txt (chars ''assert failed: ''), ConvS e es, Txt (chars '' at ''), ConvS f fs, Txt (chars '':''),
    ConvU (ucast line), Txt (chars '' (''), ConvS n ns, Txt [41, 10]]"
  have "assert_format = concat (map item_text ?is)" by (simp add: assert_format_def chars_def)
  moreover have "item_ok m i" if "i \<in> set ?is" for i
    using that assms(2-4) by (auto simp: chars_def)
  moreover have "(ucast (ucast line :: u64) :: u32) = line" by (rule bit_word_eqI) (simp add: bit_simps)
  ultimately show ?thesis
    using format_items [of m p ?is] assms(1) by (simp add: assert_message_def)
qed

lemma assert_message_no_nul:
  "0 \<notin> set es \<Longrightarrow> 0 \<notin> set fs \<Longrightarrow> 0 \<notin> set ns \<Longrightarrow> 0 \<notin> set (assert_message es fs line ns)"
  by (auto simp: assert_message_def chars_def decimal_no_nul)

lemma cstr_write_apart:
  assumes "cstr m p s" "sep p (Suc (length s)) q (length bs)" "unat q + length bs \<le> 2 ^ 64"
  shows "cstr (write_bytes m q bs) p s"
  using same_except_cstr [OF same_except_write [OF assms(3)] assms(1)] assms(2) by (simp add: sep_sym)

lemma assert_fail_snprintf:
  assumes "locals_room s 256 33"
    "cstr (mem s) e es" "apart_locals s 256 33 e (Suc (length es))"
    "cstr (mem s) f fs" "apart_locals s 256 33 f (Suc (length fs))"
    "cstr (mem s) n ns" "apart_locals s 256 33 n (Suc (length ns))"
    "int (length (assert_message es fs line ns)) \<le> INT_MAX" "length j = 256"
  defines "m1 \<equiv> write_bytes (mem s) (c_frame s) j"
  defines "m2 \<equiv> write_bytes m1 (literals s) (assert_format @ [0])"
  shows "snprintf m2 (c_frame s) 256 (literals s) [e, f, ucast line, n] =
    Some (int (length (assert_message es fs line ns)),
      write_bytes m2 (c_frame s) (take 255 (assert_message es fs line ns) @ [0]))"
proof -
  have len: "length (assert_format @ [0]) = 33" by (simp add: assert_format_def chars_def)
  note r = assms(1) [unfolded locals_room_def]
  let ?u = "unmap_range m2 (c_frame s) 255"
  have *: "cstr ?u p str" if "cstr (mem s) p str" "apart_locals s 256 33 p (Suc (length str))" for p str
  proof -
    have "cstr m1 p str" unfolding m1_def
      using that r assms(9) by (intro cstr_write_apart) (simp_all add: apart_locals_def)
    then have "cstr m2 p str" unfolding m2_def
      using that r len by (intro cstr_write_apart) (simp_all add: apart_locals_def)
    then show ?thesis using that(2) by (intro cstr_unmap) (auto simp: apart_locals_def sep_def)
  qed
  have "bytes_at m2 (literals s) (assert_format @ [0])"
    unfolding m2_def using r len by (intro write_bytes_at) simp_all
  then have "bytes_at ?u (literals s) (assert_format @ [0])"
    using r len by (intro bytes_at_unmap) (auto simp: sep_def)
  from assert_format_bytes [OF this * [OF assms(2,3)] * [OF assms(4,5)] * [OF assms(6,7)]]
  have "format_bytes ?u (literals s) [e, f, ucast line, n] = Some (assert_message es fs line ns)" .
  moreover have "mapped m1 (c_frame s) 256"
    using bytes_at_mapped [OF write_bytes_at, of "c_frame s" j] r assms(9) by (simp add: m1_def)
  then have "mapped m2 (c_frame s) 256" unfolding m2_def by (rule mapped_write)
  ultimately show ?thesis
    using vsnprintf_shows [of m2 "c_frame s" 256] assms(8) by (simp add: snprintf_def)
qed

lemma restore_frame_write:
  assumes "unat p + length bs \<le> 2 ^ 64" "length cs \<le> length bs"
  shows "restore_range m p (length bs) (write_bytes (write_bytes m p bs) p cs) = m"
  using assms by (intro ext) (auto simp: restore_range_def in_range_def write_bytes_other)

lemma assert_fail_reports:
  assumes "terminal_ok s" "userBuffer (print_frame s) 4096" "locals_room s 256 33"
    "cstr (mem s) e es" "apart_locals s 256 33 e (Suc (length es))"
    "cstr (mem s) f fs" "apart_locals s 256 33 f (Suc (length fs))"
    "cstr (mem s) n ns" "apart_locals s 256 33 n (Suc (length ns))"
    "int (length (assert_message es fs line ns)) \<le> INT_MAX"
  shows "assert_fail s e f line n =
    Some (s\<lparr>terminal := terminal s @ take 255 (assert_message es fs line ns), exit_status := Some 1\<rparr>)"
proof -
  define j where "j = map (junk s) [0..<256]"
  have j: "length j = 256" by (simp add: j_def)
  have len: "length (assert_format @ [0]) = 33" by (simp add: assert_format_def chars_def)
  note r = assms(3) [unfolded locals_room_def]
  define msg where "msg = assert_message es fs line ns"
  define t where "t = take 255 msg @ [0]"
  define m1 where "m1 = write_bytes (mem s) (c_frame s) j"
  define m2 where "m2 = write_bytes m1 (literals s) (assert_format @ [0])"
  have sn: "snprintf m2 (c_frame s) 256 (literals s) [e, f, ucast line, n] =
      Some (int (length msg), write_bytes m2 (c_frame s) t)"
    using assert_fail_snprintf [OF assms(3-10) j] by (simp add: m1_def m2_def t_def msg_def)
  have t: "length t \<le> 256" by (simp add: t_def)
  have m3: "restore_range m1 (literals s) 33 (write_bytes m2 (c_frame s) t) = write_bytes m1 (c_frame s) t"
    using restore_range_write [of "literals s" "assert_format @ [0]" "c_frame s" t m1] r len t
    by (auto simp: m2_def sep_def)
  have "0 \<notin> set msg"
    using assms(4,6,8) unfolding msg_def by (intro assert_message_no_nul) (simp_all add: cstr_def)
  then have "cstr (write_bytes m1 (c_frame s) t) (c_frame s) (take 255 msg)"
    using r t write_bytes_at [of "c_frame s" t m1] by (auto simp: cstr_def t_def dest: in_set_takeD)
  then have sl: "strlen (write_bytes m1 (c_frame s) t) (c_frame s) = Some (of_nat (length (take 255 msg)))"
    "bytes_at (write_bytes m1 (c_frame s) t) (c_frame s) (take 255 msg)"
    by (rule strlen_cstr, simp add: cstr_def)
  have w: "write_stdout (s\<lparr>mem := write_bytes m1 (c_frame s) t\<rparr>) (c_frame s) (of_nat (length (take 255 msg))) =
      Some (int (length (take 255 msg)), s\<lparr>mem := write_bytes m1 (c_frame s) t, terminal := terminal s @ take 255 msg\<rparr>)"
    using sl(2) assms(1,2) by (subst write_stdout_ok [where bs = "take 255 msg"]) (simp_all add: unat_of_nat_small)
  have fin: "restore_range (mem s) (c_frame s) 256 (write_bytes m1 (c_frame s) t) = mem s"
    using restore_frame_write [of "c_frame s" j t "mem s"] r j t by (simp add: m1_def)
  show ?thesis
    using sn m3 sl(1) w fin j len
    by (simp add: assert_fail_def with_locals_def innigkeit_exit_def sys_exit_process_def msg_def
        flip: j_def m1_def m2_def)
qed

section \<open>The properties\<close>

text \<open>
  C35.  printf and fprintf show on the terminal the bytes that the format and its arguments stand
  for, cut after 4095 bytes, and return the uncut length.  The static buffer is the only memory
  they change, and the stream is ignored.
\<close>

theorem printf_prints:
  assumes "prints_ok s" "format_bytes (unmap_range (mem s) (printf_buf s) 4095) fmt args = Some out"
    "int (length out) \<le> INT_MAX"
  shows "\<exists>s'. printf s fmt args = Some (int (length out), s') \<and> fprintf s stream fmt args = printf s fmt args \<and>
    terminal s' = terminal s @ take 4095 out \<and> same_except (mem s) (mem s') (printf_buf s) 4096 \<and>
    s' = s\<lparr>mem := mem s', terminal := terminal s'\<rparr>"
proof -
  have buf: "mapped (mem s) (printf_buf s) 4096" using assms(1) by (simp add: prints_ok_def)
  have "same_except (mem s) (write_bytes (mem s) (printf_buf s) (take 4095 out @ [0])) (printf_buf s) 4096"
    using mapped_bounds [OF buf]
    by (intro same_except_trans [OF same_except_write same_except_refl [of _ "printf_buf s" 0]]) auto
  with vprintf_shows [OF assms] show ?thesis by (simp add: printf_def fprintf_def)
qed

text \<open>
  fputs shows the string followed by a newline, which C does not ask for; a string of more
  than 4096 bytes is lost and only the newline is shown.  The result is zero in both cases.
\<close>

theorem fputs_newline:
  assumes "cstr (mem s) p str" "terminal_ok s" "userBuffer (print_frame s) 4096"
    "0 < unat (literals s)" "unat (literals s) < 2 ^ 64 - 1"
  shows "fputs s p stream =
    Some (0, s\<lparr>terminal := terminal s @ (if length str \<le> 4096 then str else []) @ [10]\<rparr>)"
proof -
  obtain l where l: "strlen (mem s) p = Some l" "unat l = length str" using strlen_cstr_unat [OF assms(1)] by blast
  have nl: "write_literal s' [10] = Some (1, s'\<lparr>terminal := terminal s' @ [10]\<rparr>)"
    if "terminal_ok s'" "print_frame s' = print_frame s" "literals s' = literals s" for s' :: "'a stdio_scheme"
    using that assms(3-5) by (subst write_literal_shows) simp_all
  show ?thesis
  proof (cases "length str \<le> 4096")
    case True
    then have "write_stdout s p l = Some (int (length str), s\<lparr>terminal := terminal s @ str\<rparr>)"
      using assms(1-3) l(2) by (intro write_stdout_ok) (simp_all add: cstr_def)
    then show ?thesis using True l(1) assms(2) by (simp add: fputs_def puts_def nl)
  next
    case False
    then have "mapped (mem s) p 4096" by (intro mapped_less [OF cstr_mapped [OF assms(1)]]) simp
    then have "write_stdout s p l = Some (- 5, s)"
      using False l(2) innigkeit_write_long [of s p l] by (simp add: write_stdout_def to_int_id c_range_defs)
    then show ?thesis using False l(1) assms(2) by (simp add: fputs_def puts_def nl)
  qed
qed

text \<open>
  C36.  A failed assertion shows the expression, the file, the line and the function in the
  documented form, cut after 255 bytes, and ends the process with status 1; the memory the caller
  sees is unchanged.
\<close>

theorem assert_fail_message:
  assumes "terminal_ok s" "userBuffer (print_frame s) 4096" "locals_room s 256 33"
    "cstr (mem s) e es" "apart_locals s 256 33 e (Suc (length es))"
    "cstr (mem s) f fs" "apart_locals s 256 33 f (Suc (length fs))"
    "cstr (mem s) n ns" "apart_locals s 256 33 n (Suc (length ns))"
    "int (length (assert_message es fs line ns)) \<le> INT_MAX"
  shows "assert_fail s e f line n =
    Some (s\<lparr>terminal := terminal s @ take 255 (assert_message es fs line ns), exit_status := Some 1\<rparr>)"
  using assms by (rule assert_fail_reports)

section \<open>Examples\<close>

text \<open>A process with the strings "x", "%u!" and "f", a static buffer and room for locals.\<close>

definition demo_mem :: mem where
  "demo_mem = write_bytes (map_zero Map.empty 0x300000 4096) 0x100000 [120, 0, 37, 117, 33, 0, 102, 0]"

definition demo_stdio :: stdio where
  "demo_stdio = heap.extend (boot_heap\<lparr>mem := demo_mem\<rparr>)
     (stdio.fields 0x300000 0x310000 0x400000 0x410000 (\<lambda>_. 0xAA))"

lemma demo_stdio_simps:
  "mem demo_stdio = demo_mem" "printf_buf demo_stdio = 0x300000" "literals demo_stdio = 0x400000"
  "c_frame demo_stdio = 0x410000" "terminal demo_stdio = []" "terminal_ok demo_stdio"
  "print_frame demo_stdio = 0x7000000"
  by (simp_all add: demo_stdio_def boot_heap_def boot_machine_def heap.defs stdio.defs machine.defs)

lemma demo_frame: "userBuffer (print_frame demo_stdio) 4096"
  by (simp add: demo_stdio_simps userBuffer_iff user_base_def user_end_def)

lemma demo_cstrs: "cstr demo_mem 0x100000 [120]" "cstr demo_mem 0x100006 [102]"
  by (simp_all add: demo_mem_def load8_def)

lemma demo_prints_ok: "prints_ok demo_stdio"
proof -
  have "bytes_at (map_zero Map.empty 0x300000 4096) 0x300000 (replicate 4096 0)" by (rule map_zero_bytes) simp_all
  from bytes_at_mapped [OF this] have "mapped (map_zero Map.empty 0x300000 4096) 0x300000 4096" by simp
  then have "mapped demo_mem 0x300000 4096" unfolding demo_mem_def by (rule mapped_write)
  then show ?thesis using demo_frame by (simp add: prints_ok_def demo_stdio_simps)
qed

lemma demo_format: "format_bytes (unmap_range demo_mem 0x300000 4095) 0x100002 [42] = Some [52, 50, 33]"
proof -
  let ?u = "unmap_range demo_mem 0x300000 4095" and ?is = "[ConvU 42, Txt [33]]"
  have "bytes_at ?u 0x100002 (concat (map item_text ?is) @ [0])"
    by (simp add: demo_mem_def load8_def unmap_range_def in_range_def)
  then have "format_bytes ?u 0x100002 (concat (map item_args ?is)) = Some (concat (map item_out ?is))"
    by (rule format_items) auto
  moreover have "decimal (unat (ucast (42 :: u64) :: u32)) = [52, 50]" by code_simp
  ultimately show ?thesis by simp
qed

theorem printf_prints_witness:
  "\<exists>s'. printf demo_stdio 0x100002 [42] = Some (3, s') \<and> terminal s' = [52, 50, 33]"
  using printf_prints [OF demo_prints_ok, of "0x100002" "[42]" "[52, 50, 33]" 0] demo_format
  by (auto simp: demo_stdio_simps INT_MAX_def)

theorem fputs_newline_witness:
  "fputs demo_stdio 0x100000 0 = Some (0, demo_stdio\<lparr>terminal := [120, 10]\<rparr>)"
  using fputs_newline [of demo_stdio "0x100000" "[120]" 0] demo_cstrs(1) demo_frame by (simp add: demo_stdio_simps)

theorem assert_fail_message_witness:
  "assert_fail demo_stdio 0x100000 0x100006 7 0x100000 =
     Some (demo_stdio\<lparr>terminal := take 255 (assert_message [120] [102] 7 [120]), exit_status := Some 1\<rparr>)"
proof -
  have "int (length (assert_message [120] [102] 7 [120])) \<le> INT_MAX"
    using length_decimal_u32 [of 7] by (simp add: assert_message_def chars_def INT_MAX_def)
  then show ?thesis
    using assert_fail_message [of demo_stdio "0x100000" "[120]" "0x100006" "[102]" "0x100000" "[120]" 7] demo_cstrs demo_frame
    by (simp add: demo_stdio_simps locals_room_def apart_locals_def sep_def)
qed

end
