(* ===== verification/Files.thy ===== *)
theory Files
  imports Stdio
begin

text \<open>
  The file half of the C runtime (\<^verbatim>\<open>apps/doom/innigkeit_libc.c\<close>, lines 277-470): a table of
  sixteen in-memory files, filled from the initial file system or from the data disk when a file
  is opened.  A \<^verbatim>\<open>FILE *\<close> is an index of the table, \<^const>\<open>None\<close> the null pointer.

  \<open>load_from_disk\<close> keeps its local arrays in a frame of 48 bytes: \<^verbatim>\<open>header\<close> at offset 0,
  \<^verbatim>\<open>hdr12\<close> at 16 and \<^verbatim>\<open>name\<close> at 32.  Its read of four bytes behind \<^verbatim>\<open>header\<close> (line 340) gives
  what the frame holds there; the value is overwritten before it is used.
\<close>

record MemFile =
  data :: addr
  fsize :: size_t
  pos :: size_t
  in_use :: bool
  eof :: bool

record files = stdio +
  s_files :: "MemFile list"

type_synonym FILE = "nat option"

definition MAX_FILES :: nat where
  "MAX_FILES = 16"

section \<open>The table\<close>

definition zero_file :: MemFile where
  "zero_file = \<lparr>data = NULL, fsize = 0, pos = 0, in_use = False, eof = False\<rparr>"

fun alloc_scan :: "MemFile list \<Rightarrow> (nat \<times> MemFile list) option" where
  "alloc_scan [] = None"
| "alloc_scan (f # fs) =
     (if \<not> in_use f then Some (0, zero_file\<lparr>in_use := True\<rparr> # fs)
      else do { (i, fs) \<leftarrow> alloc_scan fs; Some (Suc i, f # fs) })"

definition alloc_file :: "'s files_scheme \<Rightarrow> FILE \<times> 's files_scheme" where
  "alloc_file s =
     (case alloc_scan (s_files s) of
        Some (i, fs) \<Rightarrow> (Some i, s\<lparr>s_files := fs\<rparr>)
      | None \<Rightarrow> (None, s))"

definition get_file :: "'s files_scheme \<Rightarrow> nat \<Rightarrow> MemFile option" where
  "get_file s i = (if i < length (s_files s) then Some (s_files s ! i) else None)"

definition put_file :: "'s files_scheme \<Rightarrow> nat \<Rightarrow> MemFile \<Rightarrow> 's files_scheme" where
  "put_file s i f = s\<lparr>s_files := (s_files s)[i := f]\<rparr>"

definition upd_file :: "'s files_scheme \<Rightarrow> nat \<Rightarrow> (MemFile \<Rightarrow> MemFile) \<Rightarrow> 's files_scheme" where
  "upd_file s i g = put_file s i (g (s_files s ! i))"

section \<open>Loading\<close>

definition load_from_initfs :: "'s files_scheme \<Rightarrow> nat \<Rightarrow> addr \<Rightarrow> (bool \<times> 's files_scheme) option" where
  "load_from_initfs s f path =
     do { _ \<leftarrow> strlen (mem s) path;
          c \<leftarrow> load8 (mem s) path;
          let name = (if c = 47 then path + 1 else path);
          nlen \<leftarrow> strlen (mem s) name;
          (sz, s) \<leftarrow> innigkeit_initfs_read s name nlen NULL 0;
          if sz < 0 then Some (False, s)
          else do {
            (d, s) \<leftarrow> innigkeit_mmap s (word_of_int sz + PAGE_SIZE);
            let s = upd_file s f (\<lambda>f. f\<lparr>data := d\<rparr>);
            if d = NULL then Some (False, s)
            else do {
              let s = upd_file s f (\<lambda>f. f\<lparr>fsize := word_of_int sz\<rparr>);
              (got, s) \<leftarrow> innigkeit_initfs_read s name nlen d (word_of_int sz);
              if got < 0 then Some (False, s)
              else Some (True, upd_file s f (\<lambda>f. f\<lparr>fsize := word_of_int got\<rparr>)) } } }"

partial_function (option) disk_read_loop ::
    "'s machine_scheme \<Rightarrow> addr \<Rightarrow> size_t \<Rightarrow> size_t \<Rightarrow> (size_t \<times> 's machine_scheme) option" where
  "disk_read_loop s d tot done =
     (if done < tot then
        do { (r, s) \<leftarrow> innigkeit_blk_read s done (d + done) (if tot - done < 4096 then tot - done else 4096);
             if r \<le> 0 then Some (done, s) else disk_read_loop s d tot (done + word_of_int r) }
      else Some (done, s))"

text \<open>The address of directory entry \<open>i\<close>; the product is a 32-bit one.\<close>

definition dir_entry :: "addr \<Rightarrow> u32 \<Rightarrow> u32 \<Rightarrow> addr" where
  "dir_entry d info_ofs i = d + ucast info_ofs + ucast (i * 16)"

function print_lumps ::
    "'s stdio_scheme \<Rightarrow> addr \<Rightarrow> addr \<Rightarrow> u32 \<Rightarrow> u32 \<Rightarrow> u32 \<Rightarrow> 's stdio_scheme option" where
  "print_lumps s name d info_ofs i shown =
     (if i < shown then
        do { m \<leftarrow> builtin_memcpy (mem s) name (dir_entry d info_ofs i + 8) 8;
             m \<leftarrow> store8 m (name + 8) 0;
             (_, s) \<leftarrow> printf_literal (s\<lparr>mem := m\<rparr>) (chars '' [%.8s]'') [name];
             print_lumps s name d info_ofs (i + 1) shown }
      else Some s)"
  by pat_completeness auto
termination
  by (relation "measure (\<lambda>(s, name, d, off, i, shown). unat shown - unat i)")
    (auto simp: word_less_nat_alt unat_Suc_less diff_less_mono2)

definition memcmp_literal :: "mem \<Rightarrow> addr \<Rightarrow> byte list \<Rightarrow> int option" where
  "memcmp_literal m p l = do { bs \<leftarrow> loadn m p (length l); Some (bytes_cmp bs l) }"

function scan_textures :: "mem \<Rightarrow> addr \<Rightarrow> u32 \<Rightarrow> u32 \<Rightarrow> u32 \<Rightarrow> bool \<Rightarrow> bool \<Rightarrow> (bool \<times> bool) option" where
  "scan_textures m d info_ofs i lump_count t1 t2 =
     (if i < lump_count then
        do { r1 \<leftarrow> memcmp_literal m (dir_entry d info_ofs i + 8) (chars ''TEXTURE1'');
             r2 \<leftarrow> memcmp_literal m (dir_entry d info_ofs i + 8) (chars ''TEXTURE2'');
             scan_textures m d info_ofs (i + 1) lump_count (t1 \<or> r1 = 0) (t2 \<or> r2 = 0) }
      else Some (t1, t2))"
  by pat_completeness auto
termination
  by (relation "measure (\<lambda>(m, d, off, i, n, t1, t2). unat n - unat i)")
    (auto simp: word_less_nat_alt unat_Suc_less diff_less_mono2)

text \<open>The literals \<^verbatim>\<open>"YES"\<close> and \<^verbatim>\<open>"NO"\<close> lie 64 bytes behind the format that takes them.\<close>

definition print_textures :: "'s stdio_scheme \<Rightarrow> bool \<Rightarrow> bool \<Rightarrow> (int \<times> 's stdio_scheme) option" where
  "print_textures s t1 t2 =
     with_locals (literals s + 64) (chars ''YES'' @ [0] @ chars ''NO'' @ [0])
       (\<lambda>s. printf_literal s (chars ''doom: TEXTURE1 in raw WAD: %s  TEXTURE2: %s'' @ [10])
          [literals s + (if t1 then 64 else 68), literals s + (if t2 then 64 else 68)]) s"

definition report_wad ::
    "'s stdio_scheme \<Rightarrow> addr \<Rightarrow> addr \<Rightarrow> addr \<Rightarrow> size_t \<Rightarrow> u32 \<Rightarrow> u32 \<Rightarrow> 's stdio_scheme option" where
  "report_wad s hdr12 name d sz lump_count info_ofs =
     do { (_, s) \<leftarrow> printf_literal s (chars ''doom: loaded WAD from disk: %zu bytes (%u lumps)'' @ [10])
            [sz, ucast lump_count];
          (_, s) \<leftarrow> printf_literal s (chars ''doom: WAD magic=[%.4s] first lumps:'') [hdr12];
          s \<leftarrow> print_lumps s name d info_ofs 0 (if lump_count < 5 then lump_count else 5);
          (t1, t2) \<leftarrow> scan_textures (mem s) d info_ofs 0 lump_count False False;
          (_, s) \<leftarrow> print_textures s t1 t2;
          (_, s) \<leftarrow> printf_literal s [10] [];
          Some s }"

definition wad_total :: "u32 \<Rightarrow> u32 \<Rightarrow> size_t" where
  "wad_total info_ofs lump_count =
     (let t = ucast info_ofs + ucast lump_count * 16 in if t < 12 then 12 else t)"

text \<open>The part of \<open>load_from_disk\<close> behind the header.\<close>

definition load_lumps ::
    "'s files_scheme \<Rightarrow> nat \<Rightarrow> addr \<Rightarrow> addr \<Rightarrow> u32 \<Rightarrow> u32 \<Rightarrow> (bool \<times> 's files_scheme) option" where
  "load_lumps s f hdr12 name lump_count info_ofs =
     (let tot = wad_total info_ofs lump_count in
      do { (d, s) \<leftarrow> innigkeit_mmap s (tot + PAGE_SIZE);
           let s = upd_file s f (\<lambda>f. f\<lparr>data := d\<rparr>);
           if d = NULL then Some (False, s)
           else do {
             let s = upd_file s f (\<lambda>f. f\<lparr>fsize := tot\<rparr>);
             (n, s) \<leftarrow> disk_read_loop s d tot 0;
             let s = upd_file s f (\<lambda>f. f\<lparr>fsize := n\<rparr>);
             s \<leftarrow> report_wad s hdr12 name d n lump_count info_ofs;
             Some (True, s) } })"

definition load_from_disk_body :: "'s files_scheme \<Rightarrow> nat \<Rightarrow> (bool \<times> 's files_scheme) option" where
  "load_from_disk_body s f =
     (let header = c_frame s; hdr12 = c_frame s + 16; name = c_frame s + 32 in
      do { (r, s) \<leftarrow> innigkeit_blk_read s 0 header 8;
           if r < 8 then Some (False, s)
           else do {
             _ \<leftarrow> load32 (mem s) (header + 4);
             _ \<leftarrow> load32 (mem s) (header + 8);
             (r, s) \<leftarrow> innigkeit_blk_read s 0 hdr12 12;
             if r < 12 then Some (False, s)
             else do {
               lump_count \<leftarrow> load32 (mem s) (hdr12 + 4);
               info_ofs \<leftarrow> load32 (mem s) (hdr12 + 8);
               load_lumps s f hdr12 name lump_count info_ofs } } })"

definition load_from_disk :: "'s files_scheme \<Rightarrow> nat \<Rightarrow> (bool \<times> 's files_scheme) option" where
  "load_from_disk s f =
     with_locals (c_frame s) (map (junk s) [0..<48]) (\<lambda>s. load_from_disk_body s f) s"

section \<open>The operations\<close>

definition WAD_DISK_PATH :: "byte list" where
  "WAD_DISK_PATH = chars ''/doom1.wad''"

definition strcmp_literal :: "'s stdio_scheme \<Rightarrow> addr \<Rightarrow> byte list \<Rightarrow> int option" where
  "strcmp_literal s p l = strcmp (write_bytes (mem s) (literals s) (l @ [0])) p (literals s)"

definition is_wad_path :: "'s stdio_scheme \<Rightarrow> addr \<Rightarrow> bool option" where
  "is_wad_path s path =
     do { r \<leftarrow> strcmp_literal s path WAD_DISK_PATH;
          if r = 0 then Some True
          else do { r \<leftarrow> strcmp_literal s path (chars ''doom1.wad''); Some (r = 0) } }"

definition fopen :: "'s files_scheme \<Rightarrow> addr \<Rightarrow> addr \<Rightarrow> (FILE \<times> 's files_scheme) option" where
  "fopen s path mode =
     (case alloc_file s of
        (None, s) \<Rightarrow> Some (None, s)
      | (Some f, s) \<Rightarrow>
          do { wad \<leftarrow> is_wad_path s path;
               (ok, s) \<leftarrow> (if wad then load_from_disk s f else Some (False, s));
               (ok, s) \<leftarrow> (if ok then Some (True, s) else load_from_initfs s f path);
               if ok then Some (Some f, s)
               else Some (None, upd_file s f (\<lambda>f. f\<lparr>in_use := False\<rparr>)) })"

definition fread :: "'s files_scheme \<Rightarrow> addr \<Rightarrow> size_t \<Rightarrow> size_t \<Rightarrow> FILE \<Rightarrow> (size_t \<times> 's files_scheme) option" where
  "fread s ptr sz count stream =
     (case stream of
        None \<Rightarrow> Some (0, s)
      | Some i \<Rightarrow>
          do { f \<leftarrow> get_file s i;
               if \<not> in_use f then Some (0, s)
               else
                 let want = sz * count;
                     avail = (if pos f < fsize f then fsize f - pos f else 0);
                     got = (if want < avail then want else avail) in
                 if got = 0 then Some (0, put_file s i (f\<lparr>eof := True\<rparr>))
                 else do { m \<leftarrow> builtin_memcpy (mem s) ptr (data f + pos f) got;
                           Some (got div sz, put_file (s\<lparr>mem := m\<rparr>) i (f\<lparr>pos := pos f + got\<rparr>)) } })"

definition fwrite :: "'s files_scheme \<Rightarrow> addr \<Rightarrow> size_t \<Rightarrow> size_t \<Rightarrow> FILE \<Rightarrow> (size_t \<times> 's files_scheme) option" where
  "fwrite s ptr sz count stream =
     do { (_, s) \<leftarrow> write_stdout s ptr (sz * count); Some (count, s) }"

definition fseek :: "'s files_scheme \<Rightarrow> FILE \<Rightarrow> int \<Rightarrow> int \<Rightarrow> (int \<times> 's files_scheme) option" where
  "fseek s stream offset whence =
     (case stream of
        None \<Rightarrow> Some (- 1, s)
      | Some i \<Rightarrow>
          do { f \<leftarrow> get_file s i;
               if \<not> in_use f then Some (- 1, s)
               else if whence < 0 \<or> 2 < whence then Some (- 1, s)
               else do {
                 new_pos \<leftarrow> (if whence = 0 then Some offset
                             else if whence = 1 then c_long (sint (pos f) + offset)
                             else c_long (sint (fsize f) + offset));
                 if new_pos < 0 then Some (- 1, s)
                 else Some (0, put_file s i (f\<lparr>pos := word_of_int new_pos, eof := False\<rparr>)) } })"

definition ftell :: "'s files_scheme \<Rightarrow> FILE \<Rightarrow> int option" where
  "ftell s stream =
     (case stream of
        None \<Rightarrow> Some (- 1)
      | Some i \<Rightarrow> do { f \<leftarrow> get_file s i; Some (if in_use f then sint (pos f) else - 1) })"

definition feof :: "'s files_scheme \<Rightarrow> FILE \<Rightarrow> int option" where
  "feof s stream =
     (case stream of None \<Rightarrow> Some 0 | Some i \<Rightarrow> do { f \<leftarrow> get_file s i; Some (of_bool (eof f)) })"

definition ferror :: "FILE \<Rightarrow> int" where
  "ferror stream = 0"

definition fclose :: "'s files_scheme \<Rightarrow> FILE \<Rightarrow> (int \<times> 's files_scheme) option" where
  "fclose s stream =
     (case stream of
        None \<Rightarrow> Some (0, s)
      | Some i \<Rightarrow> do { f \<leftarrow> get_file s i; Some (0, put_file s i (f\<lparr>in_use := False\<rparr>)) })"

definition fflush :: "FILE \<Rightarrow> int" where
  "fflush stream = 0"

function fgets_loop :: "mem \<Rightarrow> MemFile \<Rightarrow> addr \<Rightarrow> int \<Rightarrow> int \<Rightarrow> (int \<times> MemFile \<times> mem) option" where
  "fgets_loop m f buf i n =
     (if i < n - 1 then
        if pos f \<ge> fsize f then Some (i, f\<lparr>eof := True\<rparr>, m)
        else do { c \<leftarrow> load8 m (data f + pos f);
                  m \<leftarrow> store8 m (buf + word_of_int i) c;
                  if c = 10 then Some (i + 1, f\<lparr>pos := pos f + 1\<rparr>, m)
                  else fgets_loop m (f\<lparr>pos := pos f + 1\<rparr>) buf (i + 1) n }
      else Some (i, f, m))"
  by pat_completeness auto
termination
  by (relation "measure (\<lambda>(m, f, buf, i, n). nat (n - 1 - i))") auto

declare fgets_loop.simps [simp del]

definition fgets :: "'s files_scheme \<Rightarrow> addr \<Rightarrow> int \<Rightarrow> FILE \<Rightarrow> (addr \<times> 's files_scheme) option" where
  "fgets s buf n stream =
     (case stream of
        None \<Rightarrow> Some (NULL, s)
      | Some k \<Rightarrow>
          do { f \<leftarrow> get_file s k;
               if n \<le> 1 \<or> eof f then Some (NULL, s)
               else do {
                 (i, f, m) \<leftarrow> fgets_loop (mem s) f buf 0 n;
                 if i = 0 then Some (NULL, put_file (s\<lparr>mem := m\<rparr>) k f)
                 else do { m \<leftarrow> store8 m (buf + word_of_int i) 0;
                           Some (buf, put_file (s\<lparr>mem := m\<rparr>) k f) } } })"

declare print_lumps.simps [simp del] scan_textures.simps [simp del]

section \<open>Streams\<close>

text \<open>
  The contract of a stream that is read in pieces: a read of \<open>n\<close> bytes gives the next \<open>n\<close> of them,
  or what is left.
\<close>

locale byte_stream =
  fixes rd :: "nat \<Rightarrow> 's \<Rightarrow> (byte list \<times> 's) option"
    and rest :: "'s \<Rightarrow> byte list"
    and invar :: "'s \<Rightarrow> bool"
    and limit :: nat
  assumes rd_rest: "invar s \<Longrightarrow> n \<le> limit \<Longrightarrow>
    \<exists>s'. rd n s = Some (take n (rest s), s') \<and> rest s' = drop n (rest s) \<and> invar s'"
begin

primrec rd_list :: "nat list \<Rightarrow> 's \<Rightarrow> (byte list list \<times> 's) option" where
  "rd_list [] s = Some ([], s)"
| "rd_list (n # ns) s = do { (b, s) \<leftarrow> rd n s; (bs, s) \<leftarrow> rd_list ns s; Some (b # bs, s) }"

lemma rd_list_rest:
  "invar s \<Longrightarrow> (\<And>n. n \<in> set ns \<Longrightarrow> n \<le> limit) \<Longrightarrow>
   \<exists>bs s'. rd_list ns s = Some (bs, s') \<and> concat bs = take (sum_list ns) (rest s) \<and>
     rest s' = drop (sum_list ns) (rest s) \<and> invar s'"
proof (induction ns arbitrary: s)
  case (Cons n ns)
  obtain s1 where s1: "rd n s = Some (take n (rest s), s1)" "rest s1 = drop n (rest s)" "invar s1"
    using rd_rest [OF Cons.prems(1), of n] Cons.prems(2) by auto
  obtain bs s2 where s2: "rd_list ns s1 = Some (bs, s2)" "concat bs = take (sum_list ns) (rest s1)"
      "rest s2 = drop (sum_list ns) (rest s1)" "invar s2"
    using Cons.IH [OF s1(3)] Cons.prems(2) by auto
  moreover have "drop (n + sum_list ns) (rest s) = drop (sum_list ns) (drop n (rest s))"
    by (simp add: add.commute)
  ultimately show ?case using s1 by (auto simp: take_add)
qed simp

end

section \<open>Reading\<close>

definition file_holds :: "'s files_scheme \<Rightarrow> nat \<Rightarrow> byte list \<Rightarrow> bool" where
  "file_holds s i bs \<longleftrightarrow> i < length (s_files s) \<and> in_use (s_files s ! i) \<and>
     unat (fsize (s_files s ! i)) = length bs \<and> bytes_at (mem s) (data (s_files s ! i)) bs"

lemma put_file_simps [simp]:
  "s_files (put_file s i f) = (s_files s)[i := f]" "mem (put_file s i f) = mem s"
  "terminal (put_file s i f) = terminal s"
  by (simp_all add: put_file_def)

lemma got_eq:
  fixes want p n :: size_t
  assumes "unat n = length bs"
  defines "avail \<equiv> if p < n then n - p else 0"
  shows "unat (if want < avail then want else avail) = length (take (unat want) (drop (unat p) bs))"
proof -
  have "unat avail = length bs - unat p"
    using assms(1) by (auto simp: avail_def word_less_nat_alt unat_sub word_le_nat_alt)
  then show ?thesis by (auto simp: word_less_nat_alt)
qed

lemma fread_file:
  fixes sz count :: size_t
  assumes "file_holds s i bs"
  defines "f \<equiv> s_files s ! i"
  defines "out \<equiv> take (unat (sz * count)) (drop (unat (pos f)) bs)"
  assumes "mapped (mem s) ptr (length out)" "sep ptr (length out) (data f) (length bs)"
  shows "fread s ptr sz count (Some i) = Some (of_nat (length out) div sz,
    put_file (s\<lparr>mem := write_bytes (mem s) ptr out\<rparr>) i
      (if out = [] then f\<lparr>eof := True\<rparr> else f\<lparr>pos := pos f + of_nat (length out)\<rparr>))"
proof -
  define avail where "avail = (if pos f < fsize f then fsize f - pos f else 0)"
  define got where "got = (if sz * count < avail then sz * count else avail)"
  have fs: "get_file s i = Some f" "in_use f" "unat (fsize f) = length bs" "bytes_at (mem s) (data f) bs"
    using assms(1) by (auto simp: file_holds_def get_file_def f_def)
  have got: "unat got = length out"
    unfolding got_def avail_def out_def by (rule got_eq) (rule fs(3))
  then have got': "got = of_nat (length out)" by (metis of_nat_unat ucast_id)
  have "bytes_at (mem s) (data f + of_nat (unat (pos f))) out"
    unfolding out_def by (rule bytes_at_slice) (rule fs(4))
  then have src: "bytes_at (mem s) (data f + pos f) out" by simp
  show ?thesis
  proof (cases "out = []")
    case True
    with got have "got = 0" by (simp add: unat_eq_zero)
    with True fs show ?thesis by (simp add: fread_def Let_def flip: avail_def got_def)
  next
    case False
    then have "got \<noteq> 0" using got by auto
    have "unat (pos f) < length bs" using False by (auto simp: out_def)
    then have "unat (data f + of_nat (unat (pos f))) = unat (data f) + unat (pos f)"
      using unat_range [OF bytes_at_mapped [OF fs(4)]] by blast
    moreover have "length out \<le> length bs - unat (pos f)" by (simp add: out_def)
    ultimately have "sep ptr (length out) (data f + pos f) (length out)"
      using assms(5) \<open>unat (pos f) < length bs\<close> by (auto simp: sep_def)
    then have "builtin_memcpy (mem s) ptr (data f + pos f) got = Some (write_bytes (mem s) ptr out)"
      using src assms(4) got by (intro memcpy_mapped) simp_all
    with False fs \<open>got \<noteq> 0\<close> got' show ?thesis
      by (simp add: fread_def Let_def flip: avail_def got_def)
  qed
qed

definition file_bytes :: "'s files_scheme \<Rightarrow> nat \<Rightarrow> byte list" where
  "file_bytes s i =
     (case loadn (mem s) (data (s_files s ! i)) (unat (fsize (s_files s ! i))) of Some bs \<Rightarrow> bs | None \<Rightarrow> [])"

definition file_rest :: "'s files_scheme \<Rightarrow> nat \<Rightarrow> byte list" where
  "file_rest s i = drop (unat (pos (s_files s ! i))) (file_bytes s i)"

lemma file_holds_bytes: "file_holds s i bs \<Longrightarrow> file_bytes s i = bs"
  using loadn_bytes_at [of "mem s" "data (s_files s ! i)" bs] by (simp add: file_holds_def file_bytes_def)

text \<open>A read of single bytes through a buffer at \<open>ptr\<close>, and the states in which it works.\<close>

definition read_chunk :: "addr \<Rightarrow> nat \<Rightarrow> nat \<Rightarrow> 's files_scheme \<Rightarrow> (byte list \<times> 's files_scheme) option" where
  "read_chunk ptr i n s =
     do { (k, s') \<leftarrow> fread s ptr 1 (of_nat n) (Some i);
          bs \<leftarrow> loadn (mem s') ptr (unat k);
          Some (bs, s') }"

definition stream_inv :: "addr \<Rightarrow> nat \<Rightarrow> nat \<Rightarrow> 's files_scheme \<Rightarrow> bool" where
  "stream_inv ptr cap i s \<longleftrightarrow> file_holds s i (file_bytes s i) \<and> mapped (mem s) ptr cap \<and>
     sep ptr cap (data (s_files s ! i)) (length (file_bytes s i))"

lemma file_holds_write:
  assumes "file_holds s i bs" "sep ptr (length out) (data (s_files s ! i)) (length bs)"
    "mapped (mem s) ptr (length out)" "data f = data (s_files s ! i)" "fsize f = fsize (s_files s ! i)" "in_use f"
  shows "file_holds (put_file (s\<lparr>mem := write_bytes (mem s) ptr out\<rparr>) i f) i bs"
proof -
  have "bytes_at (write_bytes (mem s) ptr out) (data (s_files s ! i)) bs"
  proof (cases "out = []")
    case False
    then have "same_except (mem s) (write_bytes (mem s) ptr out) ptr (length out)"
      using mapped_bounds [OF assms(3)] by (intro same_except_write) simp
    then show ?thesis using assms(1,2) by (elim same_except_bytes_at) (simp_all add: file_holds_def)
  qed (use assms(1) in \<open>simp add: file_holds_def\<close>)
  then show ?thesis using assms(1,4-6) by (simp add: file_holds_def)
qed

lemma fread_step:
  fixes sz count :: size_t
  assumes "file_holds s i bs" "out = take (unat (sz * count)) (drop (unat (pos (s_files s ! i))) bs)"
    "mapped (mem s) ptr (length out)" "sep ptr (length out) (data (s_files s ! i)) (length bs)"
  shows "\<exists>s'. fread s ptr sz count (Some i) = Some (of_nat (length out) div sz, s') \<and>
    bytes_at (mem s') ptr out \<and> file_holds s' i bs \<and> data (s_files s' ! i) = data (s_files s ! i) \<and>
    unat (pos (s_files s' ! i)) = unat (pos (s_files s ! i)) + length out \<and>
    eof (s_files s' ! i) = (eof (s_files s ! i) \<or> out = []) \<and>
    mem s' = write_bytes (mem s) ptr out"
proof -
  define f where "f = s_files s ! i"
  define f' where "f' = (if out = [] then f\<lparr>eof := True\<rparr> else f\<lparr>pos := pos f + of_nat (length out)\<rparr>)"
  define s' where "s' = put_file (s\<lparr>mem := write_bytes (mem s) ptr out\<rparr>) i f'"
  have i: "i < length (s_files s)" "in_use f" "unat (fsize f) = length bs"
    using assms(1) by (simp_all add: file_holds_def f_def)
  have "fread s ptr sz count (Some i) = Some (of_nat (length out) div sz, s')"
    unfolding s'_def f'_def f_def
    using fread_file [OF assms(1), where sz = sz and count = count and ptr = ptr, folded assms(2)] assms(3,4) by blast
  moreover have "bytes_at (write_bytes (mem s) ptr out) ptr out"
    using mapped_bounds [OF assms(3)] by (cases "out = []") (simp_all add: write_bytes_at)
  moreover have "file_holds s' i bs"
    unfolding s'_def using assms i by (intro file_holds_write) (simp_all add: f'_def f_def)
  moreover have "unat (pos f + of_nat (length out)) = unat (pos f) + length out" if "out \<noteq> []"
  proof (rule unat_plus_of_nat)
    have "unat (pos f) + length out \<le> unat (fsize f)"
      using that i(3) unfolding assms(2) f_def by (auto simp: min_def)
    then show "unat (pos f) + length out < 2 ^ 64" using unat_bound [of "fsize f"] by simp
  qed
  ultimately show ?thesis
    using i(1) by (intro exI [of _ s']) (simp_all add: s'_def f'_def flip: f_def)
qed

lemma read_chunk_rest:
  assumes "stream_inv ptr cap i s" "n \<le> cap"
  shows "\<exists>s'. read_chunk ptr i n s = Some (take n (file_rest s i), s') \<and>
    file_rest s' i = drop n (file_rest s i) \<and> stream_inv ptr cap i s'"
proof -
  define bs where "bs = file_bytes s i"
  define out where "out = take n (file_rest s i)"
  have s: "file_holds s i bs" "mapped (mem s) ptr cap" "sep ptr cap (data (s_files s ! i)) (length bs)"
    using assms(1) by (simp_all add: stream_inv_def bs_def)
  have "cap < 2 ^ 64" using mapped_bounds [OF s(2)] by (cases "cap = 0") auto
  then have n: "unat (of_nat n :: size_t) = n" using assms(2) by (simp add: unat_of_nat_small)
  have out: "out = take (unat (1 * of_nat n :: size_t)) (drop (unat (pos (s_files s ! i))) bs)"
    by (simp add: n out_def file_rest_def bs_def)
  have len: "length out \<le> cap" "length out < 2 ^ 64" using assms(2) \<open>cap < 2 ^ 64\<close> by (auto simp: out_def)
  have "mapped (mem s) ptr (length out)" "sep ptr (length out) (data (s_files s ! i)) (length bs)"
    using mapped_less [OF s(2) len(1)] s(3) len(1) by (auto simp: sep_def)
  from fread_step [OF s(1) out this] obtain s' where
    s': "fread s ptr 1 (of_nat n) (Some i) = Some (of_nat (length out), s')" "bytes_at (mem s') ptr out"
      "file_holds s' i bs" "data (s_files s' ! i) = data (s_files s ! i)"
      "unat (pos (s_files s' ! i)) = unat (pos (s_files s ! i)) + length out" "mem s' = write_bytes (mem s) ptr out"
    by (auto simp: word_div_def)
  have "unat (of_nat (length out) :: size_t) = length out" using len(2) by (simp add: unat_of_nat_small)
  then have "read_chunk ptr i n s = Some (out, s')"
    using s'(1,2) loadn_bytes_at [OF s'(2)] by (simp add: read_chunk_def)
  moreover have "file_rest s' i = drop n (file_rest s i)"
    using s'(5) file_holds_bytes [OF s'(3)] by (auto simp: file_rest_def out_def bs_def min_def add.commute)
  moreover have "stream_inv ptr cap i s'"
    using s' s mapped_write [OF s(2)] file_holds_bytes [OF s'(3)] by (simp add: stream_inv_def)
  ultimately show ?thesis unfolding out_def by blast
qed

interpretation fs: byte_stream "read_chunk ptr i" "\<lambda>s. file_rest s i" "stream_inv ptr cap i" cap for ptr cap i
  by unfold_locales (rule read_chunk_rest)

section \<open>Lines\<close>

text \<open>The bytes up to and including the first newline, at most \<open>k\<close> of them.\<close>

fun first_line :: "nat \<Rightarrow> byte list \<Rightarrow> byte list" where
  "first_line 0 xs = []"
| "first_line (Suc k) [] = []"
| "first_line (Suc k) (x # xs) = x # (if x = 10 then [] else first_line k xs)"

definition runs_out :: "nat \<Rightarrow> byte list \<Rightarrow> bool" where
  "runs_out k xs \<longleftrightarrow> length xs < k \<and> 10 \<notin> set xs"

lemma length_first_line: "length (first_line k xs) \<le> k" "length (first_line k xs) \<le> length xs"
  by (induction k xs rule: first_line.induct) auto

lemma first_line_prefix: "first_line k xs = take (length (first_line k xs)) xs"
  by (induction k xs rule: first_line.induct) auto

lemma bytes_at_write_apart:
  assumes "bytes_at m p bs" "sep q (length cs) p (length bs)" "mapped m q (length cs)"
  shows "bytes_at (write_bytes m q cs) p bs"
proof (cases "cs = []")
  case False
  then have "same_except m (write_bytes m q cs) q (length cs)"
    using mapped_bounds [OF assms(3)] by (intro same_except_write) simp
  then show ?thesis using assms(1,2) by (rule same_except_bytes_at)
qed (use assms(1) in simp)

lemma drop_pos:
  fixes p n :: size_t
  assumes "unat p < length bs" "unat n = length bs"
  shows "drop (unat p) bs = bs ! unat p # drop (unat (p + 1)) bs"
proof -
  have "unat (p + 1) = Suc (unat p)" using assms unat_bound [of n] by (intro unat_plus_one) simp
  then show ?thesis using assms(1) by (simp add: Cons_nth_drop_Suc)
qed

text \<open>One round of the loop of \<^verbatim>\<open>fgets\<close> stores the next byte and stops behind a newline.\<close>

lemma fgets_loop_step:
  assumes "bytes_at m (data f) bs" "unat (fsize f) = length bs" "i + 1 < n" "unat (pos f) < length bs"
    "mapped m (buf + word_of_int i) (Suc k)"
  defines "c \<equiv> bs ! unat (pos f)"
  shows "fgets_loop m f buf i n =
    (if c = 10 then Some (i + 1, f\<lparr>pos := pos f + 1\<rparr>, m(buf + word_of_int i \<mapsto> c))
     else fgets_loop (m(buf + word_of_int i \<mapsto> c)) (f\<lparr>pos := pos f + 1\<rparr>) buf (i + 1) n)"
proof -
  have "load8 m (data f + pos f) = Some c" using bytes_at_nth [OF assms(1,4)] by (simp add: c_def)
  moreover have "store8 m (buf + word_of_int i) c = Some (m(buf + word_of_int i \<mapsto> c))"
    using assms(5) by (simp add: store8_mapped)
  ultimately show ?thesis using assms(2-4) by (simp add: fgets_loop.simps [of m f] word_le_nat_alt)
qed

lemma fgets_loop_line:
  assumes "bytes_at m (data f) bs" "unat (fsize f) = length bs" "n = i + 1 + int k"
    "out = first_line k (drop (unat (pos f)) bs)"
    "mapped m (buf + word_of_int i) (length out)" "sep (buf + word_of_int i) (length out) (data f) (length bs)"
  shows "fgets_loop m f buf i n = Some (i + int (length out),
    f\<lparr>pos := pos f + of_nat (length out), eof := eof f \<or> runs_out k (drop (unat (pos f)) bs)\<rparr>,
    write_bytes m (buf + word_of_int i) out)"
  using assms
proof (induction k arbitrary: m f i out)
  case 0
  then show ?case by (simp add: fgets_loop.simps [of m f] runs_out_def)
next
  case (Suc k)
  show ?case
  proof (cases "unat (pos f) < length bs")
    case False
    then show ?thesis
      using Suc.prems(2-4) by (simp add: fgets_loop.simps [of m f] runs_out_def word_le_nat_alt)
  next
    case True
    define c where "c = bs ! unat (pos f)"
    define rest where "rest = drop (unat (pos f + 1)) bs"
    have dp: "drop (unat (pos f)) bs = c # rest"
      using drop_pos [OF True Suc.prems(2)] by (simp add: c_def rest_def)
    define out' where "out' = (if c = 10 then [] else first_line k rest)"
    have out: "out = c # out'" using Suc.prems(4) by (simp add: dp out'_def)
    let ?b = "buf + word_of_int i" and ?m = "m(buf + word_of_int i \<mapsto> c)"
    have mb: "mapped m ?b (Suc (length out'))" using Suc.prems(5) out by simp
    have loop: "fgets_loop m f buf i n =
        (if c = 10 then Some (i + 1, f\<lparr>pos := pos f + 1\<rparr>, ?m)
         else fgets_loop ?m (f\<lparr>pos := pos f + 1\<rparr>) buf (i + 1) n)"
      using fgets_loop_step [OF Suc.prems(1,2) _ True mb] Suc.prems(3) by (simp add: c_def)
    show ?thesis
    proof (cases "c = 10")
      case nl: True
      then show ?thesis using loop out out'_def dp by (simp add: runs_out_def del: fun_upd_apply)
    next
      case nl: False
      have mp: "mapped ?m (?b + 1) (length out')" using mb by (auto intro: mapped_mono)
      have "?b + 1 = 0 \<Longrightarrow> out' = []" using mapped_bounds [OF mp] by auto
      then have sp: "sep (?b + 1) (length out') (data f) (length bs)"
        using Suc.prems(6) out by (cases "?b + 1 = 0") (auto simp: sep_def unat_Suc_word)
      have "sep ?b (length [c]) (data f) (length bs)" "mapped m ?b (length [c])"
        using Suc.prems(5,6) out by (auto simp: sep_def)
      from bytes_at_write_apart [OF Suc.prems(1) this] have "bytes_at ?m (data f) bs" by simp
      then show ?thesis
        using Suc.IH [of ?m "f\<lparr>pos := pos f + 1\<rparr>" "i + 1" out'] Suc.prems(2,3) nl mp sp loop out dp
        by (simp add: out'_def rest_def runs_out_def ac_simps del: fun_upd_apply)
    qed
  qed
qed

section \<open>The properties\<close>

text \<open>
  C6.  fread copies the next bytes of the file, at most the product of its size arguments, into
  the destination and nowhere else; it advances the position by what it copied and returns the
  number of whole items among them.  The end-of-file mark is set by a read that copies nothing,
  not by one that comes up short.
\<close>

theorem fread_reads:
  fixes sz count :: size_t
  assumes "file_holds s i bs" "unat sz * unat count < 2 ^ 64"
  defines "out \<equiv> take (unat sz * unat count) (drop (unat (pos (s_files s ! i))) bs)"
  assumes "mapped (mem s) ptr (length out)" "sep ptr (length out) (data (s_files s ! i)) (length bs)"
  shows "\<exists>s'. fread s ptr sz count (Some i) = Some (of_nat (length out div unat sz), s') \<and>
    bytes_at (mem s') ptr out \<and> same_except (mem s) (mem s') ptr (length out) \<and> file_holds s' i bs \<and>
    unat (pos (s_files s' ! i)) = unat (pos (s_files s ! i)) + length out \<and>
    feof s' (Some i) = Some (of_bool (eof (s_files s ! i) \<or> out = []))"
proof -
  have w: "unat (sz * count) = unat sz * unat count"
    using assms(2) by (simp add: unat_word_ariths)
  have out: "out = take (unat (sz * count)) (drop (unat (pos (s_files s ! i))) bs)" by (simp add: out_def w)
  have "length out < 2 ^ 64" using assms(2) by (simp add: out_def)
  then have d: "of_nat (length out) div sz = of_nat (length out div unat sz)"
    by (simp add: word_unat_eq_iff unat_div unat_of_nat_small order.strict_trans1 [OF div_le_dividend])
  from fread_step [OF assms(1) out assms(4,5), unfolded d] obtain s' where
    s': "fread s ptr sz count (Some i) = Some (of_nat (length out div unat sz), s')" "bytes_at (mem s') ptr out"
      "file_holds s' i bs" "unat (pos (s_files s' ! i)) = unat (pos (s_files s ! i)) + length out"
      "eof (s_files s' ! i) = (eof (s_files s ! i) \<or> out = [])" "mem s' = write_bytes (mem s) ptr out"
    by blast
  moreover have "same_except (mem s) (mem s') ptr (length out)"
    using s'(6) mapped_bounds [OF assms(4)] by (cases "out = []") (simp_all add: same_except_write)
  ultimately show ?thesis by (auto simp: feof_def get_file_def file_holds_def)
qed

text \<open>
  C12.  Reading a file in pieces: any sequence of reads through a buffer returns consecutive
  pieces of the file, whose concatenation is the part of the file it covers.
\<close>

theorem fread_pieces:
  assumes "stream_inv ptr cap i s" "\<forall>n \<in> set ns. n \<le> cap"
  shows "\<exists>bs s'. fs.rd_list ptr i ns s = Some (bs, s') \<and> concat bs = take (sum_list ns) (file_rest s i) \<and>
    file_rest s' i = drop (sum_list ns) (file_rest s i)"
  using fs.rd_list_rest [OF assms(1), of ns] assms(2) by blast

text \<open>
  C20.  fseek with one of the three origins moves to the origin plus the offset when that is not
  negative, and ftell then gives this position; otherwise it fails and changes nothing.
\<close>

theorem fseek_ftell:
  assumes "get_file s i = Some f" "in_use f" "whence \<in> {0, 1, 2}"
    "origin = (if whence = 0 then 0 else if whence = 1 then sint (pos f) else sint (fsize f))"
    "LONG_MIN \<le> origin + offset" "origin + offset \<le> LONG_MAX"
  shows "\<exists>s'. fseek s (Some i) offset whence = Some (if origin + offset < 0 then - 1 else 0, s') \<and>
    (if origin + offset < 0 then s' = s
     else ftell s' (Some i) = Some (origin + offset) \<and> feof s' (Some i) = Some 0 \<and>
       mem s' = mem s \<and> (\<forall>j. j \<noteq> i \<longrightarrow> get_file s' j = get_file s j))"
proof -
  have i: "i < length (s_files s)" "f = s_files s ! i" using assms(1) by (auto simp: get_file_def split: if_splits)
  have "c_long (origin + offset) = Some (origin + offset)" using assms(5,6) by (simp add: c_long_def)
  then have *: "fseek s (Some i) offset whence =
      (if origin + offset < 0 then Some (- 1, s)
       else Some (0, put_file s i (f\<lparr>pos := word_of_int (origin + offset), eof := False\<rparr>)))"
    using assms(1-4) by (auto simp: fseek_def)
  have "sint (word_of_int (origin + offset) :: size_t) = origin + offset" if "\<not> origin + offset < 0"
    using to_long_id [OF assms(5,6)] by (simp add: to_long_def)
  then show ?thesis
    using * i assms(2) by (auto simp: ftell_def feof_def get_file_def)
qed

text \<open>The position behind the line.\<close>

lemma fgets_pos:
  fixes k :: nat and f :: MemFile
  assumes "unat (fsize f) = length bs"
  defines "out \<equiv> first_line k (drop (unat (pos f)) bs)"
  shows "unat (pos f + of_nat (length out)) = unat (pos f) + length out"
proof (cases "out = []")
  case False
  then have "0 < length out" by simp
  moreover have "length out \<le> length bs - unat (pos f)"
    using length_first_line(2) [of k "drop (unat (pos f)) bs"] by (simp add: out_def)
  ultimately have "unat (pos f) + length out \<le> length bs" by linarith
  then show ?thesis using assms(1) unat_bound [of "fsize f"] by (intro unat_plus_of_nat) simp
qed simp

text \<open>
  C19.  fgets stores the next line with its newline, or as much of it as fits in front of the
  terminator, and moves behind it; at the end of the file it marks that, and returns the null
  pointer when it read nothing.
\<close>

theorem fgets_line:
  assumes "file_holds s i bs" "\<not> eof (s_files s ! i)" "1 < n" "n \<le> INT_MAX"
  defines "rest \<equiv> drop (unat (pos (s_files s ! i))) bs"
  defines "out \<equiv> first_line (nat (n - 1)) rest"
  assumes "mapped (mem s) buf (Suc (length out))" "sep buf (Suc (length out)) (data (s_files s ! i)) (length bs)"
  shows "\<exists>s'. fgets s buf n (Some i) = Some (if out = [] then NULL else buf, s') \<and>
    (out \<noteq> [] \<longrightarrow> bytes_at (mem s') buf (out @ [0])) \<and> same_except (mem s) (mem s') buf (Suc (length out)) \<and>
    file_holds s' i bs \<and> unat (pos (s_files s' ! i)) = unat (pos (s_files s ! i)) + length out \<and>
    (eof (s_files s' ! i) \<longleftrightarrow> runs_out (nat (n - 1)) rest)"
proof -
  define f where "f = s_files s ! i"
  let ?k = "nat (n - 1)" and ?m = "write_bytes (mem s) buf out"
  define f' where "f' = f\<lparr>pos := pos f + of_nat (length out), eof := runs_out ?k rest\<rparr>"
  have f: "get_file s i = Some f" "in_use f" "unat (fsize f) = length bs" "bytes_at (mem s) (data f) bs"
      "i < length (s_files s)" "\<not> eof f"
    using assms(1,2) by (auto simp: file_holds_def get_file_def f_def)
  have mp: "mapped (mem s) buf (length out)" "mapped (mem s) (buf + of_nat (length out)) 1"
    using mapped_append [of "mem s" buf "length out" 1] assms(7) by simp_all
  have sp: "sep buf (length out) (data f) (length bs)" using assms(8) by (auto simp: sep_def f_def)
  have "fgets_loop (mem s) f buf 0 n = Some (0 + int (length out),
      f\<lparr>pos := pos f + of_nat (length out), eof := eof f \<or> runs_out ?k (drop (unat (pos f)) bs)\<rparr>,
      write_bytes (mem s) (buf + word_of_int 0) out)"
    using f(3,4) assms(3) mp(1) sp by (intro fgets_loop_line) (simp_all add: out_def rest_def f_def)
  then have loop: "fgets_loop (mem s) f buf 0 n = Some (int (length out), f', ?m)"
    using f(6) by (simp add: f'_def rest_def f_def)
  have st: "store8 ?m (buf + of_nat (length out)) 0 = Some (write_bytes (mem s) buf (out @ [0]))"
    using mapped_write [OF mp(2), of buf out] by (simp add: store8_mapped write_bytes_append del: fun_upd_apply)
  define w where "w = (if out = [] then [] else out @ [0])"
  define s' where "s' = put_file (s\<lparr>mem := write_bytes (mem s) buf w\<rparr>) i f'"
  have "fgets s buf n (Some i) = Some (if out = [] then NULL else buf, s')"
    using f(1,6) assms(3) loop st by (simp add: fgets_def s'_def w_def)
  moreover have mw: "mapped (mem s) buf (length w)" using assms(7) mp(1) by (simp add: w_def)
  have "bytes_at (mem s') buf (out @ [0])" if "out \<noteq> []"
    using that mapped_bounds [OF mw] write_bytes_at [of buf w "mem s"] by (simp add: s'_def w_def)
  moreover have "same_except (mem s) (mem s') buf (Suc (length out))"
    using mapped_bounds [OF mw] same_except_write [of buf w "mem s"]
    by (cases "out = []") (simp_all add: s'_def w_def)
  moreover have "file_holds s' i bs"
    unfolding s'_def using mw assms(1,8) f(2)
    by (intro file_holds_write) (auto simp: f'_def f_def w_def sep_def)
  moreover have "unat (pos f + of_nat (length out)) = unat (pos f) + length out"
    using fgets_pos [OF f(3), of ?k] by (simp add: out_def rest_def f_def)
  ultimately show ?thesis
    using f(5) by (intro exI [of _ s']) (simp add: s'_def f'_def flip: f_def)
qed

section \<open>Opening a file of the initial file system\<close>

lemma alloc_scan_Some:
  "alloc_scan fs = Some (i, fs') \<Longrightarrow>
   i < length fs \<and> \<not> in_use (fs ! i) \<and> (\<forall>j < i. in_use (fs ! j)) \<and> fs' = fs[i := zero_file\<lparr>in_use := True\<rparr>]"
proof (induction fs arbitrary: i fs')
  case (Cons f fs)
  show ?case
  proof (cases "in_use f")
    case True
    with Cons.prems obtain k gs where "alloc_scan fs = Some (k, gs)" "i = Suc k" "fs' = f # gs"
      by (auto simp: bind_Some_iff)
    with Cons.IH [of k gs] True show ?thesis by (auto simp: less_Suc_eq_0_disj)
  qed (use Cons.prems in auto)
qed simp

lemma alloc_scan_None: "alloc_scan fs = None \<longleftrightarrow> (\<forall>f \<in> set fs. in_use f)"
  by (induction fs) (auto simp: bind_eq_None_conv)

lemma strcmp_literal_eq:
  assumes "cstr (mem s) p str" "0 \<notin> set l" "sep p (Suc (length str)) (literals s) (Suc (length l))"
    "0 < unat (literals s)" "unat (literals s) + Suc (length l) \<le> 2 ^ 64"
  shows "\<exists>r. strcmp_literal s p l = Some r \<and> (r = 0 \<longleftrightarrow> str = l)"
proof -
  let ?m = "write_bytes (mem s) (literals s) (l @ [0])"
  have "cstr ?m p str" using assms by (intro cstr_write_apart) simp_all
  moreover have "cstr ?m (literals s) l"
    using assms write_bytes_at [of "literals s" "l @ [0]" "mem s"] by (simp add: cstr_def)
  ultimately show ?thesis
    using assms(1,2) by (auto simp: strcmp_literal_def strcmp_cstr str_diff_0 cstr_def)
qed

definition wad_path :: "byte list \<Rightarrow> bool" where
  "wad_path p \<longleftrightarrow> p = WAD_DISK_PATH \<or> p = chars ''doom1.wad''"

lemma is_wad_path_eq:
  assumes "cstr (mem s) path p" "sep path (Suc (length p)) (literals s) 11"
    "0 < unat (literals s)" "unat (literals s) + 11 \<le> 2 ^ 64"
  shows "is_wad_path s path = Some (wad_path p)"
proof -
  obtain r1 where r1: "strcmp_literal s path WAD_DISK_PATH = Some r1" "r1 = 0 \<longleftrightarrow> p = WAD_DISK_PATH"
    using strcmp_literal_eq [OF assms(1), of WAD_DISK_PATH] assms(2-4) by (auto simp: WAD_DISK_PATH_def chars_def sep_def)
  obtain r2 where r2: "strcmp_literal s path (chars ''doom1.wad'') = Some r2" "r2 = 0 \<longleftrightarrow> p = chars ''doom1.wad''"
    using strcmp_literal_eq [OF assms(1), of "chars ''doom1.wad''"] assms(2-4) by (auto simp: chars_def sep_def)
  show ?thesis using r1 r2 by (auto simp: is_wad_path_def wad_path_def)
qed

definition strip_slash :: "byte list \<Rightarrow> byte list" where
  "strip_slash p = (case p of c # r \<Rightarrow> if c = 47 then r else p | [] \<Rightarrow> [])"

text \<open>What an open file looks like: its position is at the start.\<close>

definition opened :: "'s files_scheme \<Rightarrow> nat \<Rightarrow> byte list \<Rightarrow> bool" where
  "opened s i bs \<longleftrightarrow> file_holds s i bs \<and> pos (s_files s ! i) = 0 \<and> \<not> eof (s_files s ! i)"

lemma upd_file_simps [simp]:
  "mem (upd_file s i g) = mem s" "s_files (upd_file s i g) = (s_files s)[i := g (s_files s ! i)]"
  "vm_map (upd_file s i g) = vm_map s" "archive (upd_file s i g) = archive s"
  "terminal (upd_file s i g) = terminal s"
  by (simp_all add: upd_file_def put_file_def)

lemma map_zero_bytes_at:
  assumes "bytes_at m p bs" "\<And>x. in_range x a k \<Longrightarrow> m x = None"
  shows "bytes_at (map_zero m a k) p bs"
  using assms(1)
proof (rule bytes_at_cong)
  fix x assume "in_range x p (length bs)"
  then have "m x \<noteq> None"
    using mapped_range [OF bytes_at_mapped [OF assms(1)]] by (fastforce simp: load8_def split: if_splits)
  then show "map_zero m a k x = m x" using assms(2) by (auto simp: map_zero_def)
qed

lemma strip_slash_cstr:
  assumes "cstr m path p" "strip_slash p \<noteq> []" "user_base \<le> unat path" "unat path + length p \<le> user_end"
  obtains c name nl where "load8 m path = Some c" "name = (if c = 47 then path + 1 else path)"
    "cstr m name (strip_slash p)" "strlen m name = Some nl" "unat nl = length (strip_slash p)" "userBuffer name nl"
proof -
  obtain c r where p: "p = c # r" using assms(2) by (cases p) (auto simp: strip_slash_def)
  let ?name = "if c = 47 then path + 1 else path"
  have c: "load8 m path = Some c" "cstr m ?name (strip_slash p)"
    using assms(1) p by (auto simp: strip_slash_def)
  obtain nl where nl: "strlen m ?name = Some nl" "unat nl = length (strip_slash p)"
    using strlen_cstr_unat [OF c(2)] by blast
  have "unat (path + 1) = Suc (unat path)"
    using assms(4) p by (intro unat_plus_one) (simp add: user_end_def)
  then have "userBuffer ?name nl"
    using assms(3,4) nl(2) p by (auto simp: userBuffer_iff strip_slash_def)
  with c nl show ?thesis using that by blast
qed

text \<open>Reading a file of the archive into a fresh mapping.\<close>

lemma initfs_read_into:
  fixes s :: "'s files_scheme"
  assumes "\<forall>x. in_range x d k \<longrightarrow> mem s x = None" "0 < unat d" "unat d + k \<le> 2 ^ 64" "bytes_at (mem s) name nm"
    "nm \<noteq> []" "length nm \<le> 255" "unat nl = length nm" "userBuffer name nl" "findFile s nm = Some content"
    "length content < 2 ^ 63" "unat sz = length content" "length content \<le> k" "userBuffer d sz"
  shows "innigkeit_initfs_read (s\<lparr>mem := map_zero (mem s) d k, s_files := fs\<rparr>) name nl d sz =
    Some (int (length content), s\<lparr>mem := write_bytes (map_zero (mem s) d k) d content, s_files := fs\<rparr>)"
proof -
  let ?s = "s\<lparr>mem := map_zero (mem s) d k, s_files := fs\<rparr>"
  have "bytes_at (mem ?s) name nm" using map_zero_bytes_at [OF assms(4)] assms(1) by simp
  moreover have "mapped (mem ?s) d (length content)"
    using mapped_less [OF bytes_at_mapped [OF map_zero_bytes [OF assms(2,3)]]] assms(12) by simp
  ultimately show ?thesis
    using innigkeit_initfs_read_ok [of ?s name nm nl content sz d] assms(5-11,13)
    by (auto simp: findFile_def unat_eq_zero split: if_splits)
qed

lemma load_from_initfs_ok:
  assumes "cstr (mem s) path p" "strip_slash p \<noteq> []" "length (strip_slash p) \<le> 255"
    "user_base \<le> unat path" "unat path + length p \<le> user_end" "vm_ok (vm_map s)"
    "findFile s (strip_slash p) = Some content" "length content < 2 ^ 62"
    "i < length (s_files s)" "in_use (s_files s ! i)"
  shows "\<exists>ok s'. load_from_initfs s i path = Some (ok, s') \<and> length (s_files s') = length (s_files s) \<and>
    (\<forall>j. j \<noteq> i \<longrightarrow> get_file s' j = get_file s j) \<and> (\<forall>a. mem s a \<noteq> None \<longrightarrow> mem s' a = mem s a) \<and>
    (ok \<longrightarrow> file_holds s' i content \<and> pos (s_files s' ! i) = pos (s_files s ! i) \<and>
      eof (s_files s' ! i) = eof (s_files s ! i))"
proof -
  obtain c name nl where n: "load8 (mem s) path = Some c" "name = (if c = 47 then path + 1 else path)"
      "cstr (mem s) name (strip_slash p)" "strlen (mem s) name = Some nl"
      "unat nl = length (strip_slash p)" "userBuffer name nl"
    by (rule strip_slash_cstr [OF assms(1,2,4,5)])
  have nb: "bytes_at (mem s) name (strip_slash p)" using n(3) by (simp add: cstr_def)
  obtain pl where pl: "strlen (mem s) path = Some pl" using strlen_cstr [OF assms(1)] by blast
  have len: "length content < 2 ^ 63" using assms(8) by simp
  have r1: "innigkeit_initfs_read s name nl NULL 0 = Some (int (length content), s)"
    using innigkeit_initfs_read_ok [OF nb assms(2,3) n(5,6) assms(7) len, of 0 NULL] by simp
  define sz where "sz = (of_nat (length content) :: size_t)"
  have usz: "unat sz = length content" using len by (simp add: sz_def unat_of_nat_small)
  have usz4: "unat (sz + PAGE_SIZE) = length content + 4096"
    using len usz by (subst unat_plus_nowrap) (simp_all add: PAGE_SIZE_def)
  show ?thesis
  proof (cases rule: innigkeit_mmap_cases [OF assms(6), of "sz + PAGE_SIZE"])
    case 1
    then show ?thesis
      using n(1,2,4) pl r1 assms(9)
      by (intro exI [of _ False] exI [of _ "upd_file s i (data_update (\<lambda>_. NULL))"])
        (simp add: load_from_initfs_def sz_def get_file_def)
  next
    case (2 d)
    define k where "k = (unat (sz + PAGE_SIZE) + 4095) div 4096 * 4096"
    note mm = 2 [folded k_def]
    define fs where "fs = (s_files s)[i := (s_files s ! i)\<lparr>data := d, fsize := sz\<rparr>]"
    define s3 where "s3 = s\<lparr>mem := write_bytes (map_zero (mem s) d k) d content, s_files := fs\<rparr>"
    have d: "0 < unat d" "d \<noteq> NULL" "unat d + k \<le> 2 ^ 64" "length content \<le> k"
      using mm(3-5) usz4 by (auto simp: user_base_def user_end_def)
    have "userBuffer d sz" using mm(4,5) d(4) usz by (simp add: userBuffer_iff)
    moreover have "\<forall>x. in_range x d k \<longrightarrow> mem s x = None" using mm(7) by blast
    ultimately have "innigkeit_initfs_read (s\<lparr>mem := map_zero (mem s) d k, s_files := fs\<rparr>) name nl d sz = Some (int (length content), s3)"
      using initfs_read_into [of d k s name "strip_slash p" nl content sz] nb assms(2,3,7) n(5,6) len d usz by (simp add: s3_def)
    then have "load_from_initfs s i path = Some (True, s3)"
      using n(1,2,4) pl r1 mm(1) d(2) assms(9)
      by (simp add: load_from_initfs_def s3_def fs_def sz_def upd_file_def put_file_def)
    moreover have "file_holds s3 i content"
      using assms(9,10) usz d write_bytes_at [of d content] by (simp add: file_holds_def s3_def fs_def)
    moreover have "mem s3 a = mem s a" if "mem s a \<noteq> None" for a
    proof -
      have "\<not> in_range a d k" using mm(7) [of a] that by auto
      moreover from this have "\<not> in_range a d (length content)" using d(4) by (auto simp: in_range_def)
      ultimately show ?thesis
        using d(3,4) by (simp add: s3_def write_bytes_other map_zero_simps)
    qed
    ultimately show ?thesis
      using assms(9) by (intro exI [of _ True] exI [of _ s3]) (simp add: s3_def fs_def get_file_def)
  qed
qed

lemma alloc_file_cases:
  assumes "\<exists>f \<in> set (s_files s). \<not> in_use f"
  obtains i s1 where "alloc_file s = (Some i, s1)" "i < length (s_files s)" "\<not> in_use (s_files s ! i)"
    "s1 = s\<lparr>s_files := (s_files s)[i := zero_file\<lparr>in_use := True\<rparr>]\<rparr>"
proof -
  obtain i fs where "alloc_scan (s_files s) = Some (i, fs)"
    using assms alloc_scan_None [of "s_files s"] by fastforce
  from alloc_scan_Some [OF this] this show ?thesis by (intro that [of i]) (auto simp: alloc_file_def)
qed


section \<open>Reading the data disk\<close>

lemma disk_read_loop_all:
  assumes "data_disk s = Some dv" "disk_ok dv" "unat tot \<le> capacity_sectors dv * 512"
    "length (disk_image dv) < 2 ^ 63" "userBuffer d tot" "mapped (mem s) d (unat tot)" "unat n \<le> unat tot"
  shows "disk_read_loop s d tot n = Some (tot,
    s\<lparr>mem := write_bytes (mem s) (d + n) (take (unat tot - unat n) (drop (unat n) (disk_image dv)))\<rparr>)"
  using assms
proof (induction "unat tot - unat n" arbitrary: s n rule: less_induct)
  case less
  let ?img = "disk_image dv"
  show ?case
  proof (cases "n < tot")
    case False
    then have "n = tot" using less.prems(7) by (simp add: word_less_nat_alt word_unat_eq_iff)
    then show ?thesis by (simp add: disk_read_loop.simps [of s])
  next
    case True
    define c where "c = (if tot - n < 4096 then tot - n else 4096)"
    have un: "unat (tot - n) = unat tot - unat n" using True by (simp add: unat_sub word_le_nat_alt word_less_nat_alt)
    have c: "0 < unat c" "unat n + unat c \<le> unat tot"
      using True un by (auto simp: c_def word_less_nat_alt)
    have nc: "unat (n + c) = unat n + unat c" using c(2) unat_bound [of tot] by (intro unat_plus_nowrap) simp
    have ub: "userBuffer (d + n) c" using userBuffer_sub [OF less.prems(5) c(2)] by simp
    have "mapped (mem s) d (unat n + unat c)" using less.prems(6) c(2) by (rule mapped_less)
    then have mp: "mapped (mem s) (d + n) (unat c)" using mapped_tail [of "mem s" d "unat n" "unat c"] by simp
    let ?x = "take (unat c) (drop (unat n) ?img)"
    let ?s = "s\<lparr>mem := write_bytes (mem s) (d + n) ?x\<rparr>"
    have rd: "innigkeit_blk_read s n (d + n) c = Some (int (unat c), ?s)"
      using less.prems c(2) ub mp by (intro innigkeit_blk_read_ok) simp_all
    have ih: "disk_read_loop ?s d tot (n + c) = Some (tot, ?s\<lparr>mem := write_bytes (mem ?s) (d + (n + c))
        (take (unat tot - unat (n + c)) (drop (unat (n + c)) ?img))\<rparr>)"
      using less.prems c nc mapped_write [OF less.prems(6)]
      by (intro less.hyps) (simp_all add: diff_less_mono2)
    have "length ?img div 512 * 512 \<le> length ?img" by (rule div_times_less_eq_dividend)
    then have "length ?x = unat c" using c(2) less.prems(3) by (simp add: capacity_sectors_def)
    moreover have "take (unat tot - unat n) (drop (unat n) ?img) =
        ?x @ take (unat tot - unat (n + c)) (drop (unat (n + c)) ?img)"
      using c(2) nc take_split [of "unat c" "unat tot - unat n" "drop (unat n) ?img"] by (simp add: ac_simps)
    ultimately have "write_bytes (mem s) (d + n) (take (unat tot - unat n) (drop (unat n) ?img)) =
        write_bytes (mem ?s) (d + (n + c)) (take (unat tot - unat (n + c)) (drop (unat (n + c)) ?img))"
      by (simp add: write_bytes_append ac_simps)
    moreover have "uint c \<noteq> 0" using c(1) by (auto simp: uint_0_iff)
    ultimately show ?thesis
      using True rd ih by (simp add: disk_read_loop.simps [of s] flip: c_def)
  qed
qed

section \<open>Reporting\<close>

text \<open>A step that only prints: it changes the static buffer and a local of \<open>n\<close> bytes at \<open>q\<close>.\<close>

definition shows_only :: "addr \<Rightarrow> nat \<Rightarrow> 's stdio_scheme \<Rightarrow> 's stdio_scheme \<Rightarrow> bool" where
  "shows_only q n s s' \<longleftrightarrow> (\<exists>m t. s' = s\<lparr>mem := m, terminal := terminal s @ t\<rparr> \<and>
     (\<forall>a. m a = mem s a \<or> in_range a (printf_buf s) 4096 \<or> in_range a q n) \<and>
     (\<forall>a. m a = None \<longleftrightarrow> mem s a = None))"

lemma shows_only_refl: "shows_only q n s s"
  unfolding shows_only_def by (intro exI [of _ "mem s"] exI [of _ "[]"]) simp

lemma shows_only_trans:
  assumes "shows_only q n s1 s2" "shows_only q n s2 s3"
  shows "shows_only q n s1 s3"
proof -
  obtain m t where 1: "s2 = s1\<lparr>mem := m, terminal := terminal s1 @ t\<rparr>"
      "\<forall>a. m a = mem s1 a \<or> in_range a (printf_buf s1) 4096 \<or> in_range a q n" "\<forall>a. m a = None \<longleftrightarrow> mem s1 a = None"
    using assms(1) unfolding shows_only_def by blast
  obtain m' t' where 2: "s3 = s2\<lparr>mem := m', terminal := terminal s2 @ t'\<rparr>"
      "\<forall>a. m' a = mem s2 a \<or> in_range a (printf_buf s2) 4096 \<or> in_range a q n" "\<forall>a. m' a = None \<longleftrightarrow> mem s2 a = None"
    using assms(2) unfolding shows_only_def by blast
  have "m' a = mem s1 a \<or> in_range a (printf_buf s1) 4096 \<or> in_range a q n" for a
    using 1(1) 1(2) [rule_format, of a] 2(2) [rule_format, of a] by auto
  moreover have "m' a = None \<longleftrightarrow> mem s1 a = None" for a
    using 1(1) 1(3) [rule_format, of a] 2(3) [rule_format, of a] by simp
  ultimately show ?thesis
    unfolding shows_only_def using 1(1) 2(1) by (intro exI [of _ m'] exI [of _ "t @ t'"]) simp
qed

lemma shows_only_fields:
  assumes "shows_only q n s s'"
  shows "printf_buf s' = printf_buf s" "literals s' = literals s" "c_frame s' = c_frame s"
    "\<And>k. literal_room s' k = literal_room s k" "mapped (mem s') p k = mapped (mem s) p k"
    "prints_ok s' = prints_ok s"
proof -
  obtain m t where m: "s' = s\<lparr>mem := m, terminal := terminal s @ t\<rparr>" "\<forall>a. m a = None \<longleftrightarrow> mem s a = None"
    using assms unfolding shows_only_def by blast
  then show "printf_buf s' = printf_buf s" "literals s' = literals s" "c_frame s' = c_frame s"
    "\<And>k. literal_room s' k = literal_room s k"
    by (simp_all add: literal_room_def)
  have mp: "mapped (mem s') p k = mapped (mem s) p k" for p k
    using m by (intro iffI; elim mapped_mono) simp_all
  then show "mapped (mem s') p k = mapped (mem s) p k" by simp
  show "prints_ok s' = prints_ok s" using mp [of "printf_buf s" 4096] m(1) by (simp add: prints_ok_def)
qed

lemma shows_only_bytes:
  assumes "shows_only q n s s'" "bytes_at (mem s) p bs" "sep p (length bs) (printf_buf s) 4096" "sep p (length bs) q n"
  shows "bytes_at (mem s') p bs"
  using assms(2)
proof (rule bytes_at_cong)
  fix a assume "in_range a p (length bs)"
  then have "\<not> in_range a (printf_buf s) 4096" "\<not> in_range a q n"
    using assms(3,4) by (auto simp: sep_def in_range_def)
  then show "mem s' a = mem s a" using assms(1) unfolding shows_only_def by auto
qed

lemma overlay_cstr:
  assumes "cstr (mem s) p str" "literal_room s (Suc (length fmt))"
    "sep p (Suc (length str)) (literals s) (Suc (length fmt))" "sep p (Suc (length str)) (printf_buf s) 4096"
  shows "cstr (unmap_range (write_bytes (mem s) (literals s) (fmt @ [0])) (printf_buf s) 4095) p str"
  using assms by (intro cstr_unmap cstr_write_apart) (auto simp: literal_room_def sep_def)

lemma literal_room_less: "literal_room s n \<Longrightarrow> k \<le> n \<Longrightarrow> literal_room s k"
  by (auto simp: literal_room_def sep_def)

lemma printf_shows_only:
  assumes "prints_ok s" "fmt = concat (map item_text its)" "literal_room s (Suc (length fmt))"
    "args = concat (map item_args its)" "length (concat (map item_out its)) \<le> 4095"
    "\<And>i. i \<in> set its \<Longrightarrow>
      item_ok (unmap_range (write_bytes (mem s) (literals s) (fmt @ [0])) (printf_buf s) 4095) i"
  shows "\<exists>r s'. printf_literal s fmt args = Some (r, s') \<and> shows_only q n s s'"
proof -
  obtain m where m: "printf_literal s fmt args = Some (int (length (concat (map item_out its))),
      s\<lparr>mem := m, terminal := terminal s @ concat (map item_out its)\<rparr>)"
    "same_except (mem s) m (printf_buf s) 4096" "\<forall>a. m a = None \<longleftrightarrow> mem s a = None"
    using printf_items [OF assms] by blast
  have "shows_only q n s (s\<lparr>mem := m, terminal := terminal s @ concat (map item_out its)\<rparr>)"
    unfolding shows_only_def
    by (intro exI [of _ m] exI [of _ "concat (map item_out its)"]) (use m(2,3) in \<open>auto simp: same_except_def\<close>)
  with m(1) show ?thesis by blast
qed

lemma cstr_takeWhile:
  "bytes_at m p bs \<Longrightarrow> 0 \<in> set bs \<Longrightarrow> cstr m p (takeWhile (\<lambda>c. c \<noteq> 0) bs)"
  by (induction bs arbitrary: p) auto

lemma length_takeWhile_less: "x \<in> set bs \<Longrightarrow> \<not> P x \<Longrightarrow> length (takeWhile P bs) < length bs"
  by (induction bs) auto

text \<open>The local array \<^verbatim>\<open>name\<close> and the directory the lumps are read from.\<close>

definition name_room :: "'s stdio_scheme \<Rightarrow> addr \<Rightarrow> bool" where
  "name_room s name \<longleftrightarrow> mapped (mem s) name 9 \<and> sep name 9 (printf_buf s) 4096 \<and> sep name 9 (literals s) 80"

lemma print_lump:
  assumes "prints_ok s" "literal_room s 80" "name_room s name" "mapped (mem s) e 8" "sep name 8 e 8"
  shows "\<exists>m m' r s'. builtin_memcpy (mem s) name e 8 = Some m \<and> store8 m (name + 8) 0 = Some m' \<and>
    printf_literal (s\<lparr>mem := m'\<rparr>) (chars '' [%.8s]'') [name] = Some (r, s') \<and> shows_only name 9 s s'"
proof -
  obtain bs where bs: "length bs = 8" "bytes_at (mem s) e bs" using mapped_bytes [OF assms(4)] by blast
  have nm: "mapped (mem s) name 9" "0 < unat name" "unat name + 9 \<le> 2 ^ 64"
    using assms(3) mapped_bounds [of "mem s" name 9] by (simp_all add: name_room_def)
  let ?m = "write_bytes (mem s) name bs"
  let ?m' = "write_bytes (mem s) name (bs @ [0])"
  have cp: "builtin_memcpy (mem s) name e 8 = Some ?m"
    using bs assms(5) mapped_less [OF nm(1), of 8] by (intro memcpy_mapped) simp_all
  have "mapped (mem s) (name + of_nat 8) 1" using mapped_tail [of "mem s" name 8 1] nm(1) by simp
  from mapped_write [OF this, of name bs]
  have st: "store8 ?m (name + 8) 0 = Some ?m'"
    using bs(1) by (simp add: store8_mapped write_bytes_append del: fun_upd_apply)
  let ?s = "s\<lparr>mem := ?m'\<rparr>"
  have s0: "shows_only name 9 s ?s"
    unfolding shows_only_def
    using write_bytes_other [of name "bs @ [0]" _ "mem s"] mapped_write_dom [of "mem s" name "bs @ [0]"] bs(1) nm
    by (intro exI [of _ ?m'] exI [of _ "[]"]) auto
  define str where "str = takeWhile (\<lambda>c. c \<noteq> 0) (bs @ [0])"
  have "bytes_at ?m' name (bs @ [0])" using nm bs(1) by (intro write_bytes_at) simp_all
  from cstr_takeWhile [OF this] have cs: "cstr (mem ?s) name str" by (simp add: str_def)
  have ls: "length str \<le> 8"
    using length_takeWhile_less [of 0 "bs @ [0]" "\<lambda>c. c \<noteq> 0"] bs(1) by (simp add: str_def)
  let ?is = "[Txt [32, 91], ConvPS 56 name str, Txt [93]]"
  have "item_ok (unmap_range (write_bytes (mem ?s) (literals ?s) (chars '' [%.8s]'' @ [0])) (printf_buf ?s) 4095) i"
    if "i \<in> set ?is" for i
  proof -
    have "cstr (unmap_range (write_bytes (mem ?s) (literals ?s) (chars '' [%.8s]'' @ [0])) (printf_buf ?s) 4095) name str"
      using cs assms(2,3) ls by (intro overlay_cstr) (auto simp: chars_def literal_room_def name_room_def sep_def)
    then show ?thesis using that by auto
  qed
  then have "\<exists>r s'. printf_literal ?s (chars '' [%.8s]'') [name] = Some (r, s') \<and> shows_only name 9 ?s s'"
    using assms(1,2) ls shows_only_fields(4,6) [OF s0]
    by (intro printf_shows_only [where its = ?is])
      (auto simp: chars_def literal_room_less [OF assms(2)])
  then show ?thesis using cp st shows_only_trans [OF s0] by blast
qed

definition dir_size :: "u32 \<Rightarrow> u32 \<Rightarrow> nat" where
  "dir_size info_ofs lump_count = unat info_ofs + 16 * unat lump_count"

lemma dir_entry_name:
  fixes info_ofs i lump_count :: u32
  assumes "i < lump_count" "unat lump_count < 2 ^ 24"
  defines "k \<equiv> unat info_ofs + 16 * unat i + 8"
  shows "dir_entry d info_ofs i + 8 = d + of_nat k" "k + 8 \<le> dir_size info_ofs lump_count"
proof -
  have i: "unat i < unat lump_count" using assms(1) by (simp add: word_less_nat_alt)
  then have "unat (i * 16) = 16 * unat i" using assms(2) by (simp add: unat_word_ariths)
  then have "ucast (i * 16) = (of_nat (16 * unat i) :: addr)" by (metis of_nat_unat)
  moreover have "ucast info_ofs = (of_nat (unat info_ofs) :: addr)" by simp
  ultimately show "dir_entry d info_ofs i + 8 = d + of_nat k"
    unfolding dir_entry_def k_def by (simp del: of_nat_mult of_nat_unat add: ac_simps)
  show "k + 8 \<le> dir_size info_ofs lump_count" using i by (simp add: dir_size_def k_def)
qed

lemma dir_entry_mapped:
  assumes "i < lump_count" "unat lump_count < 2 ^ 24" "mapped m d (dir_size info_ofs lump_count)"
  shows "mapped m (dir_entry d info_ofs i + 8) 8"
    "unat d \<le> unat (dir_entry d info_ofs i + 8)"
    "unat (dir_entry d info_ofs i + 8) + 8 \<le> unat d + dir_size info_ofs lump_count"
proof -
  define k where "k = unat info_ofs + 16 * unat i + 8"
  note e = dir_entry_name [OF assms(1,2), where info_ofs = info_ofs, folded k_def]
  show "mapped m (dir_entry d info_ofs i + 8) 8"
    unfolding e(1) using mapped_less [OF assms(3) e(2)] by (rule mapped_tail)
  have "unat (d + of_nat k) = unat d + k" using e(2) by (intro unat_range [OF assms(3)]) simp
  then show "unat d \<le> unat (dir_entry d info_ofs i + 8)"
    "unat (dir_entry d info_ofs i + 8) + 8 \<le> unat d + dir_size info_ofs lump_count"
    using e(2) unfolding e(1) by simp_all
qed

lemma print_lumps_shows:
  assumes "prints_ok s" "literal_room s 80" "name_room s name" "unat lump_count < 2 ^ 24"
    "mapped (mem s) d (dir_size info_ofs lump_count)" "sep name 9 d (dir_size info_ofs lump_count)"
    "shown \<le> lump_count"
  shows "\<exists>s'. print_lumps s name d info_ofs i shown = Some s' \<and> shows_only name 9 s s'"
  using assms
proof (induction s name d info_ofs i shown rule: print_lumps.induct)
  case (1 s name d info_ofs i shown)
  show ?case
  proof (cases "i < shown")
    case False
    then show ?thesis using shows_only_refl by (auto simp: print_lumps.simps [of s])
  next
    case True
    let ?e = "dir_entry d info_ofs i + 8"
    have il: "i < lump_count" using True 1(8) by simp
    note e = dir_entry_mapped [OF il 1(5,6)]
    have "sep name 8 ?e 8" using e(2,3) 1(7) by (auto simp: sep_def)
    from print_lump [OF 1(2-4) e(1) this] obtain m m' r s1 where
      p: "builtin_memcpy (mem s) name ?e 8 = Some m" "store8 m (name + 8) 0 = Some m'"
        "printf_literal (s\<lparr>mem := m'\<rparr>) (chars '' [%.8s]'') [name] = Some (r, s1)" "shows_only name 9 s s1" by blast
    note fl = shows_only_fields [OF p(4)]
    have "\<exists>s'. print_lumps s1 name d info_ofs (i + 1) shown = Some s' \<and> shows_only name 9 s1 s'"
      using 1(2-) fl by (intro 1(1) [OF True p(1-3) refl]) (auto simp: name_room_def)
    then obtain s' where "print_lumps s1 name d info_ofs (i + 1) shown = Some s'" "shows_only name 9 s1 s'" by blast
    with p True show ?thesis
      by (intro exI [of _ s'] conjI shows_only_trans [OF p(4)]) (simp_all add: print_lumps.simps [of s])
  qed
qed

lemma scan_textures_returns:
  assumes "unat lump_count < 2 ^ 24" "mapped m d (dir_size info_ofs lump_count)"
  shows "\<exists>t. scan_textures m d info_ofs i lump_count t1 t2 = Some t"
  using assms
proof (induction m d info_ofs i lump_count t1 t2 rule: scan_textures.induct)
  case (1 m d info_ofs i lump_count t1 t2)
  show ?case
  proof (cases "i < lump_count")
    case True
    obtain bs where "loadn m (dir_entry d info_ofs i + 8) 8 = Some bs"
      using mapped_loadn [OF dir_entry_mapped(1) [OF True 1(2,3)]] by blast
    moreover have "length (chars ''TEXTURE1'') = 8" "length (chars ''TEXTURE2'') = 8" by (simp_all add: chars_def)
    ultimately obtain r1 r2 where
      r: "memcmp_literal m (dir_entry d info_ofs i + 8) (chars ''TEXTURE1'') = Some r1"
        "memcmp_literal m (dir_entry d info_ofs i + 8) (chars ''TEXTURE2'') = Some r2"
      by (auto simp: memcmp_literal_def)
    from 1(1) [OF True r 1(2,3)] r True show ?thesis by (auto simp: scan_textures.simps [of m])
  qed (simp add: scan_textures.simps [of m])
qed

lemma with_locals_shows_only:
  fixes s :: "'s stdio_scheme"
  assumes "body (s\<lparr>mem := write_bytes (mem s) q bs\<rparr>) = Some (r, s1)" "unat q + length bs \<le> 2 ^ 64"
    "shows_only p n (s\<lparr>mem := write_bytes (mem s) q bs\<rparr>) s1"
  shows "\<exists>s'. with_locals q bs body s = Some (r, s') \<and> shows_only p n s s'"
proof -
  let ?s0 = "s\<lparr>mem := write_bytes (mem s) q bs\<rparr>"
  obtain m t where m: "s1 = ?s0\<lparr>mem := m, terminal := terminal ?s0 @ t\<rparr>"
      "\<forall>a. m a = mem ?s0 a \<or> in_range a (printf_buf ?s0) 4096 \<or> in_range a p n" "\<forall>a. m a = None \<longleftrightarrow> mem ?s0 a = None"
    using assms(3) unfolding shows_only_def by blast
  let ?m = "restore_range (mem s) q (length bs) m"
  have "with_locals q bs body s = Some (r, s\<lparr>mem := ?m, terminal := terminal s @ t\<rparr>)"
    using assms(1) m(1) by (simp add: with_locals_def)
  moreover have "?m a = mem s a \<or> in_range a (printf_buf s) 4096 \<or> in_range a p n" for a
    using m(2) [rule_format, of a] write_bytes_other [OF assms(2), of a "mem s"] by (auto simp: restore_range_def)
  moreover have "?m a = None \<longleftrightarrow> mem s a = None" for a
    using m(3) [rule_format, of a] write_bytes_other [OF assms(2), of a "mem s"] by (auto simp: restore_range_def)
  ultimately show ?thesis unfolding shows_only_def by blast
qed

lemma literals_unat: "literal_room s 80 \<Longrightarrow> k < 80 \<Longrightarrow> unat (literals s + of_nat k) = unat (literals s) + k"
  by (intro unat_plus_of_nat) (simp add: literal_room_def)

lemma print_textures_shows:
  assumes "prints_ok s" "literal_room s 80"
  shows "\<exists>r s'. print_textures s t1 t2 = Some (r, s') \<and> shows_only q n s s'"
proof -
  define yn where "yn = chars ''YES'' @ [0] @ chars ''NO'' @ [0]"
  define fmt where "fmt = chars ''doom: TEXTURE1 in raw WAD: %s  TEXTURE2: %s'' @ [10]"
  let ?p = "literals s + 64"
  define s0 where "s0 = s\<lparr>mem := write_bytes (mem s) ?p yn\<rparr>"
  define str where "str b = (if b then chars ''YES'' else chars ''NO'')" for b
  define loc where "loc b = literals s + (if b then 64 else 68 :: addr)" for b
  have u: "unat ?p = unat (literals s) + 64" "unat (literals s + 68) = unat (literals s) + 68"
    using literals_unat [OF assms(2), of 64] literals_unat [OF assms(2), of 68] by simp_all
  have room: "unat (literals s) + 80 \<le> 2 ^ 64" "0 < unat (literals s)" "sep (literals s) 80 (printf_buf s) 4096"
    using assms(2) by (simp_all add: literal_room_def)
  have len: "length yn = 7" "length fmt = 44" by (simp_all add: yn_def fmt_def chars_def)
  have "bytes_at (mem s0) ?p yn" unfolding s0_def using u room len by (simp add: write_bytes_at)
  then have cs: "cstr (mem s0) (loc b) (str b)" for b
    by (auto simp: yn_def loc_def str_def cstr_def chars_def add.assoc)
  have ls: "length (str b) \<le> 3" for b by (simp add: str_def chars_def)
  have "mapped (mem s0) (printf_buf s) 4096"
    using assms(1) by (simp add: prints_ok_def s0_def mapped_write)
  then have ok: "prints_ok s0" "literal_room s0 80" using assms by (simp_all add: prints_ok_def s0_def literal_room_def)
  let ?is = "[Txt (chars ''doom: TEXTURE1 in raw WAD: ''), ConvS (loc t1) (str t1), Txt (chars ''  TEXTURE2: ''),
    ConvS (loc t2) (str t2), Txt [10]]"
  have io: "item_ok (unmap_range (write_bytes (mem s0) (literals s0) (fmt @ [0])) (printf_buf s0) 4095) i"
    if "i \<in> set ?is" for i
  proof -
    have "cstr (unmap_range (write_bytes (mem s0) (literals s0) (fmt @ [0])) (printf_buf s0) 4095) (loc b) (str b)" for b
      using u len room ls [of b] literal_room_less [OF ok(2), of 45]
      by (intro overlay_cstr cs) (auto simp: loc_def s0_def sep_def)
    then show ?thesis using that by (auto simp: chars_def)
  qed
  have "\<exists>r s'. printf_literal s0 fmt [loc t1, loc t2] = Some (r, s') \<and> shows_only q n s0 s'"
  proof (rule printf_shows_only [where its = ?is, OF ok(1) _ _ _ _ io])
    show "fmt = concat (map item_text ?is)" by (simp add: fmt_def chars_def)
    show "literal_room s0 (Suc (length fmt))" using literal_room_less [OF ok(2), of 45] len(2) by simp
    show "length (concat (map item_out ?is)) \<le> 4095" using ls [of t1] ls [of t2] by (simp add: chars_def)
  qed simp_all
  then obtain r s1 where "printf_literal s0 fmt [loc t1, loc t2] = Some (r, s1)" "shows_only q n s0 s1" by blast
  then show ?thesis
    using with_locals_shows_only [of "\<lambda>s. printf_literal s fmt [literals s + (if t1 then 64 else 68), literals s + (if t2 then 64 else 68)]" s ?p yn r s1 q n]
      u len room
    by (auto simp: print_textures_def loc_def s0_def yn_def fmt_def)
qed

text \<open>The first two lines of the report.\<close>

lemma report_loaded:
  fixes s :: "'s stdio_scheme"
  assumes "prints_ok s" "literal_room s 80"
  defines "fmt \<equiv> chars ''doom: loaded WAD from disk: %zu bytes (%u lumps)'' @ [10]"
  shows "\<exists>r s'. printf_literal s fmt [sz, ucast (lump_count :: u32)] = Some (r, s') \<and> shows_only name 9 s s'"
proof (rule printf_shows_only [where its = "[Txt (chars ''doom: loaded WAD from disk: ''), ConvZU sz,
    Txt (chars '' bytes (''), ConvU (ucast lump_count), Txt (chars '' lumps)'' @ [10])]", OF assms(1)])
  have "length fmt \<le> 79" by (simp add: fmt_def chars_def)
  then show "literal_room s (Suc (length fmt))" using literal_room_less [OF assms(2)] by simp
qed (use length_decimal_u32 [of "ucast (ucast lump_count :: u64)"] length_decimal_u64 [of sz] in
    \<open>auto simp: fmt_def chars_def\<close>)

lemma report_magic:
  fixes s :: "'s stdio_scheme"
  assumes "prints_ok s" "literal_room s 80" "bytes_at (mem s) hdr12 hdr" "length hdr = 12" "0 \<in> set hdr"
    "sep hdr12 12 (printf_buf s) 4096" "sep hdr12 12 (literals s) 80"
  defines "fmt \<equiv> chars ''doom: WAD magic=[%.4s] first lumps:''"
  shows "\<exists>r s'. printf_literal s fmt [hdr12] = Some (r, s') \<and> shows_only name 9 s s'"
proof -
  define str where "str = takeWhile (\<lambda>c. c \<noteq> 0) hdr"
  have fl: "length fmt \<le> 79" by (simp add: fmt_def chars_def)
  have ls: "length str \<le> 11" using length_takeWhile_less [of 0 hdr "\<lambda>c. c \<noteq> 0"] assms(4,5) by (simp add: str_def)
  have cs: "cstr (mem s) hdr12 str" unfolding str_def using assms(3,5) by (rule cstr_takeWhile)
  have "cstr (unmap_range (write_bytes (mem s) (literals s) (fmt @ [0])) (printf_buf s) 4095) hdr12 str"
    using assms(6,7) ls fl literal_room_less [OF assms(2), of "Suc (length fmt)"]
    by (intro overlay_cstr cs) (auto simp: sep_def)
  then show ?thesis
  proof (intro printf_shows_only [where its = "[Txt (chars ''doom: WAD magic=[''), ConvPS 52 hdr12 str,
      Txt (chars ''] first lumps:'')]", OF assms(1)])
    show "literal_room s (Suc (length fmt))" using literal_room_less [OF assms(2)] fl by simp
    show "fmt = concat (map item_text [Txt (chars ''doom: WAD magic=[''), ConvPS 52 hdr12 str, Txt (chars ''] first lumps:'')])"
      by (simp add: fmt_def chars_def)
  qed (use ls in \<open>auto simp: chars_def\<close>)
qed

lemma report_wad_shows:
  assumes "prints_ok s" "literal_room s 80" "name_room s name" "unat lump_count < 2 ^ 24"
    "mapped (mem s) d (dir_size info_ofs lump_count)" "sep name 9 d (dir_size info_ofs lump_count)"
    "bytes_at (mem s) hdr12 hdr" "length hdr = 12" "0 \<in> set hdr" "sep hdr12 12 (printf_buf s) 4096"
    "sep hdr12 12 (literals s) 80" "sep hdr12 12 name 9"
  shows "\<exists>s'. report_wad s hdr12 name d sz lump_count info_ofs = Some s' \<and> shows_only name 9 s s'"
proof -
  let ?fmt1 = "chars ''doom: loaded WAD from disk: %zu bytes (%u lumps)'' @ [10]"
  let ?fmt2 = "chars ''doom: WAD magic=[%.4s] first lumps:''"
  obtain r1 s1 where s1: "printf_literal s ?fmt1 [sz, ucast lump_count] = Some (r1, s1)" "shows_only name 9 s s1"
    using report_loaded [OF assms(1,2)] by blast
  note f1 = shows_only_fields [OF s1(2)]
  have "bytes_at (mem s1) hdr12 hdr" using shows_only_bytes [OF s1(2) assms(7)] assms(8,10,12) by simp
  then obtain r2 s2 where s2: "printf_literal s1 ?fmt2 [hdr12] = Some (r2, s2)" "shows_only name 9 s1 s2"
    using report_magic [of s1 hdr12 hdr name] f1 assms(1,2,8-11) by auto
  note t2 = shows_only_trans [OF s1(2) s2(2)]
  note f2 = shows_only_fields [OF t2]
  have "(if lump_count < 5 then lump_count else 5) \<le> lump_count" by (simp add: not_less)
  then obtain s3 where s3: "print_lumps s2 name d info_ofs 0 (if lump_count < 5 then lump_count else 5) = Some s3"
      "shows_only name 9 s2 s3"
    using print_lumps_shows [of s2 name lump_count d info_ofs "if lump_count < 5 then lump_count else 5" 0] f2 assms(1-6)
    by (auto simp: name_room_def)
  note t3 = shows_only_trans [OF t2 s3(2)]
  note f3 = shows_only_fields [OF t3]
  obtain a b where sc: "scan_textures (mem s3) d info_ofs 0 lump_count False False = Some (a, b)"
    using scan_textures_returns [OF assms(4), of "mem s3" d info_ofs 0 False False] f3 assms(5) by auto
  obtain r4 s4 where s4: "print_textures s3 a b = Some (r4, s4)" "shows_only name 9 s3 s4"
    using print_textures_shows [of s3 a b name 9] f3 assms(1,2) by auto
  note t4 = shows_only_trans [OF t3 s4(2)]
  note f4 = shows_only_fields [OF t4]
  obtain r5 s5 where s5: "printf_literal s4 [10] [] = Some (r5, s5)" "shows_only name 9 s4 s5"
    using printf_shows_only [of s4 "[10]" "[Txt [10]]" "[]" name 9] f4 literal_room_less [OF assms(2), of "Suc (Suc 0)"] assms(1)
    by auto
  have "report_wad s hdr12 name d sz lump_count info_ofs = Some s5"
    using s1(1) s2(1) s3(1) sc s4(1) s5(1) by (simp add: report_wad_def)
  then show ?thesis using shows_only_trans [OF t4 s5(2)] by blast
qed

section \<open>Loading the WAD\<close>

definition wad_lumps :: "byte list \<Rightarrow> u32" where
  "wad_lumps img = le_word (take 4 (drop 4 img))"

definition wad_dir :: "byte list \<Rightarrow> u32" where
  "wad_dir img = le_word (take 4 (drop 8 img))"

definition wad_size :: "byte list \<Rightarrow> nat" where
  "wad_size img = max 12 (dir_size (wad_dir img) (wad_lumps img))"

lemma wad_total_unat: "unat (wad_total info_ofs lump_count) = max 12 (dir_size info_ofs lump_count)"
proof -
  have b: "unat info_ofs < 2 ^ 32" "unat lump_count < 2 ^ 32"
    using unsigned_less [of info_ofs, where 'a = nat] unsigned_less [of lump_count, where 'a = nat] by simp_all
  have "unat (ucast info_ofs + ucast lump_count * 16 :: size_t) = unat info_ofs + 16 * unat lump_count"
    using b by (simp add: unat_word_ariths unsigned_ucast_eq take_bit_nat_eq_self)
  then show ?thesis by (auto simp: wad_total_def dir_size_def Let_def word_less_nat_alt)
qed

lemma le_word_4_high:
  assumes "length bs = 4" "unat (le_word bs :: u32) < 2 ^ 24"
  shows "bs ! 3 = 0"
proof -
  obtain a b c d where bs: "bs = [a, b, c, d]" using assms(1) by (auto simp: length_Suc_conv eval_nat_numeral)
  have l: "unat x < 256" for x :: byte using unsigned_less [of x, where 'a = nat] by simp
  have u: "unat (ucast x :: u32) = unat x" for x :: byte
    using l [of x] by (simp add: unsigned_ucast_eq take_bit_nat_eq_self)
  have "unat (le_word bs :: u32) = unat a + 256 * (unat b + 256 * (unat c + 256 * unat d))"
    using l [of a] l [of b] l [of c] l [of d] by (simp add: bs unat_word_ariths u)
  moreover have "unat (le_word bs :: u32) < 16777216" using assms(2) by simp
  moreover have "z = 0" if "v = w + 256 * (x + 256 * (y + 256 * z))" "v < 16777216" for v w x y z :: nat
    using that by (cases z) simp_all
  ultimately have "unat d = 0" by blast
  then show ?thesis by (simp add: bs unat_eq_zero)
qed

lemma mapped_load32: "mapped m p 4 \<Longrightarrow> \<exists>w. load32 m p = Some w"
  using mapped_loadn [of m p 4] by (auto simp: load32_def)

lemma load32_at:
  assumes "bytes_at m p bs" "k + 4 \<le> length bs"
  shows "load32 m (p + of_nat k) = Some (le_word (take 4 (drop k bs)))"
  using loadn_bytes_at [OF bytes_at_slice [OF assms(1), of k 4]] assms(2) by (simp add: load32_def)

lemma sep_fresh:
  assumes "mapped m p n" "\<And>x. in_range x a k \<Longrightarrow> m x = None" "0 < n" "0 < k"
  shows "sep p n a k"
proof (rule ccontr)
  assume "\<not> sep p n a k"
  then have "in_range (if unat p \<le> unat a then a else p) p n" "in_range (if unat p \<le> unat a then a else p) a k"
    using assms(3,4) by (auto simp: sep_def in_range_def)
  moreover from this(2) have "m (if unat p \<le> unat a then a else p) = None" by (rule assms(2))
  ultimately show False
    using mapped_range [OF assms(1)] by (fastforce simp: load8_def split: if_splits)
qed

lemma map_zero_mapped:
  assumes "0 < unat a" "unat a + k \<le> 2 ^ 64"
  shows "mapped (map_zero m a k) a k" "mapped m p n \<Longrightarrow> mapped (map_zero m a k) p n"
proof -
  show "mapped (map_zero m a k) a k" using bytes_at_mapped [OF map_zero_bytes [OF assms]] by simp
  show "mapped m p n \<Longrightarrow> mapped (map_zero m a k) p n" by (erule mapped_mono) (simp add: map_zero_def)
qed

text \<open>Where the frame of \<open>load_from_disk\<close> may lie.\<close>

definition disk_frame :: "'s stdio_scheme \<Rightarrow> bool" where
  "disk_frame s \<longleftrightarrow> userBuffer (c_frame s) 48 \<and> sep (c_frame s) 48 (printf_buf s) 4096 \<and>
     sep (c_frame s) 48 (literals s) 80"

lemma disk_frame_parts:
  assumes "disk_frame s" "mapped (mem s) (c_frame s) 48" "k + n \<le> 48" "k < 48"
  shows "mapped (mem s) (c_frame s + of_nat k) n" "unat (c_frame s + of_nat k) = unat (c_frame s) + k"
    "userBuffer (c_frame s + of_nat k) (of_nat n)" "sep (c_frame s + of_nat k) n (printf_buf s) 4096"
    "sep (c_frame s + of_nat k) n (literals s) 80"
proof -
  show u: "unat (c_frame s + of_nat k) = unat (c_frame s) + k" using assms(2,4) by (rule unat_range)
  show "mapped (mem s) (c_frame s + of_nat k) n" using mapped_less [OF assms(2,3)] by (rule mapped_tail)
  show "userBuffer (c_frame s + of_nat k) (of_nat n)"
    using assms(1,3) by (intro userBuffer_sub [of _ 48]) (simp_all add: disk_frame_def)
  show "sep (c_frame s + of_nat k) n (printf_buf s) 4096" "sep (c_frame s + of_nat k) n (literals s) 80"
    using assms(1,3) u by (auto simp: disk_frame_def sep_def)
qed

lemma upd_file_scheme:
  "data_disk (upd_file s i g) = data_disk s" "printf_buf (upd_file s i g) = printf_buf s"
  "literals (upd_file s i g) = literals s" "c_frame (upd_file s i g) = c_frame s"
  "terminal_ok (upd_file s i g) = terminal_ok s" "print_frame (upd_file s i g) = print_frame s"
  by (simp_all add: upd_file_def put_file_def)

text \<open>The two header reads.\<close>

lemma disk_header:
  assumes "data_disk s = Some dv" "disk_ok dv" "length (disk_image dv) < 2 ^ 63" "12 \<le> capacity_sectors dv * 512"
    "disk_frame s" "mapped (mem s) (c_frame s) 48"
  defines "img \<equiv> disk_image dv"
  obtains m2 where
    "load_from_disk_body s f =
      load_lumps (s\<lparr>mem := m2\<rparr>) f (c_frame s + 16) (c_frame s + 32) (wad_lumps img) (wad_dir img)"
    "bytes_at m2 (c_frame s + 16) (take 12 img)" "same_except (mem s) m2 (c_frame s) 48"
    "\<And>a. m2 a = None \<longleftrightarrow> mem s a = None"
proof -
  have cap: "12 \<le> length img"
    using assms(4) div_times_less_eq_dividend [of "length img" 512] by (simp add: capacity_sectors_def img_def)
  note p0 = disk_frame_parts [OF assms(5,6), of 0 8, simplified]
  note p16 = disk_frame_parts [OF assms(5,6), of 16 12, simplified]
  define m1 where "m1 = write_bytes (mem s) (c_frame s) (take 8 img)"
  define m2 where "m2 = write_bytes m1 (c_frame s + 16) (take 12 img)"
  have r1: "innigkeit_blk_read s 0 (c_frame s) 8 = Some (8, s\<lparr>mem := m1\<rparr>)"
    using innigkeit_blk_read_ok [of s dv 0 8 "c_frame s"] assms(1-4) p0 by (simp add: m1_def img_def)
  have m1p: "mapped m1 (c_frame s + of_nat k) n" if "k + n \<le> 48" "k < 48" for k n
    unfolding m1_def using disk_frame_parts(1) [OF assms(5,6) that] by (rule mapped_write)
  obtain w1 w2 where w: "load32 m1 (c_frame s + 4) = Some w1" "load32 m1 (c_frame s + 8) = Some w2"
    using mapped_load32 [OF m1p [of 4 4]] mapped_load32 [OF m1p [of 8 4]] by auto
  have r2: "innigkeit_blk_read (s\<lparr>mem := m1\<rparr>) 0 (c_frame s + 16) 12 = Some (12, s\<lparr>mem := m2\<rparr>)"
    using innigkeit_blk_read_ok [of "s\<lparr>mem := m1\<rparr>" dv 0 12 "c_frame s + 16"] assms(1-4) p16 m1p [of 16 12]
    by (simp add: m2_def img_def)
  have b: "0 < unat (c_frame s)" "unat (c_frame s) + 48 \<le> 2 ^ 64" using mapped_bounds [OF assms(6)] by simp_all
  have hb: "bytes_at m2 (c_frame s + 16) (take 12 img)"
    unfolding m2_def using p16(2) b cap by (intro write_bytes_at) simp_all
  have l: "load32 m2 (c_frame s + 16 + 4) = Some (wad_lumps img)" "load32 m2 (c_frame s + 16 + 8) = Some (wad_dir img)"
    using load32_at [OF hb, of 4] load32_at [OF hb, of 8] cap
    by (simp_all add: wad_lumps_def wad_dir_def drop_take)
  have "same_except (mem s) m1 (c_frame s) 8" "same_except m1 m2 (c_frame s + 16) 12"
    unfolding m1_def m2_def using same_except_write [of "c_frame s" "take 8 img" "mem s"]
      same_except_write [of "c_frame s + 16" "take 12 img" m1] b p16(2) cap by (simp_all add: m1_def)
  then have se: "same_except (mem s) m2 (c_frame s) 48"
    by (rule same_except_trans) (use p16(2) in simp_all)
  have dm: "m2 a = None \<longleftrightarrow> mem s a = None" for a
    using mapped_write_dom [of "mem s" "c_frame s" "take 8 img" a] p0(1)
      mapped_write_dom [of m1 "c_frame s + 16" "take 12 img" a] m1p [of 16 12] cap by (simp add: m1_def m2_def)
  have "load_from_disk_body s f =
      load_lumps (s\<lparr>mem := m2\<rparr>) f (c_frame s + 16) (c_frame s + 32) (wad_lumps img) (wad_dir img)"
    using r1 w r2 l by (simp add: load_from_disk_body_def Let_def)
  then show ?thesis using hb se dm by (rule that)
qed

text \<open>The memory behind \<open>d\<close> after the lumps were read there.\<close>

lemma lumps_memory:
  fixes m :: mem and tot :: size_t
  assumes "0 < unat d" "unat d + k \<le> 2 ^ 64" "unat tot \<le> k" "\<forall>x. in_range x d k \<longrightarrow> m x = None" "0 < unat tot"
    "length bs = unat tot"
  defines "m' \<equiv> write_bytes (map_zero m d k) d bs"
  shows "mapped m' d k" "bytes_at m' d bs" "\<And>p n. mapped m p n \<Longrightarrow> mapped m' p n"
    "\<And>p cs. bytes_at m p cs \<Longrightarrow> bytes_at m' p cs" "\<And>p n. mapped m p n \<Longrightarrow> 0 < n \<Longrightarrow> sep p n d k"
    "\<And>a. m a \<noteq> None \<Longrightarrow> m' a = m a"
proof -
  show "mapped m' d k" unfolding m'_def by (rule mapped_write [OF map_zero_mapped(1) [OF assms(1,2)]])
  show "bytes_at m' d bs" unfolding m'_def using assms(1-3,6) by (intro write_bytes_at) simp_all
  show "mapped m' p n" if "mapped m p n" for p n
    unfolding m'_def by (rule mapped_write [OF map_zero_mapped(2) [OF assms(1,2) that]])
  show *: "m' a = m a" if "m a \<noteq> None" for a
  proof -
    have "\<not> in_range a d k" using assms(4) that by auto
    moreover from this have "\<not> in_range a d (length bs)" using assms(3,6) by (auto simp: in_range_def)
    ultimately show ?thesis
      using assms(2,3,6) by (simp add: m'_def write_bytes_other map_zero_simps)
  qed
  show "bytes_at m' p cs" if "bytes_at m p cs" for p cs
    using that
  proof (rule bytes_at_cong)
    fix a assume "in_range a p (length cs)"
    then have "m a \<noteq> None"
      using mapped_range [OF bytes_at_mapped [OF that]] by (fastforce simp: load8_def split: if_splits)
    then show "m' a = m a" by (rule *)
  qed
  show "sep p n d k" if "mapped m p n" "0 < n" for p n
    using that assms(3,4,5) by (intro sep_fresh [of m]) auto
qed

text \<open>A directory of less than 2^24 lumps leaves a zero byte in the header.\<close>

lemma header_zero:
  assumes "unat (wad_lumps img) < 2 ^ 24" "12 \<le> length img"
  shows "0 \<in> set (take 12 img)"
proof -
  have "take 4 (drop 4 img) ! 3 = 0"
    using assms by (intro le_word_4_high) (simp_all add: wad_lumps_def)
  then have "take 12 img ! 7 = 0" using assms(2) by simp
  moreover have "7 < length (take 12 img)" using assms(2) by simp
  ultimately show ?thesis by (metis nth_mem)
qed

lemma load_lumps_report:
  fixes s :: "'s files_scheme"
  assumes "unat (wad_lumps img) < 2 ^ 24" "wad_size img \<le> length img" "disk_frame s"
    "mapped (mem s) (c_frame s) 48" "prints_ok s" "literal_room s 80"
    "bytes_at (mem s) (c_frame s + 16) (take 12 img)" "mapped (mem s) d (wad_size img)"
    "sep (c_frame s) 48 d (wad_size img)"
  shows "\<exists>s'. report_wad s (c_frame s + 16) (c_frame s + 32) d sz (wad_lumps img) (wad_dir img) = Some s' \<and>
    shows_only (c_frame s + 32) 9 s s'"
proof -
  have ds: "dir_size (wad_dir img) (wad_lumps img) \<le> wad_size img" "12 \<le> wad_size img"
    by (simp_all add: wad_size_def)
  note p16 = disk_frame_parts [OF assms(3,4), of 16 12, simplified]
  note p32 = disk_frame_parts [OF assms(3,4), of 32 9, simplified]
  show ?thesis
  proof (rule report_wad_shows [OF assms(5,6) _ assms(1) _ _ assms(7)])
    show "name_room s (c_frame s + 32)" using p32 by (simp add: name_room_def)
    show "mapped (mem s) d (dir_size (wad_dir img) (wad_lumps img))" using assms(8) ds(1) by (rule mapped_less)
    show "sep (c_frame s + 32) 9 d (dir_size (wad_dir img) (wad_lumps img))"
      using assms(9) ds(1) p32(2) by (auto simp: sep_def)
    show "length (take 12 img) = 12" using assms(2) ds(2) by simp
    show "0 \<in> set (take 12 img)" using assms(1,2) ds(2) by (intro header_zero) simp_all
    show "sep (c_frame s + 16) 12 (c_frame s + 32) 9" using p16(2) p32(2) by (simp add: sep_def)
  qed (use p16 in simp_all)
qed

text \<open>Loading into the mapping \<open>d\<close>: the file gets its bytes, and what is left is the report.\<close>

lemma load_lumps_read:
  fixes s :: "'s files_scheme"
  assumes "data_disk s = Some dv" "disk_ok dv" "length (disk_image dv) < 2 ^ 63"
    "wad_size (disk_image dv) \<le> capacity_sectors dv * 512" "i < length (s_files s)"
    "innigkeit_mmap s (wad_total (wad_dir (disk_image dv)) (wad_lumps (disk_image dv)) + PAGE_SIZE) =
       Some (d, s\<lparr>mem := map_zero (mem s) d k\<rparr>)"
  defines "img \<equiv> disk_image dv"
  defines "tot \<equiv> wad_total (wad_dir img) (wad_lumps img)"
  assumes "0 < unat d" "unat d + k \<le> 2 ^ 64" "unat tot \<le> k" "userBuffer d tot"
  shows "load_lumps s i hdr12 name (wad_lumps img) (wad_dir img) =
    do { s \<leftarrow> report_wad (s\<lparr>mem := write_bytes (map_zero (mem s) d k) d (take (wad_size img) img),
             s_files := (s_files s)[i := (s_files s ! i)\<lparr>data := d, fsize := tot\<rparr>]\<rparr>) hdr12 name d tot
           (wad_lumps img) (wad_dir img);
         Some (True, s) }"
proof -
  have ut: "unat tot = wad_size img" by (simp add: tot_def wad_total_unat wad_size_def)
  define f where "f = (s_files s ! i)\<lparr>data := d, fsize := tot\<rparr>"
  define s2 where "s2 = s\<lparr>mem := map_zero (mem s) d k, s_files := (s_files s)[i := f]\<rparr>"
  have "disk_read_loop s2 d tot 0 = Some (tot, s2\<lparr>mem := write_bytes (map_zero (mem s) d k) d (take (wad_size img) img)\<rparr>)"
    using disk_read_loop_all [of s2 dv tot d 0] assms(1-4,12) ut mapped_less [OF map_zero_mapped(1) [OF assms(9,10)] assms(11)]
    by (simp add: s2_def img_def)
  moreover have "d \<noteq> NULL" using assms(9) by auto
  ultimately show ?thesis
    using assms(5,6) by (simp add: load_lumps_def Let_def s2_def f_def upd_file_def put_file_def flip: tot_def img_def)
qed

text \<open>A report leaves the files as they are, and the bytes of those that are apart from its memory.\<close>

lemma shows_only_file:
  fixes s :: "'s files_scheme"
  assumes "shows_only (p + 32) 9 s s'" "unat (p + 32) = unat p + 32" "file_holds s i bs"
  shows "sep p 48 (data (s_files s ! i)) (length bs) \<Longrightarrow> sep (printf_buf s) 4096 (data (s_files s ! i)) (length bs) \<Longrightarrow>
      file_holds s' i bs" "s_files s' = s_files s"
    "mem s' a = mem s a \<or> in_range a p 48 \<or> in_range a (printf_buf s) 4096"
proof -
  obtain m t where m: "s' = s\<lparr>mem := m, terminal := terminal s @ t\<rparr>"
      "m a = mem s a \<or> in_range a (printf_buf s) 4096 \<or> in_range a (p + 32) 9"
    using assms(1) by (auto simp: shows_only_def)
  show f: "s_files s' = s_files s" by (simp add: m(1))
  show "mem s' a = mem s a \<or> in_range a p 48 \<or> in_range a (printf_buf s) 4096"
    using m assms(2) by (auto simp: in_range_def)
  assume "sep p 48 (data (s_files s ! i)) (length bs)" "sep (printf_buf s) 4096 (data (s_files s ! i)) (length bs)"
  then have "bytes_at (mem s') (data (s_files s ! i)) bs"
    using shows_only_bytes [OF assms(1), of "data (s_files s ! i)" bs] assms(2,3) by (auto simp: file_holds_def sep_def)
  then show "file_holds s' i bs" using assms(3) f by (simp add: file_holds_def)
qed

lemma load_lumps_ok:
  fixes s :: "'s files_scheme"
  assumes "data_disk s = Some dv" "disk_ok dv" "length (disk_image dv) < 2 ^ 63"
  defines "img \<equiv> disk_image dv"
  defines "frame \<equiv> c_frame s"
  assumes "unat (wad_lumps img) < 2 ^ 24" "wad_size img \<le> capacity_sectors dv * 512" "disk_frame s"
    "mapped (mem s) frame 48" "prints_ok s" "literal_room s 80" "vm_ok (vm_map s)" "i < length (s_files s)"
    "in_use (s_files s ! i)" "bytes_at (mem s) (frame + 16) (take 12 img)"
  shows "\<exists>ok s'. load_lumps s i (frame + 16) (frame + 32) (wad_lumps img) (wad_dir img) = Some (ok, s') \<and>
    length (s_files s') = length (s_files s) \<and> (\<forall>j. j \<noteq> i \<longrightarrow> get_file s' j = get_file s j) \<and>
    (\<forall>a. mem s a \<noteq> None \<longrightarrow> mem s' a = mem s a \<or> in_range a frame 48 \<or> in_range a (printf_buf s) 4096) \<and>
    (ok \<longrightarrow> file_holds s' i (take (wad_size img) img) \<and> sep frame 48 (data (s_files s' ! i)) (wad_size img) \<and>
      pos (s_files s' ! i) = pos (s_files s ! i) \<and> eof (s_files s' ! i) = eof (s_files s ! i)) \<and>
    (ok \<or> innigkeit_mmap s (of_nat (wad_size img) + PAGE_SIZE) = Some (NULL, s))"
proof -
  define tot where "tot = wad_total (wad_dir img) (wad_lumps img)"
  have ut: "unat tot = wad_size img" by (simp add: tot_def wad_total_unat wad_size_def)
  then have tw: "tot = of_nat (wad_size img)" by (metis of_nat_unat ucast_id)
  have cap: "wad_size img \<le> length img"
    using assms(7) div_times_less_eq_dividend [of "length img" 512] by (simp add: capacity_sectors_def img_def)
  have t12: "12 \<le> unat tot" by (simp add: ut wad_size_def)
  have t4: "unat (tot + PAGE_SIZE) = unat tot + 4096"
    using cap assms(3) ut by (subst unat_plus_nowrap) (simp_all add: PAGE_SIZE_def img_def)
  show ?thesis
  proof (cases rule: innigkeit_mmap_cases [OF assms(12), of "tot + PAGE_SIZE"])
    case 1
    then show ?thesis
      using assms(13) tw
      by (intro exI [of _ False] exI [of _ "upd_file s i (data_update (\<lambda>_. NULL))"])
        (simp add: load_lumps_def get_file_def Let_def flip: tot_def)
  next
    case (2 d)
    define k where "k = (unat (tot + PAGE_SIZE) + 4095) div 4096 * 4096"
    note mm = 2 [folded k_def]
    have d: "0 < unat d" "d \<noteq> NULL" "unat d + k \<le> 2 ^ 64" "unat tot \<le> k" "0 < unat tot" "length (take (wad_size img) img) = unat tot"
      using mm(3-5) t4 t12 cap ut by (auto simp: user_base_def user_end_def)
    define m' where "m' = write_bytes (map_zero (mem s) d k) d (take (wad_size img) img)"
    have "\<forall>x. in_range x d k \<longrightarrow> mem s x = None" using mm(7) by blast
    note lm = lumps_memory [OF d(1,3,4) this d(5,6), folded m'_def]
    define s4 where "s4 = s\<lparr>mem := m', s_files := (s_files s)[i := (s_files s ! i)\<lparr>data := d, fsize := tot\<rparr>]\<rparr>"
    have "userBuffer d tot" using mm(4,5) d(4) by (simp add: userBuffer_iff)
    then have ps: "load_lumps s i (frame + 16) (frame + 32) (wad_lumps img) (wad_dir img) =
        do { s \<leftarrow> report_wad s4 (frame + 16) (frame + 32) d tot (wad_lumps img) (wad_dir img); Some (True, s) }"
      unfolding s4_def m'_def tot_def
      using load_lumps_read [OF assms(1-3) assms(7) [unfolded img_def] assms(13) mm(1) [unfolded tot_def img_def]] d(1-4)
      by (simp add: img_def tot_def)
    have md: "mapped m' d (wad_size img)" using mapped_less [OF lm(1) d(4)] ut by simp
    have sf: "sep frame 48 d k" using assms(9) by (rule lm(5)) simp
    have sp: "sep (printf_buf s) 4096 d k" using assms(10) by (intro lm(5)) (simp_all add: prints_ok_def)
    have "\<exists>s'. report_wad s4 (c_frame s4 + 16) (c_frame s4 + 32) d tot (wad_lumps img) (wad_dir img) = Some s' \<and>
        shows_only (c_frame s4 + 32) 9 s4 s'"
      using assms(6,8-11,15) cap md sf lm(3,4) d(4) ut
      by (intro load_lumps_report)
        (auto simp: s4_def disk_frame_def prints_ok_def literal_room_def frame_def sep_def)
    then obtain s5 where s5: "report_wad s4 (frame + 16) (frame + 32) d tot (wad_lumps img) (wad_dir img) = Some s5"
        "shows_only (frame + 32) 9 s4 s5"
      by (auto simp: s4_def frame_def)
    have u32: "unat (frame + 32) = unat frame + 32"
      using disk_frame_parts(2) [OF assms(8) assms(9) [unfolded frame_def], of 32 9] by (simp add: frame_def)
    have "file_holds s4 i (take (wad_size img) img)"
      using assms(13,14) d(6) lm(2) by (simp add: file_holds_def s4_def)
    note s5' = shows_only_file [OF s5(2) u32 this]
    have sd: "sep frame 48 d (wad_size img)" "sep (printf_buf s) 4096 d (wad_size img)" using sf sp d(4) ut by (auto simp: sep_def)
    have keep: "mem s5 a = mem s a \<or> in_range a frame 48 \<or> in_range a (printf_buf s) 4096" if "mem s a \<noteq> None" for a
      using s5'(3) [of a] lm(6) [OF that] by (auto simp: s4_def)
    have "file_holds s5 i (take (wad_size img) img)" using s5'(1) sd d(6) ut assms(13) by (simp add: s4_def)
    then show ?thesis
      using ps s5(1) s5'(2) keep sd(1) assms(13)
      by (intro exI [of _ True] exI [of _ s5]) (simp add: s4_def get_file_def)
  qed
qed

lemma restore_range_bytes:
  assumes "bytes_at m' p bs" "sep q n p (length bs)"
  shows "bytes_at (restore_range m q n m') p bs"
  using assms(1)
  by (rule bytes_at_cong) (use assms(2) in \<open>auto simp: restore_range_def in_range_def sep_def\<close>)

lemma load_from_disk_body_ok:
  fixes s :: "'s files_scheme"
  assumes "data_disk s = Some dv" "disk_ok dv" "length (disk_image dv) < 2 ^ 63"
  defines "img \<equiv> disk_image dv"
  assumes "unat (wad_lumps img) < 2 ^ 24" "wad_size img \<le> capacity_sectors dv * 512" "disk_frame s"
    "mapped (mem s) (c_frame s) 48" "prints_ok s" "literal_room s 80" "vm_ok (vm_map s)" "i < length (s_files s)"
    "in_use (s_files s ! i)"
  shows "\<exists>ok s' m. load_from_disk_body s i = Some (ok, s') \<and> (\<forall>j. j \<noteq> i \<longrightarrow> get_file s' j = get_file s j) \<and>
    (\<forall>a. mem s a \<noteq> None \<longrightarrow> mem s' a = mem s a \<or> in_range a (c_frame s) 48 \<or> in_range a (printf_buf s) 4096) \<and>
    (ok \<longrightarrow> file_holds s' i (take (wad_size img) img) \<and> sep (c_frame s) 48 (data (s_files s' ! i)) (wad_size img) \<and>
      pos (s_files s' ! i) = pos (s_files s ! i) \<and> eof (s_files s' ! i) = eof (s_files s ! i)) \<and>
    (\<forall>a. m a = None \<longleftrightarrow> mem s a = None) \<and>
    (ok \<or> innigkeit_mmap (s\<lparr>mem := m\<rparr>) (of_nat (wad_size img) + PAGE_SIZE) = Some (NULL, s\<lparr>mem := m\<rparr>))"
proof -
  have "12 \<le> capacity_sectors dv * 512" using assms(6) by (simp add: wad_size_def)
  from disk_header [OF assms(1-3) this assms(7,8), folded img_def, of i] obtain m2 where m2:
      "load_from_disk_body s i =
        load_lumps (s\<lparr>mem := m2\<rparr>) i (c_frame s + 16) (c_frame s + 32) (wad_lumps img) (wad_dir img)"
      "bytes_at m2 (c_frame s + 16) (take 12 img)" "same_except (mem s) m2 (c_frame s) 48"
      "\<And>a. m2 a = None \<longleftrightarrow> mem s a = None"
    by blast
  let ?s = "s\<lparr>mem := m2\<rparr>"
  have mp: "mapped m2 p n" if "mapped (mem s) p n" for p n
    using that by (rule mapped_mono) (simp add: m2(4))
  have "\<exists>ok s'. load_lumps ?s i (c_frame ?s + 16) (c_frame ?s + 32) (wad_lumps img) (wad_dir img) = Some (ok, s') \<and>
    length (s_files s') = length (s_files ?s) \<and> (\<forall>j. j \<noteq> i \<longrightarrow> get_file s' j = get_file ?s j) \<and>
    (\<forall>a. mem ?s a \<noteq> None \<longrightarrow> mem s' a = mem ?s a \<or> in_range a (c_frame ?s) 48 \<or> in_range a (printf_buf ?s) 4096) \<and>
    (ok \<longrightarrow> file_holds s' i (take (wad_size img) img) \<and> sep (c_frame ?s) 48 (data (s_files s' ! i)) (wad_size img) \<and>
      pos (s_files s' ! i) = pos (s_files ?s ! i) \<and> eof (s_files s' ! i) = eof (s_files ?s ! i)) \<and>
    (ok \<or> innigkeit_mmap ?s (of_nat (wad_size img) + PAGE_SIZE) = Some (NULL, ?s))"
    unfolding img_def
    using assms(1-3,5-13) m2(2) mp
    by (intro load_lumps_ok) (simp_all add: img_def disk_frame_def prints_ok_def literal_room_def)
  then obtain ok s' where l: "load_lumps ?s i (c_frame s + 16) (c_frame s + 32) (wad_lumps img) (wad_dir img) = Some (ok, s')"
    "\<And>j. j \<noteq> i \<Longrightarrow> get_file s' j = get_file ?s j"
    "\<And>a. m2 a \<noteq> None \<Longrightarrow> mem s' a = m2 a \<or> in_range a (c_frame s) 48 \<or> in_range a (printf_buf s) 4096"
    "ok \<Longrightarrow> file_holds s' i (take (wad_size img) img) \<and> sep (c_frame s) 48 (data (s_files s' ! i)) (wad_size img) \<and>
      pos (s_files s' ! i) = pos (s_files s ! i) \<and> eof (s_files s' ! i) = eof (s_files s ! i)"
    "ok \<or> innigkeit_mmap ?s (of_nat (wad_size img) + PAGE_SIZE) = Some (NULL, ?s)"
    by auto
  have "mem s' a = mem s a \<or> in_range a (c_frame s) 48 \<or> in_range a (printf_buf s) 4096" if "mem s a \<noteq> None" for a
    using that l(3) [of a] m2(3) m2(4) [of a] by (auto simp: same_except_def)
  moreover have "get_file s' j = get_file s j" if "j \<noteq> i" for j using l(2) [OF that] by (simp add: get_file_def)
  ultimately show ?thesis
    using m2(1,4) l(1,4,5) by (intro exI [of _ ok] exI [of _ s'] exI [of _ m2]) simp
qed

lemma load_from_disk_locals:
  fixes s :: "'s files_scheme"
  assumes "data_disk s = Some dv" "disk_ok dv" "length (disk_image dv) < 2 ^ 63"
    "unat (wad_lumps (disk_image dv)) < 2 ^ 24" "wad_size (disk_image dv) \<le> capacity_sectors dv * 512"
    "disk_frame s" "prints_ok s" "literal_room s 80" "vm_ok (vm_map s)" "i < length (s_files s)" "in_use (s_files s ! i)"
  defines "n \<equiv> wad_size (disk_image dv)"
  shows "\<exists>ok s1 m. load_from_disk s i = Some (ok, s1\<lparr>mem := restore_range (mem s) (c_frame s) 48 (mem s1)\<rparr>) \<and>
    (\<forall>j. j \<noteq> i \<longrightarrow> get_file s1 j = get_file s j) \<and>
    (\<forall>a. mem s a \<noteq> None \<longrightarrow> mem s1 a = mem s a \<or> in_range a (c_frame s) 48 \<or> in_range a (printf_buf s) 4096) \<and>
    (ok \<longrightarrow> file_holds s1 i (take n (disk_image dv)) \<and> sep (c_frame s) 48 (data (s_files s1 ! i)) n \<and>
      pos (s_files s1 ! i) = pos (s_files s ! i) \<and> eof (s_files s1 ! i) = eof (s_files s ! i)) \<and>
    (\<forall>a. m a \<noteq> None \<longrightarrow> mem s a \<noteq> None \<or> in_range a (c_frame s) 48) \<and>
    (ok \<or> innigkeit_mmap (s\<lparr>mem := m\<rparr>) (of_nat n + PAGE_SIZE) = Some (NULL, s\<lparr>mem := m\<rparr>))"
proof -
  define j where "j = map (junk s) [0..<48]"
  define m0 where "m0 = write_bytes (mem s) (c_frame s) j"
  define s0 where "s0 = s\<lparr>mem := m0\<rparr>"
  have jl: "length j = 48" by (simp add: j_def)
  have fb: "0 < unat (c_frame s)" "unat (c_frame s) + 48 \<le> 2 ^ 64"
    using assms(6) by (auto simp: disk_frame_def userBuffer_iff user_base_def user_end_def)
  have m0: "mapped m0 (c_frame s) 48" "\<And>a. \<not> in_range a (c_frame s) 48 \<Longrightarrow> m0 a = mem s a"
    using bytes_at_mapped [OF write_bytes_at, of "c_frame s" j "mem s"] write_bytes_other [of "c_frame s" j _ "mem s"] fb jl
    by (simp_all add: m0_def)
  have s0: "data_disk s0 = Some dv" "disk_frame s0" "mapped (mem s0) (c_frame s0) 48" "prints_ok s0" "literal_room s0 80"
      "vm_ok (vm_map s0)" "i < length (s_files s0)" "in_use (s_files s0 ! i)"
    using assms(1,6-11) m0(1) mapped_write [of "mem s" "printf_buf s" 4096 "c_frame s" j]
    by (simp_all add: s0_def disk_frame_def prints_ok_def literal_room_def m0_def)
  have e: "c_frame s0 = c_frame s" "printf_buf s0 = printf_buf s" "s_files s0 = s_files s" "mem s0 = m0"
      "\<And>j. get_file s0 j = get_file s j" "\<And>m. s0\<lparr>mem := m\<rparr> = s\<lparr>mem := m\<rparr>"
    by (simp_all add: s0_def get_file_def)
  from load_from_disk_body_ok [OF s0(1) assms(2-5) s0(2-8), folded n_def, unfolded e] obtain ok s1 m where b:
      "load_from_disk_body s0 i = Some (ok, s1)" "\<And>j. j \<noteq> i \<Longrightarrow> get_file s1 j = get_file s j"
      "\<And>a. m0 a \<noteq> None \<Longrightarrow> mem s1 a = m0 a \<or> in_range a (c_frame s) 48 \<or> in_range a (printf_buf s) 4096"
      "ok \<longrightarrow> file_holds s1 i (take n (disk_image dv)) \<and> sep (c_frame s) 48 (data (s_files s1 ! i)) n \<and>
        pos (s_files s1 ! i) = pos (s_files s ! i) \<and> eof (s_files s1 ! i) = eof (s_files s ! i)"
      "\<And>a. m a = None \<longleftrightarrow> m0 a = None"
      "ok \<or> innigkeit_mmap (s\<lparr>mem := m\<rparr>) (of_nat n + PAGE_SIZE) = Some (NULL, s\<lparr>mem := m\<rparr>)"
    by blast
  have "load_from_disk s i = Some (ok, s1\<lparr>mem := restore_range (mem s) (c_frame s) 48 (mem s1)\<rparr>)"
    using b(1) jl by (simp add: load_from_disk_def with_locals_def s0_def m0_def flip: j_def)
  moreover have "mem s1 a = mem s a \<or> in_range a (c_frame s) 48 \<or> in_range a (printf_buf s) 4096" if "mem s a \<noteq> None" for a
    using that b(3) [of a] m0(2) [of a] by (cases "in_range a (c_frame s) 48") simp_all
  moreover have "mem s a \<noteq> None \<or> in_range a (c_frame s) 48" if "m a \<noteq> None" for a
    using that b(5) [of a] m0(2) [of a] by metis
  ultimately show ?thesis using b(2,4,6) by blast
qed


text \<open>Output of more than 4096 bytes is lost, and reported as written.\<close>

lemma fwrite_long_lost:
  assumes "mapped (mem s) ptr 4096" "unat (sz * count) > 4096"
  shows "fwrite s ptr sz count stream = Some (count, s)"
  using innigkeit_write_long [OF assms] by (simp add: fwrite_def write_stdout_def)

section \<open>Examples\<close>

text \<open>
  A process with one open file, the bytes "hi", newline and "x" at 0x500000, a free slot, a buffer
  of eight bytes at 0x600000 and the path "/a.w"; its data disk holds a WAD of one lump.
\<close>

definition wad_image :: "byte list" where
  "wad_image = [73, 87, 65, 68, 1, 0, 0, 0, 12, 0, 0, 0] @ replicate 8 0 @ [80, 76, 65, 89, 80, 65, 76, 0] @ replicate 484 0"

definition demo_files :: files where
  "demo_files = stdio.extend (demo_stdio\<lparr>
       mem := write_bytes (write_bytes (write_bytes demo_mem 0x500000 [104, 105, 10, 120]) 0x600000 [0, 0, 0, 0, 0, 0, 0, 0])
                0x700000 [47, 97, 46, 119, 0],
       data_disk := Some \<lparr>disk_image = wad_image, disk_request_ok = (\<lambda>_ _. True)\<rparr>\<rparr>)
     (files.fields [\<lparr>data = 0x500000, fsize = 4, pos = 0, in_use = True, eof = False\<rparr>, zero_file])"

lemma demo_files_simps:
  "mem demo_files = write_bytes (write_bytes (write_bytes demo_mem 0x500000 [104, 105, 10, 120]) 0x600000 [0, 0, 0, 0, 0, 0, 0, 0])
     0x700000 [47, 97, 46, 119, 0]"
  "printf_buf demo_files = 0x300000" "literals demo_files = 0x400000" "c_frame demo_files = 0x410000"
  "terminal_ok demo_files" "print_frame demo_files = 0x7000000" "vm_map demo_files = two_place_vm"
  "archive demo_files = tar_archive [([97, 46, 119], [1, 2, 3])]"
  "data_disk demo_files = Some \<lparr>disk_image = wad_image, disk_request_ok = (\<lambda>_ _. True)\<rparr>"
  "s_files demo_files = [\<lparr>data = 0x500000, fsize = 4, pos = 0, in_use = True, eof = False\<rparr>, zero_file]"
  by (simp_all add: demo_files_def demo_stdio_def boot_heap_def boot_machine_def files.defs heap.defs stdio.defs machine.defs)

lemma demo_files_mem:
  "bytes_at (mem demo_files) 0x500000 [104, 105, 10, 120]" "cstr (mem demo_files) 0x700000 [47, 97, 46, 119]"
  "bytes_at (mem demo_files) 0x600000 [0, 0, 0, 0, 0, 0, 0, 0]"
  by (simp_all add: demo_files_simps load8_def)

lemma demo_buffer: "mapped (mem demo_files) 0x600000 8"
  using mapped_less [OF bytes_at_mapped [OF demo_files_mem(3)], of 8] by simp

lemma demo_file_holds: "file_holds demo_files 0 [104, 105, 10, 120]"
  using demo_files_mem(1) by (simp add: file_holds_def demo_files_simps(10))

theorem fread_reads_witness:
  "\<exists>s'. fread demo_files 0x600000 1 3 (Some 0) = Some (3, s') \<and> bytes_at (mem s') 0x600000 [104, 105, 10] \<and>
     feof s' (Some 0) = Some 0"
  using fread_reads [OF demo_file_holds, of 1 3 "0x600000"] demo_files_mem(3)
  by (auto simp: demo_files_simps(10) sep_def)

theorem fread_pieces_witness:
  "\<exists>bs s'. fs.rd_list 0x600000 0 [1, 2] demo_files = Some (bs, s') \<and> concat bs = [104, 105, 10] \<and> file_rest s' 0 = [120]"
proof -
  have fb: "file_bytes demo_files 0 = [104, 105, 10, 120]" using demo_file_holds by (rule file_holds_bytes)
  have "stream_inv 0x600000 8 0 demo_files"
    using demo_file_holds demo_buffer by (simp add: stream_inv_def fb demo_files_simps(10) sep_def)
  from fread_pieces [OF this, of "[1, 2]"] show ?thesis
    by (simp add: file_rest_def [of demo_files] fb demo_files_simps(10))
qed

theorem fseek_ftell_witness:
  "\<exists>s'. fseek demo_files (Some 0) (- 1) 2 = Some (0, s') \<and> ftell s' (Some 0) = Some 3"
  using fseek_ftell [of demo_files 0 "s_files demo_files ! 0" 2 4 "- 1"]
  by (auto simp: get_file_def demo_files_simps(10) c_range_defs)

theorem fgets_line_witness:
  "\<exists>s'. fgets demo_files 0x600000 8 (Some 0) = Some (0x600000, s') \<and> bytes_at (mem s') 0x600000 [104, 105, 10, 0]"
proof -
  have "first_line (Suc (Suc (Suc 4))) [104, 105, 10, 120] = [104, 105, 10]" unfolding first_line.simps by simp
  then have *: "first_line (nat (8 - 1)) (drop (unat (pos (s_files demo_files ! 0))) [104, 105, 10, 120]) = [104, 105, 10]"
    by (simp add: demo_files_simps(10))
  show ?thesis
    using fgets_line [OF demo_file_holds, of 8 "0x600000", unfolded *] demo_files_mem(3)
    by (auto simp: demo_files_simps(10) sep_def INT_MAX_def)
qed


lemma demo_files_unmapped:
  assumes "0x800000 \<le> unat x"
  shows "mem demo_files x = None"
proof -
  have "x \<noteq> c" if "unat c < 0x800000" for c using assms that by auto
  then show ?thesis
    using assms by (simp add: demo_files_simps demo_mem_def map_zero_def in_range_def)
qed

lemma demo_mmap:
  assumes "\<forall>a. m a \<noteq> None \<longrightarrow> mem demo_files a \<noteq> None \<or> in_range a (c_frame demo_files) 48"
  shows "innigkeit_mmap (demo_files\<lparr>mem := m\<rparr>) (28 + PAGE_SIZE) \<noteq> Some (NULL, s')"
proof -
  have "m x = None" if "in_range x 0x10000000000 8192" for x
    using that assms [rule_format, of x] demo_files_unmapped [of x]
    by (cases "m x") (auto simp: in_range_def demo_files_simps(4))
  then have "range_free m 0x10000000000 8192" by (simp add: range_free_def)
  then have "sys_mmap (demo_files\<lparr>mem := m\<rparr>) (28 + PAGE_SIZE) 3 =
      (Inr 0x10000000000, demo_files\<lparr>mem := map_zero m 0x10000000000 8192\<rparr>)"
    by (simp add: sys_mmap_def alignForward_def PAGE_SIZE_def demo_files_simps(7) two_place_vm_def)
  then show ?thesis
    using decode_wire_Inr [of "0x10000000000"] by (simp add: innigkeit_mmap_def)
qed

lemma wad_image_facts:
  "length wad_image = 512" "wad_lumps wad_image = 1" "wad_dir wad_image = 12" "wad_size wad_image = 28"
proof -
  show "length wad_image = 512" by (simp add: wad_image_def)
  show l: "wad_lumps wad_image = 1" and d: "wad_dir wad_image = 12"
    by (simp_all add: wad_lumps_def wad_dir_def wad_image_def)
  show "wad_size wad_image = 28" by (simp add: wad_size_def l d dir_size_def)
qed


end
