(* ===== verification/CNumber.thy ===== *)
theory CNumber
  imports CString
begin

text \<open>
  Number parsing of \<^verbatim>\<open>apps/doom/innigkeit_libc.c\<close> (lines 150 to 170): \<^verbatim>\<open>strtol\<close> with its
  white space, sign and base prefix, and \<^verbatim>\<open>atoi\<close>.
\<close>

section \<open>Numbers\<close>

definition strtol_digit :: "byte \<Rightarrow> int option" where
  "strtol_digit b =
     (let c = sint b in
      if 48 \<le> c \<and> c \<le> 57 then Some (c - 48)
      else if 97 \<le> c \<and> c \<le> 122 then Some (c - 97 + 10)
      else if 65 \<le> c \<and> c \<le> 90 then Some (c - 65 + 10)
      else None)"

text \<open>
  The digit loop.  \<^verbatim>\<open>v * base + d\<close> is computed in \<^verbatim>\<open>long\<close>; leaving its range is
  undefined.
\<close>

function strtol_loop :: "mem \<Rightarrow> addr \<Rightarrow> int \<Rightarrow> int \<Rightarrow> (int \<times> addr) option" where
  "strtol_loop m s base v =
     do { b \<leftarrow> load8 m s;
          case strtol_digit b of
            None \<Rightarrow> Some (v, s)
          | Some d \<Rightarrow>
              if base \<le> d then Some (v, s)
              else do { t \<leftarrow> c_long (v * base);
                        v' \<leftarrow> c_long (t + d);
                        strtol_loop m (s + 1) base v' } }"
  by pat_completeness auto
termination
  by (relation "measure (\<lambda>(m, s, base, v). unat (- s))")
    (auto dest!: load8_SomeD simp: unat_neg_step)

declare strtol_loop.simps [simp del]

definition strtol_sign :: "mem \<Rightarrow> addr \<Rightarrow> (bool \<times> addr) option" where
  "strtol_sign m s =
     do { c \<leftarrow> load8 m s;
          Some (if c = chr_minus then (True, s + 1)
                else if c = chr_plus then (False, s + 1) else (False, s)) }"

definition strtol_base :: "mem \<Rightarrow> addr \<Rightarrow> int \<Rightarrow> (int \<times> addr) option" where
  "strtol_base m s base =
     (if base = 0 then
        do { c \<leftarrow> load8 m s;
             if c = chr_zero then
               do { c' \<leftarrow> load8 m (s + 1);
                    Some (if c' = chr_x \<or> c' = chr_X then (16, s + 1 + 1) else (8, s + 1)) }
             else Some (10, s) }
      else Some (base, s))"

text \<open>The value and the address of the first character not consumed.\<close>

definition strtol_parse :: "mem \<Rightarrow> addr \<Rightarrow> int \<Rightarrow> (int \<times> addr) option" where
  "strtol_parse m s base =
     do { s \<leftarrow> scan_while (\<lambda>c. Some (c = chr_space \<or> c = chr_tab)) m s;
          (neg, s) \<leftarrow> strtol_sign m s;
          (base, s) \<leftarrow> strtol_base m s base;
          (v, s) \<leftarrow> strtol_loop m s base 0;
          r \<leftarrow> (if neg then c_long (- v) else Some v);
          Some (r, s) }"

definition strtol :: "mem \<Rightarrow> addr \<Rightarrow> addr \<Rightarrow> int \<Rightarrow> (int \<times> mem) option" where
  "strtol m s end base =
     do { (v, s') \<leftarrow> strtol_parse m s base;
          m' \<leftarrow> (if end \<noteq> NULL then store64 m end s' else Some m);
          Some (v, m') }"

definition atoi :: "mem \<Rightarrow> addr \<Rightarrow> int option" where
  "atoi m s = do { (v, m') \<leftarrow> strtol m s NULL 10; Some (to_int v) }"

section \<open>Facts on numerals\<close>

definition digits_value :: "int \<Rightarrow> int \<Rightarrow> int list \<Rightarrow> int" where
  "digits_value base v ds = foldl (\<lambda>v d. v * base + d) v ds"

lemma digits_value_simps [simp]:
  "digits_value base v [] = v"
  "digits_value base v (d # ds) = digits_value base (v * base + d) ds"
  by (simp_all add: digits_value_def)

lemma digits_value_ge: "0 \<le> v \<Longrightarrow> 0 < base \<Longrightarrow> \<forall>d \<in> set ds. 0 \<le> d \<Longrightarrow> v \<le> digits_value base v ds"
proof (induction ds arbitrary: v)
  case (Cons d ds)
  have "v * 1 \<le> v * base" using Cons.prems by (intro mult_left_mono) simp_all
  then have "v \<le> v * base + d" using Cons.prems by simp
  also have "\<dots> \<le> digits_value base (v * base + d) ds"
    using Cons.prems calculation by (intro Cons.IH) simp_all
  finally show ?case by simp
qed simp

lemma strtol_digit_nonneg: "strtol_digit b = Some d \<Longrightarrow> 0 \<le> d"
  by (auto simp: strtol_digit_def Let_def split: if_splits)

lemma strtol_digits_nonneg:
  assumes "map strtol_digit cs = map Some ds"
  shows "\<forall>d \<in> set ds. 0 \<le> d"
proof
  fix d assume "d \<in> set ds"
  then have "Some d \<in> set (map strtol_digit cs)" unfolding assms by simp
  then show "0 \<le> d" by (auto dest: strtol_digit_nonneg [OF sym])
qed

text \<open>The bytes a numeral in the given base may not be followed by.\<close>

definition ends_numeral :: "int \<Rightarrow> byte \<Rightarrow> bool" where
  "ends_numeral base b \<longleftrightarrow> (case strtol_digit b of None \<Rightarrow> True | Some d \<Rightarrow> base \<le> d)"

lemma strtol_loop_digits:
  assumes "bytes_at m p cs" "map strtol_digit cs = map Some ds" "\<forall>d \<in> set ds. d < base"
    "load8 m (p + of_nat (length cs)) = Some c" "ends_numeral base c"
    "0 < base" "0 \<le> v" "v \<le> LONG_MAX"
  shows "strtol_loop m p base v =
    (if digits_value base v ds \<le> LONG_MAX
     then Some (digits_value base v ds, p + of_nat (length cs)) else None)"
  using assms
proof (induction cs arbitrary: p v ds)
  case Nil
  then show ?case
    by (subst strtol_loop.simps) (auto simp: ends_numeral_def split: option.splits)
next
  case (Cons b cs)
  then obtain d ds' where ds: "ds = d # ds'" "strtol_digit b = Some d" "map strtol_digit cs = map Some ds'"
    by (cases ds) auto
  have nn: "0 \<le> d" "\<forall>d \<in> set ds'. 0 \<le> d"
    using strtol_digit_nonneg [OF ds(2)] strtol_digits_nonneg [OF ds(3)] by simp_all
  have vb: "0 \<le> v * base" "0 \<le> v * base + d" "LONG_MIN \<le> 0"
    using Cons.prems nn by (simp_all add: c_range_defs)
  have step: "strtol_loop m p base v =
      do { t \<leftarrow> c_long (v * base); v' \<leftarrow> c_long (t + d); strtol_loop m (p + 1) base v' }"
    using Cons.prems ds by (subst strtol_loop.simps) simp
  show ?case
  proof (cases "v * base + d \<le> LONG_MAX")
    case True
    then have "strtol_loop m p base v = strtol_loop m (p + 1) base (v * base + d)"
      using step vb nn by (simp add: c_long_def)
    also have "\<dots> = (if digits_value base (v * base + d) ds' \<le> LONG_MAX
      then Some (digits_value base (v * base + d) ds', p + 1 + of_nat (length cs)) else None)"
      using Cons.prems ds vb True by (intro Cons.IH) (simp_all add: add.assoc)
    finally show ?thesis using ds by (simp add: add.assoc)
  next
    case False
    then have "strtol_loop m p base v = None"
      using step vb by (auto simp: c_long_def bind_eq_None_conv)
    moreover have "v * base + d \<le> digits_value base (v * base + d) ds'"
      using vb nn Cons.prems by (intro digits_value_ge) simp_all
    ultimately show ?thesis using ds False by auto
  qed
qed

lemma strtol_parse_numeral:
  assumes "cstr m p (ws @ sg @ cs @ rest)" "set ws \<subseteq> {chr_space, chr_tab}"
    "sg \<in> {[], [chr_plus], [chr_minus]}" "cs \<noteq> []" "map strtol_digit cs = map Some ds"
    "\<forall>d \<in> set ds. d < base" "rest \<noteq> [] \<longrightarrow> ends_numeral base (hd rest)" "0 < base"
  shows "strtol_parse m p base =
    (if digits_value base 0 ds \<le> LONG_MAX
     then Some ((if sg = [chr_minus] then - digits_value base 0 ds else digits_value base 0 ds),
                p + of_nat (length (ws @ sg @ cs)))
     else None)"
proof -
  define p1 where "p1 = p + of_nat (length ws)"
  define p2 where "p2 = p1 + of_nat (length sg)"
  have c: "bytes_at m p ws" "bytes_at m p1 sg" "bytes_at m p2 cs"
    "cstr m (p2 + of_nat (length cs)) rest"
    using assms(1) unfolding cstr_append p1_def p2_def by auto
  obtain b cs' where b: "cs = b # cs'" using assms(4) by (cases cs) auto
  obtain d where d: "strtol_digit b = Some d" using assms(5) b by (cases ds) auto
  have bb: "b \<noteq> chr_space" "b \<noteq> chr_tab" "b \<noteq> chr_plus" "b \<noteq> chr_minus"
    using d by (auto simp: strtol_digit_def)
  have h: "load8 m p1 = Some (hd (sg @ cs))"
    using c b assms(3) by (auto simp: p2_def)
  have "scan_while (\<lambda>c. Some (c = chr_space \<or> c = chr_tab)) m p = Some p1"
    unfolding p1_def
    by (rule scan_while_bytes [OF c(1), where c = "hd (sg @ cs)"])
      (use assms(2,3) h bb b in \<open>auto simp: p1_def\<close>)
  moreover have "strtol_sign m p1 = Some (sg = [chr_minus], p2)"
    using h assms(3) b bb by (auto simp: strtol_sign_def p2_def)
  moreover have "strtol_base m p2 base = Some (base, p2)"
    using assms(8) by (simp add: strtol_base_def)
  moreover have "\<exists>c. load8 m (p2 + of_nat (length cs)) = Some c \<and> ends_numeral base c"
    using c(4) assms(7) by (cases rest) (auto simp: ends_numeral_def strtol_digit_def)
  then have "strtol_loop m p2 base 0 =
    (if digits_value base 0 ds \<le> LONG_MAX
     then Some (digits_value base 0 ds, p2 + of_nat (length cs)) else None)"
    using strtol_loop_digits [OF c(3) assms(5,6), of _ 0] assms(8) by (auto simp: c_range_defs)
  moreover have "0 \<le> digits_value base 0 ds"
    using assms(8) strtol_digits_nonneg [OF assms(5)] by (intro digits_value_ge) simp_all
  ultimately show ?thesis
    by (auto simp: strtol_parse_def c_long_def c_range_defs p1_def p2_def ac_simps)
qed




end
