(* ===== verification/Stdlib.thy ===== *)
theory Stdlib
  imports CNumber Stdio "HOL-Library.Multiset"
begin

text \<open>
  The rest of the C runtime (\<^verbatim>\<open>apps/doom/innigkeit_libc.c\<close>, lines 472-589): time, waiting, the
  stubs of the system interface, \<^verbatim>\<open>sscanf\<close>, the random number generator, \<^verbatim>\<open>qsort\<close> and
  \<^verbatim>\<open>bsearch\<close>.  The comparison functions of the last two are the caller's code, a parameter.
\<close>

section \<open>Time\<close>

definition gettimeofday :: "'s machine_scheme \<Rightarrow> addr \<Rightarrow> addr \<Rightarrow> (int \<times> 's machine_scheme) option" where
  "gettimeofday s tv tz =
     (if tv \<noteq> NULL then
        let (ms, s) = innigkeit_uptime_ms s in
        do { m \<leftarrow> store64 (mem s) tv (ms div 1000);
             m \<leftarrow> store64 m (tv + 8) ((ms mod 1000) * 1000);
             Some (0, s\<lparr>mem := m\<rparr>) }
      else Some (0, s))"

definition time :: "'s machine_scheme \<Rightarrow> addr \<Rightarrow> (int \<times> 's machine_scheme) option" where
  "time s t =
     (let (ms, s) = innigkeit_uptime_ms s; sec = ms div 1000 in
      if t \<noteq> NULL then do { m \<leftarrow> store64 (mem s) t sec; Some (sint sec, s\<lparr>mem := m\<rparr>) }
      else Some (sint sec, s))"

definition clock_c :: "'s machine_scheme \<Rightarrow> int \<times> 's machine_scheme" where
  "clock_c s = (let (ms, s) = innigkeit_uptime_ms s in (sint ms, s))"

text \<open>The loop \<^verbatim>\<open>while (innigkeit_uptime_ms() < target);\<close>.\<close>

partial_function (option) busy_wait :: "'s machine_scheme \<Rightarrow> u64 \<Rightarrow> 's machine_scheme option" where
  "busy_wait s target =
     (case innigkeit_uptime_ms s of (ms, s) \<Rightarrow> if ms < target then busy_wait s target else Some s)"

definition usleep :: "'s machine_scheme \<Rightarrow> u64 \<Rightarrow> (int \<times> 's machine_scheme) option" where
  "usleep s usec =
     (let (ms, s) = innigkeit_uptime_ms s in
      do { s \<leftarrow> busy_wait s (ms + usec div 1000); Some (0, s) })"

section \<open>Stubs\<close>

definition getenv :: "addr \<Rightarrow> addr" where "getenv name = NULL"
definition system :: "addr \<Rightarrow> int" where "system cmd = - 1"
definition open_c :: "addr \<Rightarrow> int \<Rightarrow> int" where "open_c path flags = - 1"
definition close_c :: "int \<Rightarrow> int" where "close_c fd = - 1"
definition read_c :: "int \<Rightarrow> addr \<Rightarrow> size_t \<Rightarrow> int" where "read_c fd buf len = - 1"
definition unlink :: "addr \<Rightarrow> int" where "unlink path = - 1"
definition rename :: "addr \<Rightarrow> addr \<Rightarrow> int" where "rename old newp = - 1"
definition getcwd :: "mem \<Rightarrow> addr \<Rightarrow> size_t \<Rightarrow> (addr \<times> mem) option" where
  "getcwd m buf n = (if buf \<noteq> NULL \<and> n > 0 then do { m \<leftarrow> store8 m buf 0; Some (buf, m) } else Some (buf, m))"
definition chdir :: "addr \<Rightarrow> int" where "chdir path = - 1"
definition mkdtemp :: "addr \<Rightarrow> addr" where "mkdtemp tmpl = NULL"
definition opendir :: "addr \<Rightarrow> addr" where "opendir path = NULL"
definition readdir :: "addr \<Rightarrow> addr" where "readdir dir = NULL"
definition closedir :: "addr \<Rightarrow> int" where "closedir dir = 0"
definition stat :: "addr \<Rightarrow> addr \<Rightarrow> int" where "stat path buf = - 1"
definition fstat :: "int \<Rightarrow> addr \<Rightarrow> int" where "fstat fd buf = - 1"
definition mkdir :: "addr \<Rightarrow> u32 \<Rightarrow> int" where "mkdir path mode = - 1"
definition access :: "addr \<Rightarrow> int \<Rightarrow> int" where "access path mode = - 1"
definition remove :: "addr \<Rightarrow> int" where "remove path = - 1"

section \<open>Scanning\<close>

function scan_word :: "mem \<Rightarrow> addr \<Rightarrow> addr \<Rightarrow> (addr \<times> addr \<times> mem) option" where
  "scan_word m p str =
     do { c \<leftarrow> load8 m str;
          if c \<noteq> 0 \<and> isspace (uint c) = 0
          then do { m' \<leftarrow> store8 m p c; scan_word m' (p + 1) (str + 1) }
          else Some (p, str, m) }"
  by pat_completeness auto
termination
  by (relation "measure (\<lambda>(m, p, str). unat (- str))") (auto dest!: load8_SomeD simp: unat_neg_step)

declare scan_word.simps [simp del]

text \<open>The conversion behind a percent sign: the number of items stored, the rest of the input and of the arguments.\<close>

definition sscanf_conv :: "mem \<Rightarrow> addr \<Rightarrow> byte \<Rightarrow> va_list \<Rightarrow> (int \<times> addr \<times> va_list \<times> mem) option" where
  "sscanf_conv m str c ap =
     (if c = 100 then
        do { (p, ap) \<leftarrow> va_slot ap;
             (v, str) \<leftarrow> strtol_parse m str 10;
             m \<leftarrow> store32 m p (word_of_int v);
             Some (1, str, ap, m) }
      else if c = 115 then
        do { (p, ap) \<leftarrow> va_slot ap;
             str \<leftarrow> scan_while (\<lambda>c. Some (c \<noteq> 0 \<and> isspace (uint c) \<noteq> 0)) m str;
             (p, str, m) \<leftarrow> scan_word m p str;
             m \<leftarrow> store8 m p 0;
             Some (1, str, ap, m) }
      else Some (0, str, ap, m))"

function sscanf_loop :: "mem \<Rightarrow> addr \<Rightarrow> addr \<Rightarrow> va_list \<Rightarrow> int \<Rightarrow> (int \<times> mem) option" where
  "sscanf_loop m str fmt ap cnt =
     do { f \<leftarrow> load8 m fmt;
          if f = 0 then Some (cnt, m)
          else do {
            c \<leftarrow> load8 m str;
            if c = 0 then Some (cnt, m)
            else if f \<noteq> 37 then
              (if f = c then sscanf_loop m (str + 1) (fmt + 1) ap cnt else Some (cnt, m))
            else do {
              k \<leftarrow> load8 m (fmt + 1);
              (n, str, ap, m) \<leftarrow> sscanf_conv m str k ap;
              sscanf_loop m str (fmt + 1 + 1) ap (cnt + n) } } }"
  by pat_completeness auto
termination
proof (relation "measure (\<lambda>(m, str, fmt, ap, cnt). unat (- fmt))", goal_cases)
  case (2 m str fmt ap cnt f c)
  then show ?case using load8_forward [of m fmt f] by simp
next
  case (3 m str fmt ap cnt f c k)
  then have "unat (- (fmt + 1 + 1)) < unat (- (fmt + 1))" "unat (- (fmt + 1)) < unat (- fmt)"
    using load8_forward [of m fmt] load8_forward [of m "fmt + 1"] by blast+
  then show ?case by simp
qed simp

declare sscanf_loop.simps [simp del]

definition sscanf :: "mem \<Rightarrow> addr \<Rightarrow> addr \<Rightarrow> va_list \<Rightarrow> (int \<times> mem) option" where
  "sscanf m str fmt ap = sscanf_loop m str fmt ap 0"

section \<open>Arithmetic\<close>

text \<open>\<^verbatim>\<open>unsigned long\<close> is 64 bits wide.\<close>

definition rand :: "u64 \<Rightarrow> int \<times> u64" where
  "rand rand_state =
     (let r = rand_state * 1103515245 + 12345 in (uint (drop_bit 16 r AND 0x7fff), r))"

definition srand :: "u32 \<Rightarrow> u64" where
  "srand seed = ucast seed"

definition abs_c :: "int \<Rightarrow> int option" where
  "abs_c x = (if x < 0 then c_int (- x) else Some x)"

definition labs :: "int \<Rightarrow> int option" where
  "labs x = (if x < 0 then c_long (- x) else Some x)"

section \<open>Sorting and searching\<close>

type_synonym cmp = "mem \<Rightarrow> addr \<Rightarrow> addr \<Rightarrow> int option"

function qsort_inner :: "cmp \<Rightarrow> mem \<Rightarrow> addr \<Rightarrow> addr \<Rightarrow> size_t \<Rightarrow> size_t \<Rightarrow> (size_t \<times> mem) option" where
  "qsort_inner cmp m b tmp sz j =
     (if j > 0 then
        do { r \<leftarrow> cmp m (b + (j - 1) * sz) tmp;
             if r > 0 then
               do { m \<leftarrow> builtin_memcpy m (b + j * sz) (b + (j - 1) * sz) sz;
                    qsort_inner cmp m b tmp sz (j - 1) }
             else Some (j, m) }
      else Some (j, m))"
  by pat_completeness auto
termination
  by (relation "measure (\<lambda>(cmp, m, b, tmp, sz, j). unat j)") (auto simp: measure_unat)

function qsort_outer :: "cmp \<Rightarrow> mem \<Rightarrow> addr \<Rightarrow> addr \<Rightarrow> size_t \<Rightarrow> size_t \<Rightarrow> size_t \<Rightarrow> mem option" where
  "qsort_outer cmp m b tmp sz i n =
     (if i < n then
        do { m \<leftarrow> builtin_memcpy m tmp (b + i * sz) sz;
             (j, m) \<leftarrow> qsort_inner cmp m b tmp sz i;
             m \<leftarrow> builtin_memcpy m (b + j * sz) tmp sz;
             qsort_outer cmp m b tmp sz (i + 1) n }
      else Some m)"
  by pat_completeness auto
termination
  by (relation "measure (\<lambda>(cmp, m, b, tmp, sz, i, n). unat n - unat i)")
    (auto simp: word_less_nat_alt unat_Suc_less diff_less_mono2)

declare qsort_inner.simps [simp del] qsort_outer.simps [simp del]

definition qsort :: "'s heap_scheme \<Rightarrow> addr \<Rightarrow> size_t \<Rightarrow> size_t \<Rightarrow> cmp \<Rightarrow> 's heap_scheme option" where
  "qsort s base n sz cmp =
     do { (tmp, s) \<leftarrow> malloc s sz;
          if tmp = NULL then Some s
          else do { m \<leftarrow> qsort_outer cmp (mem s) base tmp sz 1 n;
                    Some (free (s\<lparr>mem := m\<rparr>) tmp) } }"

text \<open>The division by a size of zero is undefined.\<close>

partial_function (option) bsearch_loop :: "cmp \<Rightarrow> mem \<Rightarrow> addr \<Rightarrow> size_t \<Rightarrow> addr \<Rightarrow> addr \<Rightarrow> addr option" where
  "bsearch_loop cmp m key sz lo hi =
     (if lo < hi then
        if sz = 0 then None
        else
          do { let mid = lo + ((hi - lo) div sz div 2) * sz;
               r \<leftarrow> cmp m key mid;
               if r < 0 then bsearch_loop cmp m key sz lo mid
               else if r > 0 then bsearch_loop cmp m key sz (mid + sz) hi
               else Some mid }
      else Some NULL)"

definition bsearch :: "mem \<Rightarrow> addr \<Rightarrow> addr \<Rightarrow> size_t \<Rightarrow> size_t \<Rightarrow> cmp \<Rightarrow> addr option" where
  "bsearch m key base n sz cmp = bsearch_loop cmp m key sz base (base + n * sz)"

section \<open>Arrays of fixed-size elements\<close>

definition arr :: "mem \<Rightarrow> addr \<Rightarrow> nat \<Rightarrow> byte list list \<Rightarrow> bool" where
  "arr m b k xs \<longleftrightarrow> 0 < unat b \<and> unat b + length xs * k \<le> 2 ^ 64 \<and>
     (\<forall>i < length xs. length (xs ! i) = k \<and> bytes_at m (b + of_nat (i * k)) (xs ! i))"

lemma arr_bounds: "arr m b k xs \<Longrightarrow> 0 < unat b \<and> unat b + length xs * k \<le> 2 ^ 64"
  by (simp add: arr_def)

lemma elem_bytes:
  "arr m b k xs \<Longrightarrow> i < length xs \<Longrightarrow> bytes_at m (b + of_nat (i * k)) (xs ! i) \<and> length (xs ! i) = k"
  by (simp add: arr_def)

lemma arr_lengths: "arr m b k xs \<Longrightarrow> \<forall>x \<in> set xs. length x = k"
  by (auto simp: arr_def in_set_conv_nth)

lemma elem_end: "i < n \<Longrightarrow> i * k + k \<le> n * k" for i n k :: nat
  using mult_le_mono1 [of "Suc i" n k] by simp

lemma elem_unat:
  assumes "arr m b k xs" "i < length xs" "0 < k"
  shows "unat (b + of_nat (i * k)) = unat b + i * k"
  by (rule unat_plus_of_nat) (use arr_bounds [OF assms(1)] elem_end [OF assms(2), of k] assms(3) in linarith)

lemma elem_in_array:
  assumes "arr m b k xs" "i < length xs" "sep b (length xs * k) q n"
  shows "sep (b + of_nat (i * k)) k q n"
proof (cases "k = 0")
  case True
  with assms(3) show ?thesis by (simp add: sep_def)
next
  case False
  then show ?thesis using elem_unat [OF assms(1,2)] elem_end [OF assms(2), of k] assms(3) by (auto simp: sep_def)
qed

lemma elem_sep:
  assumes "arr m b k xs" "i < length xs" "j < length xs" "i \<noteq> j"
  shows "sep (b + of_nat (i * k)) k (b + of_nat (j * k)) k"
proof (cases "k = 0")
  case False
  have "i * k + k \<le> j * k \<or> j * k + k \<le> i * k"
    using assms(4) elem_end [of i j k] elem_end [of j i k] by (cases "i < j") simp_all
  then show ?thesis using False elem_unat [OF assms(1,2)] elem_unat [OF assms(1,3)] by (auto simp: sep_def)
qed (simp add: sep_def)

lemma elem_bounds:
  assumes "arr m b k xs" "i < length xs" "0 < k"
  shows "0 < unat (b + of_nat (i * k))" "unat (b + of_nat (i * k)) + k \<le> 2 ^ 64"
  unfolding elem_unat [OF assms] using arr_bounds [OF assms(1)] elem_end [OF assms(2), of k] by linarith+

lemma arr_mapped: "arr m b k xs \<Longrightarrow> i < length xs \<Longrightarrow> mapped m (b + of_nat (i * k)) k"
  using elem_bytes [of m b k xs i] bytes_at_mapped by metis

text \<open>Storing an element, and storing outside the array.\<close>

lemma elem_write_same:
  assumes "arr m b k xs" "j < length xs" "length v = k"
  shows "same_except m (write_bytes m (b + of_nat (j * k)) v) (b + of_nat (j * k)) k"
proof (cases "k = 0")
  case False
  then show ?thesis using same_except_write [OF _, of "b + of_nat (j * k)" v m] elem_bounds [OF assms(1,2)] assms(3) by simp
qed (use assms(3) in simp)

lemma arr_write:
  assumes "arr m b k xs" "j < length xs" "length v = k"
  shows "arr (write_bytes m (b + of_nat (j * k)) v) b k (xs[j := v])"
proof -
  define p where "p = b + of_nat (j * k)"
  define m' where "m' = write_bytes m p v"
  have se: "same_except m m' p k" using elem_write_same [OF assms] by (simp only: m'_def p_def)
  have new: "bytes_at m' p v"
  proof (cases "k = 0")
    case False
    then show ?thesis using elem_bounds [OF assms(1,2)] assms(3) unfolding m'_def p_def by (intro write_bytes_at) simp_all
  qed (use assms(3) in simp)
  have "length (xs[j := v] ! i) = k \<and> bytes_at m' (b + of_nat (i * k)) (xs[j := v] ! i)" if i: "i < length xs" for i
  proof (cases "i = j")
    case True
    then show ?thesis using new assms(2,3) by (simp add: p_def)
  next
    case False
    have "sep p k (b + of_nat (i * k)) (length (xs ! i))"
      using elem_sep [OF assms(1,2) i] False elem_bytes [OF assms(1) i] by (simp add: p_def)
    then have "bytes_at m' (b + of_nat (i * k)) (xs ! i)"
      using same_except_bytes_at [OF se] elem_bytes [OF assms(1) i] by blast
    then show ?thesis using False elem_bytes [OF assms(1) i] by simp
  qed
  then show ?thesis using arr_bounds [OF assms(1)] unfolding arr_def m'_def p_def by simp
qed

lemma arr_other:
  assumes "arr m b k xs" "same_except m m' q n" "sep b (length xs * k) q n"
  shows "arr m' b k xs"
proof -
  have "bytes_at m' (b + of_nat (i * k)) (xs ! i)" if "i < length xs" for i
  proof -
    have "sep q n (b + of_nat (i * k)) (length (xs ! i))"
      using elem_in_array [OF assms(1) that assms(3)] elem_bytes [OF assms(1) that] sep_sym by metis
    then show ?thesis using same_except_bytes_at [OF assms(2)] elem_bytes [OF assms(1) that] by blast
  qed
  then show ?thesis using assms(1) by (simp add: arr_def)
qed

lemma elem_write_array:
  assumes "arr m b k xs" "i < length xs" "length v = k"
  shows "same_except m (write_bytes m (b + of_nat (i * k)) v) b (length xs * k)"
proof (cases "k = 0")
  case True
  then show ?thesis using assms(3) by simp
next
  case False
  show ?thesis
    by (rule same_except_trans [OF elem_write_same [OF assms] same_except_refl [where p = b and n = 0]])
      (use elem_unat [OF assms(1,2)] elem_end [OF assms(2), of k] False in simp_all)
qed

lemma arr_cong:
  assumes "arr m b k xs" "\<And>a. in_range a b (length xs * k) \<Longrightarrow> m' a = m a"
  shows "arr m' b k xs"
proof -
  have "bytes_at m' (b + of_nat (i * k)) (xs ! i)" if "i < length xs" for i
  proof (rule bytes_at_cong)
    fix a assume "in_range a (b + of_nat (i * k)) (length (xs ! i))"
    then have "in_range a b (length xs * k)"
      using elem_bytes [OF assms(1) that] elem_unat [OF assms(1) that] elem_end [OF that, of k]
      by (cases "k = 0") (auto simp: in_range_def)
    then show "m' a = m a" by (rule assms(2))
  qed (use elem_bytes [OF assms(1) that] in blast)
  then show ?thesis using assms(1) by (simp add: arr_def)
qed

text \<open>One copy of the inner loop moves element \<open>n\<close> up by one place and leaves the saved element alone.\<close>

lemma arr_shift:
  assumes "arr m b k xs" "Suc n < length xs" "unat sz = k" "bytes_at m tmp v" "length v = k" "sep b (length xs * k) tmp k"
  defines "m' \<equiv> write_bytes m (b + of_nat (Suc n * k)) (xs ! n)"
  shows "builtin_memcpy m (b + of_nat (Suc n * k)) (b + of_nat (n * k)) sz = Some m'"
    "arr m' b k (xs[Suc n := xs ! n])" "bytes_at m' tmp v" "same_except m m' b (length xs * k)"
proof -
  have n: "n < length xs" using assms(2) by simp
  note e = elem_bytes [OF assms(1) n]
  show "builtin_memcpy m (b + of_nat (Suc n * k)) (b + of_nat (n * k)) sz = Some m'"
    unfolding m'_def using arr_mapped [OF assms(1,2)] e assms(3) elem_sep [OF assms(1,2) n]
    by (intro memcpy_mapped) simp_all
  show "arr m' b k (xs[Suc n := xs ! n])" unfolding m'_def using arr_write [OF assms(1,2)] e by simp
  show se: "same_except m m' b (length xs * k)" unfolding m'_def using elem_write_array [OF assms(1,2)] e by simp
  show "bytes_at m' tmp v" using same_except_bytes_at [OF se assms(4)] assms(5,6) by simp
qed

lemma mult_of_unat: "unat j = a \<Longrightarrow> unat sz = k \<Longrightarrow> j * sz = of_nat (a * k)" for j sz :: size_t
  by auto

section \<open>Comparison functions\<close>

text \<open>
  What \<^verbatim>\<open>qsort\<close> and \<^verbatim>\<open>bsearch\<close> ask of the comparison function: its result depends on the bytes of
  the two elements only, and is a total preorder.
\<close>

locale comparator =
  fixes cmp :: cmp
    and c :: "byte list \<Rightarrow> byte list \<Rightarrow> int"
    and k :: nat
  assumes cmp_bytes: "bytes_at m p x \<Longrightarrow> bytes_at m q y \<Longrightarrow> length x = k \<Longrightarrow> length y = k \<Longrightarrow> cmp m p q = Some (c x y)"
    and c_total: "length x = k \<Longrightarrow> length y = k \<Longrightarrow> c x y > 0 \<longleftrightarrow> c y x < 0"
    and c_trans: "length x = k \<Longrightarrow> length y = k \<Longrightarrow> length z = k \<Longrightarrow> c x y \<le> 0 \<Longrightarrow> c y z \<le> 0 \<Longrightarrow> c x z \<le> 0"
begin

abbreviation ordered :: "byte list list \<Rightarrow> bool" where
  "ordered \<equiv> sorted_wrt (\<lambda>x y. c x y \<le> 0)"

text \<open>The elements that stay in front of an inserted one, and those that move behind it.\<close>

definition stay :: "byte list \<Rightarrow> byte list list \<Rightarrow> byte list list" where
  "stay v ys = rev (dropWhile (\<lambda>y. c y v > 0) (rev ys))"

definition move :: "byte list \<Rightarrow> byte list list \<Rightarrow> byte list list" where
  "move v ys = rev (takeWhile (\<lambda>y. c y v > 0) (rev ys))"

lemma stay_move: "stay v ys @ move v ys = ys"
  by (metis rev_append rev_rev_ident stay_def move_def takeWhile_dropWhile_id)

lemma stay_snoc: "stay v (ys @ [y]) = (if c y v > 0 then stay v ys else ys @ [y])"
  by (simp add: stay_def)

lemma move_snoc: "move v (ys @ [y]) = (if c y v > 0 then move v ys @ [y] else [])"
  by (simp add: move_def)

lemma insert_ordered:
  assumes "ordered ys" "length v = k" "\<forall>y \<in> set ys. length y = k"
  shows "ordered (stay v ys @ v # move v ys)"
  using assms(1,3)
proof (induction ys rule: rev_induct)
  case (snoc y ys)
  show ?case
  proof (cases "c y v > 0")
    case True
    then have vy: "c v y \<le> 0" using c_total [of y v] snoc.prems(2) assms(2) by simp
    have "c x y \<le> 0" if "x \<in> set (stay v ys @ v # move v ys)" for x
    proof -
      from that have "x = v \<or> x \<in> set (stay v ys @ move v ys)" by auto
      then show ?thesis using snoc.prems vy by (auto simp: stay_move sorted_wrt_append)
    qed
    moreover have "ordered (stay v ys @ v # move v ys)" using snoc by (simp add: sorted_wrt_append)
    ultimately have "ordered ((stay v ys @ v # move v ys) @ [y])"
      by (subst sorted_wrt_append) auto
    then show ?thesis using True by (simp add: stay_snoc move_snoc)
  next
    case False
    then have "c x v \<le> 0" if "x \<in> set (ys @ [y])" for x
      using that snoc.prems assms(2) c_trans [of x y v] by (auto simp: sorted_wrt_append not_less)
    then show ?thesis using False snoc.prems by (simp add: stay_snoc move_snoc sorted_wrt_append)
  qed
qed (simp add: stay_def move_def)

text \<open>One step of the inner loop moves an element up by one place.\<close>

lemma qsort_inner_inserts:
  assumes "arr m b k (ys @ h # zs)" "bytes_at m tmp v" "length v = k" "unat sz = k"
    "sep b (length (ys @ h # zs) * k) tmp k" "unat j = length ys"
  shows "\<exists>m' h'. qsort_inner cmp m b tmp sz j = Some (of_nat (length (stay v ys)), m') \<and>
    arr m' b k (stay v ys @ h' # move v ys @ zs) \<and> bytes_at m' tmp v \<and>
    same_except m m' b (length (ys @ h # zs) * k)"
  using assms
proof (induction ys arbitrary: m h zs j rule: rev_induct)
  case Nil
  then have "qsort_inner cmp m b tmp sz j = Some (of_nat (length (stay v [])), m)"
    by (simp add: unat_eq_zero qsort_inner.simps [of cmp m] stay_def)
  moreover have "arr m b k (stay v [] @ h # move v [] @ zs)" using Nil(1) by (simp add: stay_def move_def)
  ultimately show ?case using Nil(2) same_except_refl by blast
next
  case (snoc y ys)
  let ?n = "length ys" and ?xs = "(ys @ [y]) @ h # zs"
  have xs: "?xs ! ?n = y" "?n < length ?xs" "Suc ?n < length ?xs" "?xs[Suc ?n := y] = ys @ y # y # zs"
    by (simp_all add: nth_append list_update_append)
  have j: "unat j = Suc ?n" using snoc.prems(6) by simp
  then have "j \<noteq> 0" by auto
  then have j0: "0 < j" and j1: "unat (j - 1) = ?n" using j by (simp_all add: word_gt_0 unat_minus_one)
  have jn: "of_nat (length (ys @ [y])) = j" using mult_of_unat [of j "Suc ?n" 1 1] j by simp
  have jm: "j * sz = of_nat (Suc ?n * k)" "(j - 1) * sz = of_nat (?n * k)"
    using mult_of_unat [OF j snoc.prems(4)] mult_of_unat [OF j1 snoc.prems(4)] .
  have r: "cmp m (b + (j - 1) * sz) tmp = Some (c y v)"
    unfolding jm by (rule cmp_bytes) (use elem_bytes [OF snoc.prems(1) xs(2)] xs(1) snoc.prems(2,3) in simp_all)
  show ?case
  proof (cases "c y v > 0")
    case False
    then have "qsort_inner cmp m b tmp sz j = Some (of_nat (length (stay v (ys @ [y]))), m)"
      using r j0 jn by (simp add: qsort_inner.simps [of cmp m] stay_snoc del: length_append)
    then show ?thesis
      using False snoc.prems(1,2) by (intro exI [of _ m] exI [of _ h]) (simp add: stay_snoc move_snoc)
  next
    case True
    note sh = arr_shift [OF snoc.prems(1) xs(3) snoc.prems(4,2,3,5), unfolded xs(1,4), folded jm]
    obtain m' h' where ih:
      "qsort_inner cmp (write_bytes m (b + j * sz) y) b tmp sz (j - 1) = Some (of_nat (length (stay v ys)), m')"
      "arr m' b k (stay v ys @ h' # move v ys @ y # zs)" "bytes_at m' tmp v"
      "same_except (write_bytes m (b + j * sz) y) m' b (length ?xs * k)"
      using snoc.IH [OF sh(2,3) snoc.prems(3,4) _ j1] snoc.prems(5) by auto
    have "qsort_inner cmp m b tmp sz j = Some (of_nat (length (stay v ys)), m')"
      using ih(1) sh(1) r True j0 by (simp add: qsort_inner.simps [of cmp m])
    moreover have "same_except m m' b (length ?xs * k)" by (rule same_except_trans [OF sh(4) ih(4)]) simp_all
    moreover have "stay v (ys @ [y]) = stay v ys" "move v (ys @ [y]) @ zs = move v ys @ y # zs"
      using True by (simp_all add: stay_snoc move_snoc)
    ultimately show ?thesis using ih(2,3) by metis
  qed
qed

end

lemma write_mapped_same:
  assumes "mapped m p (length v)"
  shows "same_except m (write_bytes m p v) p (length v)" "bytes_at (write_bytes m p v) p v"
  using mapped_bounds [OF assms] by (cases "v = []"; simp add: same_except_write write_bytes_at)+

context comparator
begin

lemma qsort_insert_step:
  assumes "arr m b k (ys @ v # zs)" "mapped m tmp k" "unat sz = k"
    "sep b (length (ys @ v # zs) * k) tmp k" "unat i = length ys"
  shows "\<exists>m1 j m2 m3. builtin_memcpy m tmp (b + i * sz) sz = Some m1 \<and> qsort_inner cmp m1 b tmp sz i = Some (j, m2) \<and>
    builtin_memcpy m2 (b + j * sz) tmp sz = Some m3 \<and> arr m3 b k (stay v ys @ v # move v ys @ zs) \<and>
    mapped m3 tmp k \<and> (\<forall>a. m3 a = m a \<or> in_range a b (length (ys @ v # zs) * k) \<or> in_range a tmp k)"
proof -
  let ?xs = "ys @ v # zs"
  have i: "length ys < length ?xs" "?xs ! length ys = v" by simp_all
  note ev = elem_bytes [OF assms(1) i(1), unfolded i(2)]
  note tm = elem_in_array [OF assms(1) i(1) assms(4)]
  define m1 where "m1 = write_bytes m tmp v"
  have cp1: "builtin_memcpy m tmp (b + i * sz) sz = Some m1"
    unfolding mult_of_unat [OF assms(5,3)] m1_def
    using ev assms(2,3) tm by (intro memcpy_mapped) (simp_all add: sep_sym)
  have se1: "same_except m m1 tmp k" "bytes_at m1 tmp v"
    using write_mapped_same [of m tmp v] ev assms(2) by (simp_all add: m1_def)
  obtain m2 h where m2: "qsort_inner cmp m1 b tmp sz i = Some (of_nat (length (stay v ys)), m2)"
      "arr m2 b k (stay v ys @ h # move v ys @ zs)" "bytes_at m2 tmp v" "same_except m1 m2 b (length ?xs * k)"
    using qsort_inner_inserts [OF arr_other [OF assms(1) se1(1) assms(4)] se1(2) _ assms(3,4,5)] ev by blast
  let ?l = "length (stay v ys)"
  have len: "?l + length (move v ys) = length ys" using stay_move [of v ys] by (metis length_append)
  then have "?l < 2 ^ 64" using unat_bound [of i] assms(5) by simp
  then have ul: "unat (of_nat ?l :: size_t) = ?l" by (rule unat_of_nat_small)
  have l: "?l < length (stay v ys @ h # move v ys @ zs)" by simp
  have ln: "length (stay v ys @ h # move v ys @ zs) = length ?xs" using len by simp
  note tl = elem_in_array [OF m2(2) l, unfolded ln, OF assms(4)]
  define m3 where "m3 = write_bytes m2 (b + of_nat (?l * k)) v"
  have cp2: "builtin_memcpy m2 (b + of_nat ?l * sz) tmp sz = Some m3"
    unfolding mult_of_unat [OF ul assms(3)] m3_def
    using m2(3) arr_mapped [OF m2(2) l] ev assms(3) tl by (intro memcpy_mapped) simp_all
  have a3: "arr m3 b k (stay v ys @ v # move v ys @ zs)"
    using arr_write [OF m2(2) l, of v] ev by (simp add: m3_def)
  have mp3: "mapped m3 tmp k" using mapped_write [OF bytes_at_mapped [OF m2(3)]] ev by (simp add: m3_def)
  have "same_except m2 m3 b (length ?xs * k)"
    using elem_write_array [OF m2(2) l, of v] ev unfolding ln m3_def by simp
  then have "m3 a = m a \<or> in_range a b (length ?xs * k) \<or> in_range a tmp k" for a
    using se1(1) m2(4) unfolding same_except_def by metis
  then show ?thesis using cp1 m2(1) cp2 a3 mp3 by blast
qed

lemma qsort_outer_sorts:
  assumes "arr m b k (ys @ zs)" "ordered ys" "mapped m tmp k" "unat sz = k"
    "sep b (length (ys @ zs) * k) tmp k" "unat i = length ys" "unat n = length (ys @ zs)"
  shows "\<exists>m' xs. qsort_outer cmp m b tmp sz i n = Some m' \<and> arr m' b k xs \<and> ordered xs \<and> mset xs = mset (ys @ zs) \<and>
    (\<forall>a. m' a = m a \<or> in_range a b (length (ys @ zs) * k) \<or> in_range a tmp k)"
  using assms
proof (induction zs arbitrary: ys m i)
  case Nil
  then have "\<not> i < n" by (simp add: word_less_nat_alt)
  then show ?case using Nil(1,2) by (intro exI [of _ m] exI [of _ ys]) (simp add: qsort_outer.simps [of cmp m])
next
  case (Cons v zs)
  have lt: "i < n" using Cons.prems(6,7) by (simp add: word_less_nat_alt)
  obtain m1 j m2 m3 where st: "builtin_memcpy m tmp (b + i * sz) sz = Some m1"
      "qsort_inner cmp m1 b tmp sz i = Some (j, m2)" "builtin_memcpy m2 (b + j * sz) tmp sz = Some m3"
      "arr m3 b k ((stay v ys @ v # move v ys) @ zs)" "mapped m3 tmp k"
      "\<And>a. m3 a = m a \<or> in_range a b (length (ys @ v # zs) * k) \<or> in_range a tmp k"
    using qsort_insert_step [OF Cons.prems(1,3,4,5,6)] by auto
  let ?ys = "stay v ys @ v # move v ys"
  have ord: "ordered ?ys" using insert_ordered [OF Cons.prems(2), of v] arr_lengths [OF Cons.prems(1)] by simp
  have len: "length ?ys = Suc (length ys)" using stay_move [of v ys] by (metis length_append length_Cons add_Suc_right)
  have ms: "mset (?ys @ zs) = mset (ys @ v # zs)" using arg_cong [OF stay_move [of v ys], of mset] by simp
  have "unat (i + 1) = length ?ys" using unat_Suc_less [OF lt] Cons.prems(6) len by simp
  moreover have ll: "length (?ys @ zs) = length (ys @ v # zs)" using len by simp
  ultimately obtain m' xs where ih:
      "qsort_outer cmp m3 b tmp sz (i + 1) n = Some m'" "arr m' b k xs" "ordered xs" "mset xs = mset (?ys @ zs)"
      "\<And>a. m' a = m3 a \<or> in_range a b (length (?ys @ zs) * k) \<or> in_range a tmp k"
    using Cons.IH [OF st(4) ord st(5) Cons.prems(4) Cons.prems(5) [folded ll]
        _ Cons.prems(7) [folded ll]] by blast
  have "qsort_outer cmp m b tmp sz i n = Some m'"
    using lt st(1-3) ih(1) by (simp add: qsort_outer.simps [of cmp m])
  moreover have "m' a = m a \<or> in_range a b (length (ys @ v # zs) * k) \<or> in_range a tmp k" for a
    using ih(5) [of a, unfolded ll] st(6) [of a] by auto
  ultimately show ?case using ih(2-4) ms by (intro exI [of _ m'] exI [of _ xs]) (simp only: simp_thms)
qed

end

lemma sep_apart:
  assumes "\<And>a. \<not> (in_range a p n \<and> in_range a q l)" "0 < n" "0 < l"
  shows "sep p n q l"
proof (rule ccontr)
  assume "\<not> sep p n q l"
  then have "in_range (if unat p \<le> unat q then q else p) p n \<and> in_range (if unat p \<le> unat q then q else p) q l"
    using assms(2,3) by (auto simp: sep_def in_range_def)
  then show False using assms(1) by blast
qed

context comparator
begin

lemma qsort_outer_array:
  assumes "arr m b k xs" "mapped m tmp k" "unat sz = k" "unat n = length xs"
    "\<And>a. \<not> (in_range a b (length xs * k) \<and> in_range a tmp k)"
  shows "\<exists>m' ys. qsort_outer cmp m b tmp sz 1 n = Some m' \<and> arr m' b k ys \<and> ordered ys \<and> mset ys = mset xs \<and>
    (\<forall>a. m' a = m a \<or> in_range a b (length xs * k) \<or> in_range a tmp k)"
proof (cases xs)
  case Nil
  then have "qsort_outer cmp m b tmp sz 1 n = Some m"
    using assms(4) by (simp add: qsort_outer.simps [of cmp m] word_less_nat_alt)
  then show ?thesis using assms(1) Nil by auto
next
  case (Cons x zs)
  have "sep b (length xs * k) tmp k"
    using Cons sep_apart [OF assms(5)] by (cases "k = 0") (auto simp: sep_def)
  then show ?thesis using qsort_outer_sorts [of m b "[x]" zs tmp sz 1 n] assms(1-4) Cons by simp
qed

lemma qsort_array:
  fixes s :: "'s heap_scheme"
  assumes "heap_inv s" "unat sz = k" "k < 2 ^ 62" "arr (mem s) base k xs" "unat n = length xs"
    "\<forall>a. in_range a base (length xs * k) \<longrightarrow> live s a"
  shows "\<exists>s' ys. qsort s base n sz cmp = Some s' \<and> arr (mem s') base k ys \<and> mset ys = mset xs \<and>
    (ordered ys \<or> ys = xs \<and> (\<exists>s1. malloc s sz = Some (NULL, s1))) \<and>
    (\<forall>a. live s a \<and> \<not> in_range a base (length xs * k) \<longrightarrow> mem s' a = mem s a)"
proof -
  have sz: "unat sz < 2 ^ 62" using assms(2,3) by simp
  obtain tmp s1 where m: "malloc s sz = Some (tmp, s1)" using hp.alloc_returns [OF assms(1) sz] by blast
  have keep: "mem s1 a = mem s a" if "live s a" for a using hp.alloc_keeps [OF assms(1) sz m that] by simp
  have a1: "arr (mem s1) base k xs" using assms(4) by (rule arr_cong) (use keep assms(6) in blast)
  show ?thesis
  proof (cases "tmp = NULL")
    case True
    then show ?thesis using m a1 keep by (intro exI [of _ s1] exI [of _ xs]) (simp add: qsort_def)
  next
    case False
    have fresh: "\<not> live s a" if "in_range a tmp k" for a
      using that hp.alloc_fresh [OF assms(1) sz m False, of a] assms(2) by simp
    have tm: "mapped (mem s1) tmp k" using hp.alloc_mapped [OF assms(1) sz m False] assms(2) by simp
    obtain m' ys where q: "qsort_outer cmp (mem s1) base tmp sz 1 n = Some m'" "arr m' base k ys" "ordered ys"
        "mset ys = mset xs" "\<And>a. m' a = mem s1 a \<or> in_range a base (length xs * k) \<or> in_range a tmp k"
      using qsort_outer_array [OF a1 tm assms(2,5)] fresh assms(6) by blast
    have "m' a = mem s a" if "live s a" "\<not> in_range a base (length xs * k)" for a
      using that q(5) [of a] keep [of a] fresh [of a] by auto
    then show ?thesis
      using q(1-4) m False by (intro exI [of _ "s1\<lparr>mem := m'\<rparr>"] exI [of _ ys]) (simp add: qsort_def free_def)
  qed
qed

lemma c_before: "length v = k \<Longrightarrow> length x = k \<Longrightarrow> length y = k \<Longrightarrow> c v x < 0 \<Longrightarrow> c x y \<le> 0 \<Longrightarrow> c v y < 0"
  using c_total [of y v] c_total [of x v] c_trans [of x y v] by (meson linorder_not_le)

lemma c_after: "length v = k \<Longrightarrow> length x = k \<Longrightarrow> length y = k \<Longrightarrow> c v x > 0 \<Longrightarrow> c y x \<le> 0 \<Longrightarrow> c v y > 0"
  using c_trans [of v y x] by (meson linorder_not_le)

end

lemma arr_index: "unat b + n * k < 2 ^ 64 \<Longrightarrow> i \<le> n \<Longrightarrow> unat (b + of_nat (i * k)) = unat b + i * k" for b :: addr
  by (rule unat_plus_of_nat) (use mult_le_mono1 [of i n k] in linarith)

lemma arr_mid:
  fixes b sz :: addr
  assumes "unat b + n * k < 2 ^ 64" "l \<le> h" "h \<le> n" "unat sz = k" "0 < k"
  shows "b + of_nat (l * k) + (b + of_nat (h * k) - (b + of_nat (l * k))) div sz div 2 * sz =
    b + of_nat ((l + (h - l) div 2) * k)"
proof -
  have le: "(h - l) * k \<le> n * k" using assms(2,3) by (intro mult_le_mono1) simp
  have sz: "sz = of_nat k" using assms(4) by auto
  have "b + of_nat (h * k) - (b + of_nat (l * k)) = of_nat ((h - l) * k)"
    using assms(2) by (simp add: diff_mult_distrib of_nat_diff algebra_simps)
  moreover have "unat (of_nat ((h - l) * k) div sz div 2) = (h - l) div 2"
  proof -
    have "unat (of_nat ((h - l) * k) :: addr) = (h - l) * k"
      by (rule unat_of_nat_small) (use le assms(1) in linarith)
    then show ?thesis using assms(4,5) by (simp add: unat_div)
  qed
  then have "of_nat ((h - l) * k) div sz div 2 = of_nat ((h - l) div 2)" by (metis of_nat_unat ucast_id)
  ultimately show ?thesis by (simp add: sz algebra_simps)
qed

context comparator
begin

lemma bsearch_loop_finds:
  assumes "arr m b k xs" "unat b + length xs * k < 2 ^ 64" "unat sz = k" "0 < k" "ordered xs"
    "bytes_at m key v" "length v = k"
  shows "l \<le> h \<Longrightarrow> h \<le> length xs \<Longrightarrow> \<forall>i < l. c v (xs ! i) > 0 \<Longrightarrow> \<forall>i < length xs. h \<le> i \<longrightarrow> c v (xs ! i) < 0 \<Longrightarrow>
    \<exists>p. bsearch_loop cmp m key sz (b + of_nat (l * k)) (b + of_nat (h * k)) = Some p \<and>
      (p = NULL \<and> (\<forall>x \<in> set xs. c v x \<noteq> 0) \<or>
       p \<noteq> NULL \<and> (\<exists>i < length xs. p = b + of_nat (i * k) \<and> c v (xs ! i) = 0))"
proof (induction "h - l" arbitrary: l h rule: less_induct)
  case less
  have lo: "unat (b + of_nat (l * k)) = unat b + l * k" and hi: "unat (b + of_nat (h * k)) = unat b + h * k"
    using arr_index [OF assms(2)] less.prems(1,2) by simp_all
  have sz: "sz \<noteq> 0" using assms(3,4) by auto
  show ?case
  proof (cases "l < h")
    case False
    then have "c v (xs ! i) \<noteq> 0" if "i < length xs" for i
      using less.prems(3,4) that by (cases "i < l") auto
    then have "\<forall>x \<in> set xs. c v x \<noteq> 0" by (auto simp: in_set_conv_nth)
    then show ?thesis using False lo hi less.prems(1) by (simp add: bsearch_loop.simps [of cmp m key sz] word_less_nat_alt)
  next
    case True
    define j where "j = l + (h - l) div 2"
    have j: "l \<le> j" "j < h" "j < length xs" using True less.prems(2) by (auto simp: j_def)
    have lt: "b + of_nat (l * k) < b + of_nat (h * k)"
      unfolding word_less_nat_alt lo hi using True assms(4) by simp
    have r: "cmp m key (b + of_nat (j * k)) = Some (c v (xs ! j))"
      using cmp_bytes [OF assms(6) _ assms(7)] elem_bytes [OF assms(1) j(3)] by blast
    have step: "bsearch_loop cmp m key sz (b + of_nat (l * k)) (b + of_nat (h * k)) =
        (if c v (xs ! j) < 0 then bsearch_loop cmp m key sz (b + of_nat (l * k)) (b + of_nat (j * k))
         else if c v (xs ! j) > 0 then bsearch_loop cmp m key sz (b + of_nat (Suc j * k)) (b + of_nat (h * k))
         else Some (b + of_nat (j * k)))"
      using lt sz r arr_mid [OF assms(2) less.prems(1,2) assms(3,4), folded j_def] assms(3)
      by (subst bsearch_loop.simps) (auto simp: algebra_simps)
    consider "c v (xs ! j) < 0" | "c v (xs ! j) > 0" | "c v (xs ! j) = 0" by linarith
    then show ?thesis
    proof cases
      case 1
      have "c v (xs ! i) < 0" if "i < length xs" "j \<le> i" for i
        using that 1 c_before [OF assms(7) _ _ 1, of "xs ! i"] elem_bytes [OF assms(1)] j(3) sorted_wrt_nth_less [OF assms(5), of j i] by (cases "i = j") auto
      then show ?thesis using less.hyps [of j l] less.prems(3) j 1 step by simp
    next
      case 2
      have "c v (xs ! i) > 0" if "i < Suc j" for i
        using that 2 j(3) c_after [OF assms(7) _ _ 2, of "xs ! i"] elem_bytes [OF assms(1)] sorted_wrt_nth_less [OF assms(5), of i j] by (cases "i = j") auto
      moreover have "\<not> c v (xs ! j) < 0" using 2 by simp
      ultimately show ?thesis using less.hyps [of h "Suc j"] less.prems(2,4) j 2 by (simp only: step if_False if_True) simp
    next
      case 3
      have "b + of_nat (j * k) \<noteq> NULL"
        using elem_bounds(1) [OF assms(1) j(3) assms(4)] by auto
      then show ?thesis using step 3 j(3) by auto
    qed
  qed
qed

lemma bsearch_array:
  assumes "arr m b k xs" "unat b + length xs * k < 2 ^ 64" "unat sz = k" "0 < k" "ordered xs"
    "bytes_at m key v" "length v = k" "unat n = length xs"
  shows "\<exists>p. bsearch m key b n sz cmp = Some p \<and>
      (p = NULL \<and> (\<forall>x \<in> set xs. c v x \<noteq> 0) \<or>
       p \<noteq> NULL \<and> (\<exists>i < length xs. p = b + of_nat (i * k) \<and> c v (xs ! i) = 0))"
  using bsearch_loop_finds [OF assms(1-7), of 0 "length xs"] mult_of_unat [OF assms(8,3)] by (simp add: bsearch_def)

end

section \<open>The byte order as a comparison\<close>

lemma bytes_cmp_anti: "length x = length y \<Longrightarrow> bytes_cmp x y > 0 \<longleftrightarrow> bytes_cmp y x < 0"
  by (induction x y rule: list_induct2) auto

lemma bytes_cmp_trans:
  "length x = length y \<Longrightarrow> length y = length z \<Longrightarrow> bytes_cmp x y \<le> 0 \<Longrightarrow> bytes_cmp y z \<le> 0 \<Longrightarrow> bytes_cmp x z \<le> 0"
  by (induction x y z rule: list_induct3) (auto split: if_splits)

lemma bcmp_comparator: "comparator (\<lambda>m p q. bcmp m p q n) bytes_cmp (unat n)"
proof
  show "bcmp m p q n = Some (bytes_cmp x y)"
    if "bytes_at m p x" "bytes_at m q y" "length x = unat n" "length y = unat n" for m p q x y
    using that loadn_bytes_at [of m p x] loadn_bytes_at [of m q y] by (simp add: bcmp_def builtin_memcmp_def)
  show "bytes_cmp x z \<le> 0" if "length x = unat n" "length y = unat n" "length z = unat n" "bytes_cmp x y \<le> 0" "bytes_cmp y z \<le> 0" for x y z
    using bytes_cmp_trans [of x y z] that by simp
qed (simp add: bytes_cmp_anti)

interpretation bcmp4: comparator "\<lambda>m p q. bcmp m p q 4" bytes_cmp 4
  using bcmp_comparator [of 4] by simp

section \<open>Waiting\<close>

lemma uptime_eq [simp]:
  "innigkeit_uptime_ms s = (clock s (clock_reads s), s\<lparr>clock_reads := Suc (clock_reads s)\<rparr>)"
  by (simp add: innigkeit_uptime_ms_def sys_uptime_ms_def)

lemma busy_wait_returns:
  "target \<le> clock s (clock_reads s + n) \<Longrightarrow>
   \<exists>k \<le> n. busy_wait s target = Some (s\<lparr>clock_reads := clock_reads s + Suc k\<rparr>) \<and>
     target \<le> clock s (clock_reads s + k) \<and> (\<forall>j < k. clock s (clock_reads s + j) < target)"
proof (induction n arbitrary: s)
  case 0
  then have "\<not> clock s (clock_reads s) < target" "target \<le> clock s (clock_reads s)" by simp_all
  then show ?case by (simp add: busy_wait.simps [of s] del: not_less)
next
  case (Suc n)
  show ?case
  proof (cases "clock s (clock_reads s) < target")
    case False
    then have "target \<le> clock s (clock_reads s)" by simp
    with False show ?thesis by (intro exI [of _ 0]) (simp add: busy_wait.simps [of s] del: not_less)
  next
    case True
    let ?s = "s\<lparr>clock_reads := Suc (clock_reads s)\<rparr>"
    obtain k where k: "k \<le> n" "busy_wait ?s target = Some (?s\<lparr>clock_reads := clock_reads ?s + Suc k\<rparr>)"
        "target \<le> clock ?s (clock_reads ?s + k)" "\<forall>j < k. clock ?s (clock_reads ?s + j) < target"
      using Suc.IH [of ?s] Suc.prems by auto
    have "clock s (clock_reads s + j) < target" if "j < Suc k" for j
      using that True k(4) by (cases j) auto
    with True k show ?thesis by (intro exI [of _ "Suc k"]) (simp add: busy_wait.simps [of s])
  qed
qed

lemma busy_wait_Some: "busy_wait s target = Some s' \<Longrightarrow> \<exists>n. target \<le> clock s (clock_reads s + n)"
proof (rule busy_wait.raw_induct [where P = "\<lambda>s target s'. \<exists>n. target \<le> clock s (clock_reads s + n)"], goal_cases)
  case (1 busy s target s')
  show ?case
  proof (cases "clock s (clock_reads s) < target")
    case True
    with 1(3) have "busy (s\<lparr>clock_reads := Suc (clock_reads s)\<rparr>) target = Some s'" by simp
    from 1(2) [OF this] obtain n where "target \<le> clock s (clock_reads s + Suc n)" by auto
    then show ?thesis by blast
  next
    case False
    then show ?thesis by (intro exI [of _ 0]) (simp add: not_less)
  qed
qed

section \<open>Reading back what was printed\<close>

lemma digit_char_digit: "d < 10 \<Longrightarrow> strtol_digit (digit_char u d) = Some (int d)"
  by (simp add: less_Suc_eq numeral_eq_Suc digit_char_def) (elim disjE; simp; code_simp)

fun digits_list :: "nat \<Rightarrow> nat list" where
  "digits_list v = (if v < 10 then [v] else digits_list (v div 10) @ [v mod 10])"

declare digits_list.simps [simp del]

lemma decimal_step: "decimal v = (if v < 10 then [48 + of_nat v] else decimal (v div 10) @ [48 + of_nat (v mod 10)])"
proof (cases "v < 10")
  case True
  then show ?thesis
    by (simp add: decimal_def digits_rev.simps [of 10 False v] digits_rev.simps [of 10 False 0] digit_char_def)
next
  case False
  then have "v div 10 \<noteq> 0" by (simp add: div_eq_0_iff)
  with False show ?thesis by (simp add: decimal_def digits_rev.simps [of 10 False v] digit_char_def)
qed

lemma decimal_digits:
  "map strtol_digit (decimal v) = map Some (map int (digits_list v)) \<and> (\<forall>d \<in> set (digits_list v). d < 10) \<and>
   digits_value 10 0 (map int (digits_list v)) = int v"
proof (induction v rule: digits_list.induct)
  case (1 v)
  have d: "strtol_digit (48 + of_nat w) = Some (int w)" if "w < 10" for w
    using digit_char_digit [OF that] that by (simp add: digit_char_def)
  show ?case
  proof (cases "v < 10")
    case True
    then show ?thesis using d [of v] by (simp add: decimal_step [of v] digits_list.simps [of v] digits_value_def)
  next
    case False
    then show ?thesis using 1 d [of "v mod 10"]
      by (simp add: decimal_step [of v] digits_list.simps [of v] digits_value_def zdiv_int zmod_int mult.commute)
  qed
qed

lemma decimal_nonempty: "decimal v \<noteq> []"
  by (simp add: decimal_step [of v])

text \<open>The decimal numeral of an integer.\<close>

definition decimal_int :: "int \<Rightarrow> byte list" where
  "decimal_int v = (if v < 0 then [45] else []) @ decimal (nat \<bar>v\<bar>)"

lemma parse_spec_d: "load8 m p = Some 100 \<Longrightarrow> parse_spec m p args = Some (plain_spec, p, args)"
  by (simp add: parse_spec_def parse_flags_none parse_num_none parse_width_def parse_prec_def parse_long_def plain_spec_def)

lemma fmtUint_decimal_int:
  assumes "\<bar>v\<bar> < 2 ^ 63"
  shows "fmtUint (nat \<bar>v\<bar>) 10 False (v < 0) 0 None False False = Some (decimal_int v)"
proof -
  have "(2 :: nat) ^ 63 \<le> 10 ^ 64" by (rule order_trans [OF power_mono [of 2 10 63]]) simp_all
  moreover have "nat \<bar>v\<bar> < 2 ^ 63" using assms by (simp add: nat_less_iff)
  ultimately have "length (digits_rev 10 False (nat \<bar>v\<bar>)) \<le> 64" by (intro length_digits_rev) simp_all
  then show ?thesis by (simp add: fmtUint_def decimal_def decimal_int_def Let_def)
qed

lemma format_bytes_d:
  assumes "bytes_at m p [37, 100]" "format_bytes m (p + 1 + 1) args = Some out"
  shows "format_bytes m p (x # args) = Some (decimal_int (sint (ucast x :: u32)) @ out)"
proof -
  define v where "v = sint (ucast x :: u32)"
  have v: "- 2147483648 \<le> v" "v < 2147483648"
    using sint_ge [of "ucast x :: u32"] sint_lt [of "ucast x :: u32"] by (simp_all add: v_def)
  then have c: "(if v < 0 then c_long (- v) else Some v) = Some \<bar>v\<bar>" by (simp add: c_long_def LONG_MIN_def LONG_MAX_def)
  have "fmtUint (nat \<bar>v\<bar>) 10 False (v < 0) 0 None False False = Some (decimal_int v)"
    using v by (intro fmtUint_decimal_int) simp
  then have "convert m plain_spec 100 (x # args) = Some ([Lit (decimal_int v)], args)"
    using c by (simp add: convert_def plain_spec_def va_signed_def va_int_def va_slot_def flip: v_def)
  then show ?thesis using assms parse_spec_d [of m "p + 1" "x # args"]
    by (simp add: format_bytes.simps [of m p] flip: v_def)
qed

lemma strtol_parse_decimal:
  assumes "cstr m p (decimal_int v @ rest)" "rest \<noteq> [] \<longrightarrow> ends_numeral 10 (hd rest)" "\<bar>v\<bar> \<le> LONG_MAX"
  shows "strtol_parse m p 10 = Some (v, p + of_nat (length (decimal_int v)))"
proof -
  have "set ([] :: byte list) \<subseteq> {chr_space, chr_tab}" by simp
  moreover have "(if v < 0 then [45] else []) \<in> {[], [chr_plus], [chr_minus]}" by simp
  moreover have "(if v < 0 then [45] else []) = [chr_minus] \<longleftrightarrow> v < 0" by simp
  moreover have "cstr m p ([] @ (if v < 0 then [45] else []) @ decimal (nat \<bar>v\<bar>) @ rest)"
    using assms(1) by (simp add: decimal_int_def)
  ultimately show ?thesis
    using strtol_parse_numeral [of m p "[]" "if v < 0 then [45] else []" "decimal (nat \<bar>v\<bar>)" rest
        "map int (digits_list (nat \<bar>v\<bar>))" 10] decimal_digits [of "nat \<bar>v\<bar>"] decimal_nonempty assms(2,3)
    by (cases "v < 0") (simp_all add: decimal_int_def)
qed

definition word_char :: "byte \<Rightarrow> bool" where
  "word_char c \<longleftrightarrow> c \<noteq> 0 \<and> isspace (uint c) = 0"

lemma cstr_write_sep:
  assumes "cstr m p s" "sep q (length bs) p (Suc (length s))" "mapped m q (length bs)"
  shows "cstr (write_bytes m q bs) p s"
proof (cases "bs = []")
  case False
  then have "same_except m (write_bytes m q bs) q (length bs)"
    using mapped_bounds [OF assms(3)] by (intro same_except_write) auto
  then show ?thesis using same_except_cstr [of m _ q "length bs" p s] assms(1,2) by simp
qed (use assms(1) in simp)

text \<open>The second loop of the string conversion copies one word.\<close>

lemma scan_word_copies:
  assumes "cstr m str (xs @ rest)" "list_all word_char xs" "rest = [] \<or> \<not> word_char (hd rest)"
    "mapped m p (length xs)" "sep p (length xs) str (Suc (length (xs @ rest)))"
  shows "scan_word m p str = Some (p + of_nat (length xs), str + of_nat (length xs), write_bytes m p xs)"
  using assms
proof (induction xs arbitrary: m p str)
  case Nil
  have "load8 m str = Some (hd (rest @ [0]))" using Nil.prems(1) by (cases rest) simp_all
  moreover have "\<not> word_char (hd (rest @ [0]))" using Nil.prems(3) by (cases rest) (simp_all add: word_char_def)
  ultimately show ?case by (auto simp: scan_word.simps [of m] word_char_def)
next
  case (Cons c xs)
  have st: "store8 m p c = Some (m(p \<mapsto> c))"
    using Cons.prems(4) by (auto simp: store8_def load8_def split: if_splits)
  have b: "0 < unat str" "unat str + Suc (length ((c # xs) @ rest)) \<le> 2 ^ 64" using cstr_bounds [OF Cons.prems(1)] by blast+
  then have str1: "unat (str + 1) = Suc (unat str)" by (intro unat_plus_one) simp
  have pb: "unat p + length (c # xs) \<le> 2 ^ 64" using mapped_bounds [OF Cons.prems(4)] by simp
  have sp: "sep (p + 1) (length xs) (str + 1) (Suc (length (xs @ rest)))"
  proof (cases "xs = []")
    case True
    have "unat (p + 1) = 0 \<or> unat (p + 1) = Suc (unat p)" using unat_Suc_word [of p] by fastforce
    then show ?thesis using True Cons.prems(5) str1 by (auto simp: sep_def)
  next
    case False
    then have "unat (p + 1) = Suc (unat p)" using pb by (intro unat_plus_one) (cases xs; simp)
    then show ?thesis using Cons.prems(5) str1 by (auto simp: sep_def)
  qed
  define m1 where "m1 = write_bytes m p [c]"
  have "cstr m1 (str + 1) (xs @ rest)"
    unfolding m1_def using Cons.prems(1,4,5) str1 by (intro cstr_write_sep) (auto simp: sep_def)
  moreover have "mapped m1 (p + 1) (length xs)"
    unfolding m1_def using mapped_write [of m "p + 1" "length xs" p "[c]"] Cons.prems(4) by simp
  ultimately have "scan_word m1 (p + 1) (str + 1) =
      Some (p + 1 + of_nat (length xs), str + 1 + of_nat (length xs), write_bytes m1 (p + 1) xs)"
    using Cons.IH [of m1 "str + 1" "p + 1"] Cons.prems(2,3) sp by simp
  then show ?case using Cons.prems(1,2) st by (simp add: m1_def scan_word.simps [of m] word_char_def add.assoc)
qed

lemma sscanf_word_step:
  assumes "cstr m str (xs @ rest)" "xs \<noteq> []" "list_all word_char xs" "rest = [] \<or> \<not> word_char (hd rest)"
    "mapped m p (Suc (length xs))" "sep p (length xs) str (Suc (length (xs @ rest)))"
  shows "sscanf_conv m str 115 (p # ap) = Some (1, str + of_nat (length xs), ap, write_bytes m p (xs @ [0]))"
proof -
  have "load8 m str = Some (hd xs) \<and> word_char (hd xs)" using assms(1-3) by (cases xs) auto
  then have "scan_while (\<lambda>c. Some (c \<noteq> 0 \<and> isspace (uint c) \<noteq> 0)) m str = Some str"
    by (simp add: scan_while.simps [of _ m] word_char_def)
  moreover have "mapped m p (length xs)" "mapped m (p + of_nat (length xs)) 1"
    using assms(5) mapped_append [of m p "length xs" 1] by simp_all
  moreover from this have "store8 (write_bytes m p xs) (p + of_nat (length xs)) 0 =
      Some (write_bytes (write_bytes m p xs) (p + of_nat (length xs)) [0])"
    using mapped_write [of m "p + of_nat (length xs)" 1 p xs] by (auto simp: store8_def load8_def split: if_splits)
  ultimately show ?thesis
    using scan_word_copies [OF assms(1,3,4) _ assms(6)] by (simp add: sscanf_conv_def va_slot_def write_bytes_append)
qed

lemma sscanf_int_step:
  assumes "cstr m str (decimal_int v @ rest)" "rest \<noteq> [] \<longrightarrow> ends_numeral 10 (hd rest)" "\<bar>v\<bar> \<le> LONG_MAX" "mapped m p 4"
  shows "sscanf_conv m str 100 (p # ap) =
    Some (1, str + of_nat (length (decimal_int v)), ap, write_bytes m p (le_bytes 4 (word_of_int v :: u32)))"
  using strtol_parse_decimal [OF assms(1-3)] assms(4)
  by (simp add: sscanf_conv_def va_slot_def store32_def storen_eq)

lemma sscanf_step:
  assumes "load8 m fmt = Some 37" "load8 m (fmt + 1) = Some k" "load8 m str = Some c" "c \<noteq> 0"
    "sscanf_conv m str k ap = Some (n, str', ap', m')"
  shows "sscanf_loop m str fmt ap cnt = sscanf_loop m' str' (fmt + 1 + 1) ap' (cnt + n)"
  using assms by (simp add: sscanf_loop.simps [of m str])

lemma sscanf_literal:
  assumes "load8 m fmt = Some c" "load8 m str = Some c" "c \<noteq> 0" "c \<noteq> 37"
  shows "sscanf_loop m str fmt ap cnt = sscanf_loop m (str + 1) (fmt + 1) ap cnt"
  using assms by (simp add: sscanf_loop.simps [of m str])

lemma sscanf_stop: "load8 m fmt = Some 0 \<Longrightarrow> sscanf_loop m str fmt ap cnt = Some (cnt, m)"
  by (simp add: sscanf_loop.simps [of m str])

text \<open>A line of a name and a number, as in \<^verbatim>\<open>sscanf(line, "%s %d", name, &value)\<close>.\<close>

definition setting_line :: "byte list \<Rightarrow> int \<Rightarrow> byte list" where
  "setting_line name v = name @ 32 # decimal_int v"

lemma sscanf_setting_line:
  assumes "cstr m str (setting_line name v)" "cstr m fmt (chars ''%s %d'')"
    "name \<noteq> []" "list_all word_char name" "INT_MIN \<le> v" "v \<le> INT_MAX"
    "mapped m np (Suc (length name))" "mapped m p 4"
    "sep np (Suc (length name)) str (Suc (length (setting_line name v)))" "sep np (Suc (length name)) fmt 6"
    "sep p 4 fmt 6"
  shows "sscanf m str fmt (np # p # ap) =
    Some (2, write_bytes (write_bytes m np (name @ [0])) p (le_bytes 4 (word_of_int v :: u32)))"
proof -
  define m1 where "m1 = write_bytes m np (name @ [0])"
  define m2 where "m2 = write_bytes m1 p (le_bytes 4 (word_of_int v :: u32))"
  let ?l = "of_nat (length name) :: addr"
  have l: "cstr m str (name @ (32 # decimal_int v))" using assms(1) by (simp add: setting_line_def)
  have mp: "mapped m np (length (name @ [0]))" using assms(7) by simp
  have fl: "Suc (length (chars ''%s %d'')) = 6" by (simp add: chars_def)
  have s1: "cstr m1 str (name @ (32 # decimal_int v))" "cstr m1 fmt (chars ''%s %d'')"
    unfolding m1_def using cstr_write_sep [OF l _ mp] cstr_write_sep [OF assms(2) _ mp] assms(9,10)
    by (simp_all add: setting_line_def fl)
  have p1: "mapped m1 p 4" unfolding m1_def by (rule mapped_write [OF assms(8)])
  have s2: "cstr m2 fmt (chars ''%s %d'')"
    unfolding m2_def using cstr_write_sep [OF s1(2), of p "le_bytes 4 (word_of_int v :: u32)"] assms(11) p1
    by (simp add: fl)
  have f: "load8 m fmt = Some 37" "load8 m (fmt + 1) = Some 115" "load8 m1 (fmt + 1 + 1) = Some 32"
      "load8 m1 (fmt + 1 + 1 + 1) = Some 37" "load8 m1 (fmt + 1 + 1 + 1 + 1) = Some 100" "load8 m2 (fmt + 1 + 1 + 1 + 1 + 1) = Some 0"
    using assms(2) s1(2) s2 by (simp_all add: chars_def)
  have "sep np (length name) str (Suc (length (name @ 32 # decimal_int v)))"
    using assms(9) by (auto simp: sep_def setting_line_def)
  then have c1: "sscanf_conv m str 115 (np # p # ap) = Some (1, str + ?l, p # ap, m1)"
    unfolding m1_def using assms(3,4,7) by (intro sscanf_word_step [OF l]) (simp_all add: word_char_def isspace_def)
  have d: "bytes_at m1 str name" "cstr m1 (str + ?l) (32 # decimal_int v)" using s1(1) cstr_append [of m1 str name] by blast+
  then have c2: "sscanf_conv m1 (str + ?l + 1) 100 (p # ap) = Some (1, str + ?l + 1 + of_nat (length (decimal_int v)), ap, m2)"
    unfolding m2_def using assms(5,6) p1 by (intro sscanf_int_step [where rest = "[]"]) (simp_all add: c_range_defs)
  have h: "load8 m str = Some (hd name)" "hd name \<noteq> 0" "load8 m1 (str + ?l + 1) = Some (hd (decimal_int v))" "hd (decimal_int v) \<noteq> 0"
    using l d(2) assms(3) decimal_nonempty [of "nat \<bar>v\<bar>"] by (cases name; cases "decimal_int v"; simp add: decimal_int_def)+
  show ?thesis unfolding sscanf_def
    using sscanf_step [OF f(1,2) h(1,2) c1, of 0] sscanf_literal [OF f(3), of "str + ?l"] d(2)
      sscanf_step [OF f(4,5) h(3,4) c2] sscanf_stop [OF f(6)]
    by (simp add: m1_def m2_def)
qed

section \<open>Properties\<close>

text \<open>
  C3.  qsort returns an array with the same elements, ordered by the comparison function (an order
  on the bytes of the elements).  When malloc has no room for the spare element the array keeps its
  order.  The rest of the caller's memory is unchanged.
\<close>

theorem qsort_sorts:
  fixes s :: "'s heap_scheme"
  assumes "comparator cmp c (unat sz)" "heap_inv s" "unat sz < 2 ^ 62"
    "arr (mem s) base (unat sz) xs" "unat n = length xs"
    "\<forall>a. in_range a base (length xs * unat sz) \<longrightarrow> live s a"
  shows "\<exists>s' ys. qsort s base n sz cmp = Some s' \<and> arr (mem s') base (unat sz) ys \<and> mset ys = mset xs \<and>
    (sorted_wrt (\<lambda>x y. c x y \<le> 0) ys \<or> ys = xs \<and> (\<exists>s1. malloc s sz = Some (NULL, s1))) \<and>
    (\<forall>a. live s a \<and> \<not> in_range a base (length xs * unat sz) \<longrightarrow> mem s' a = mem s a)"
  by (rule comparator.qsort_array [OF assms(1,2) refl assms(3-6)])

text \<open>
  C13.  bsearch in an ordered array always returns: the address of an element that compares equal
  to the key, or NULL when no element does.
\<close>

theorem bsearch_finds:
  assumes "comparator cmp c (unat sz)" "arr m base (unat sz) xs" "unat base + length xs * unat sz < 2 ^ 64"
    "0 < unat sz" "sorted_wrt (\<lambda>x y. c x y \<le> 0) xs" "bytes_at m key v" "length v = unat sz" "unat n = length xs"
  shows "\<exists>p. bsearch m key base n sz cmp = Some p \<and>
      (p = NULL \<and> (\<forall>x \<in> set xs. c v x \<noteq> 0) \<or>
       p \<noteq> NULL \<and> (\<exists>i < length xs. p = base + of_nat (i * unat sz) \<and> c v (xs ! i) = 0))"
  by (rule comparator.bsearch_array [OF assms(1-3) refl assms(4-8)])

text \<open>
  C14.  usleep returns exactly when the clock reaches the start time plus the milliseconds asked
  for (rounded down), at the first reading that does; while the clock stays behind it never returns.
\<close>

theorem usleep_waits:
  "usleep s usec =
     (let r = Suc (clock_reads s); target = clock s (clock_reads s) + usec div 1000 in
      if \<exists>n. target \<le> clock s (r + n)
      then Some (0, s\<lparr>clock_reads := r + Suc (LEAST n. target \<le> clock s (r + n))\<rparr>)
      else None)"
proof -
  let ?s = "s\<lparr>clock_reads := Suc (clock_reads s)\<rparr>" and ?r = "Suc (clock_reads s)"
  define t where "t = clock s (clock_reads s) + usec div 1000"
  have u: "usleep s usec = do { s \<leftarrow> busy_wait ?s t; Some (0, s) }" by (simp add: usleep_def t_def)
  show ?thesis
  proof (cases "\<exists>n. t \<le> clock s (?r + n)")
    case True
    then obtain n where "t \<le> clock ?s (clock_reads ?s + n)" by auto
    from busy_wait_returns [OF this] obtain k where k: "busy_wait ?s t = Some (?s\<lparr>clock_reads := ?r + Suc k\<rparr>)"
        "t \<le> clock s (?r + k)" "\<forall>j < k. clock s (?r + j) < t" by auto
    have "(LEAST n. t \<le> clock s (?r + n)) = k"
      using k(2,3) by (intro Least_equality) (simp_all, meson not_le)
    then show ?thesis using True k(1) u by (simp add: t_def)
  next
    case False
    then have "busy_wait ?s t = None" using busy_wait_Some [of ?s t] by (cases "busy_wait ?s t") auto
    then show ?thesis using False u by (simp add: t_def)
  qed
qed

text \<open>
  gettimeofday stores the uptime as seconds and microseconds, with fewer than a million
  microseconds.
\<close>

theorem gettimeofday_normal:
  assumes "mapped (mem s) tv 16" "ms = clock s (clock_reads s)"
  shows "\<exists>s' sec usec. gettimeofday s tv tz = Some (0, s') \<and> load64 (mem s') tv = Some sec \<and>
    load64 (mem s') (tv + 8) = Some usec \<and> unat usec < 1000000 \<and> 1000 * (unat sec * 1000) + unat usec = 1000 * unat ms"
proof -
  let ?sec = "ms div 1000" and ?usec = "ms mod 1000 * 1000"
  have mp: "mapped (mem s) tv 8" "mapped (mem s) (tv + 8) 8" using assms(1) mapped_append [of "mem s" tv 8 8] by simp_all
  have "unat ms mod 1000 < 1000" by simp
  then have "unat (ms mod 1000) * unat (1000 :: u64) < 2 ^ LENGTH(64)" unfolding unat_mod by simp
  then have us: "unat ?usec = unat ms mod 1000 * 1000"
    using unat_mult_lem [of "ms mod 1000" 1000] by (simp only: simp_thms) (simp add: unat_mod)
  define m2 where "m2 = write_bytes (mem s) tv (le_bytes 8 ?sec @ le_bytes 8 ?usec)"
  have "tv \<noteq> NULL" using mapped_bounds [OF assms(1)] by auto
  then have "gettimeofday s tv tz = Some (0, s\<lparr>clock_reads := Suc (clock_reads s), mem := m2\<rparr>)"
    using mp assms(2) mapped_write [OF mp(2)]
    by (simp add: gettimeofday_def store64_mapped m2_def write_bytes_append)
  moreover have "bytes_at m2 tv (le_bytes 8 ?sec @ le_bytes 8 ?usec)"
    unfolding m2_def using assms(1) mapped_bounds [OF assms(1)] by (intro write_bytes_at) simp_all
  then have "load64 m2 tv = Some ?sec" "load64 m2 (tv + 8) = Some ?usec" by (simp_all add: load64_bytes_at)
  moreover have "1000 * (unat ?sec * 1000) + unat ?usec = 1000 * unat ms"
  proof -
    have "unat ms = unat ?sec * 1000 + unat ms mod 1000" by (simp add: unat_div)
    then show ?thesis unfolding us by linarith
  qed
  ultimately show ?thesis using us
    by (intro exI [of _ "s\<lparr>clock_reads := Suc (clock_reads s), mem := m2\<rparr>"] exI [of _ ?sec] exI [of _ ?usec]) simp
qed

section \<open>Witnesses\<close>

definition sort_mem :: mem where
  "sort_mem = write_bytes Map.empty 4096 [2, 9, 1, 7, 2, 5]"

lemma sort_mem_arr: "arr sort_mem 4096 2 [[2, 9], [1, 7], [2, 5]]"
proof -
  have "bytes_at sort_mem 4096 [2, 9]" "bytes_at sort_mem 4098 [1, 7]" "bytes_at sort_mem 4100 [2, 5]" by code_simp+
  then show ?thesis by (simp add: arr_def All_less_Suc)
qed

lemma bytes_mapped: "bytes_at m p bs \<Longrightarrow> n = length bs \<Longrightarrow> mapped m p n"
  by (simp only: bytes_at_mapped)

lemma sort_mem_bytes: "bytes_at sort_mem 4096 [2, 9, 1, 7, 2, 5]"
  by code_simp

lemma sort_mem_range: "in_range a 4096 6 \<Longrightarrow> sort_mem a \<noteq> None"
  using mapped_range [OF bytes_mapped [OF sort_mem_bytes], of 6 a]
  by (auto simp: load8_def split: if_splits)

theorem qsort_sorts_witness:
  "\<exists>s' ys. qsort (boot_heap\<lparr>mem := sort_mem\<rparr>) 4096 3 2 (\<lambda>m p q. bcmp m p q 2) = Some s' \<and> arr (mem s') 4096 2 ys \<and>
    mset ys = {#[2, 9], [1, 7], [2, 5]#} \<and>
    (sorted_wrt (\<lambda>x y. bytes_cmp x y \<le> 0) ys \<or> (\<exists>s1. malloc (boot_heap\<lparr>mem := sort_mem\<rparr>) 2 = Some (NULL, s1)))"
  using qsort_sorts [OF bcmp_comparator boot_heap_inv(1) _ _ _, of 2 sort_mem 4096 "[[2, 9], [1, 7], [2, 5]]" 3]
    sort_mem_arr sort_mem_range boot_heap_inv(2) by fastforce

definition found_mem :: mem where
  "found_mem = write_bytes Map.empty 4096 [1, 7, 2, 5, 2, 9]"

theorem bsearch_finds_witness:
  "\<exists>p. bsearch found_mem 4098 4096 3 2 (\<lambda>m p q. bcmp m p q 2) = Some p \<and> p \<noteq> NULL \<and>
    (\<exists>i < length [[1, 7], [2, 5], [2, 9 :: byte]]. p = 4096 + of_nat (i * 2) \<and> bytes_cmp [2, 5] ([[1, 7], [2, 5], [2, 9]] ! i) = 0)"
proof -
  have b: "bytes_at found_mem 4096 [1, 7]" "bytes_at found_mem 4098 [2, 5]" "bytes_at found_mem 4100 [2, 9]" by code_simp+
  then have "arr found_mem 4096 2 [[1, 7], [2, 5], [2, 9]]" by (simp add: arr_def All_less_Suc)
  with b(2) show ?thesis
    using bsearch_finds [OF bcmp_comparator, where sz = 2 and m = found_mem and base = 4096 and
        xs = "[[1, 7], [2, 5], [2, 9]]" and key = 4098 and v = "[2, 5]" and n = 3] by auto
qed

definition tv_mem :: mem where
  "tv_mem = write_bytes Map.empty 4096 [0, 0, 0, 0, 0, 0, 0, 0, 0, 0, 0, 0, 0, 0, 0, 0]"

theorem gettimeofday_normal_witness:
  "\<exists>s' sec usec. gettimeofday (boot_heap\<lparr>mem := tv_mem, clock_reads := 2345\<rparr>) 4096 0 = Some (0, s') \<and>
    load64 (mem s') 4096 = Some sec \<and> load64 (mem s') (4096 + 8) = Some usec \<and> unat usec < 1000000 \<and>
    1000 * (unat sec * 1000) + unat usec = 1000 * unat (2345 :: u64)"
proof (rule gettimeofday_normal)
  have "bytes_at tv_mem 4096 [0, 0, 0, 0, 0, 0, 0, 0, 0, 0, 0, 0, 0, 0, 0, 0]" by code_simp
  then have "mapped tv_mem 4096 16" by (rule bytes_mapped) simp
  then show "mapped (mem (boot_heap\<lparr>mem := tv_mem, clock_reads := 2345\<rparr>)) 4096 16" by simp
  show "2345 = clock (boot_heap\<lparr>mem := tv_mem, clock_reads := 2345\<rparr>) (clock_reads (boot_heap\<lparr>mem := tv_mem, clock_reads := 2345\<rparr>))"
    by (simp add: boot_heap_def machine.defs heap.defs boot_machine_def)
qed

end
