(* ===== verification/Doom.thy ===== *)
theory Doom
  imports Files Stdlib
begin

text \<open>
  The platform layer of DOOM (\<^verbatim>\<open>apps/doom/doomgeneric_innigkeit.c\<close>): the key queue, the
  translation of scancodes, polling the keyboard, drawing a frame, the clock.

  The key codes (\<^verbatim>\<open>doomkeys.h\<close>) and the resolution (\<^verbatim>\<open>DOOMGENERIC_RESX\<close> and
  \<^verbatim>\<open>DOOMGENERIC_RESY\<close> of \<^verbatim>\<open>doomgeneric.h\<close>) belong to the game, not to this repository: they are
  the parameters \<open>K\<close> (with \<open>KEY_F K n\<close> for \<^verbatim>\<open>KEY_F1\<close> to \<^verbatim>\<open>KEY_F12\<close>), \<open>resx\<close> and \<open>resy\<close>.  So is the address of the game's screen buffer.
\<close>

record doom_keys =
  KEY_UPARROW :: byte
  KEY_DOWNARROW :: byte
  KEY_LEFTARROW :: byte
  KEY_RIGHTARROW :: byte
  KEY_RCTRL :: byte
  KEY_RALT :: byte
  KEY_ENTER :: byte
  KEY_ESCAPE :: byte
  KEY_FIRE :: byte
  KEY_USE :: byte
  KEY_RSHIFT :: byte
  KEY_LALT :: byte
  KEY_TAB :: byte
  KEY_F :: "nat \<Rightarrow> byte"

section \<open>The state\<close>

text \<open>The ring positions are below \<^verbatim>\<open>KEYQUEUE_SIZE\<close>, so \<^verbatim>\<open>unsigned\<close> arithmetic on them does not wrap.\<close>

definition KEYQUEUE_SIZE :: nat where "KEYQUEUE_SIZE = 32"

record key_queue =
  s_key_queue :: "16 word list"
  s_key_write :: nat
  s_key_read :: nat

record doom = files +
  s_fb :: addr
  s_fb_w :: u32
  s_fb_h :: u32
  s_stride :: u32
  keyq :: key_queue
  in_extended :: bool
  DG_ScreenBuffer :: addr

section \<open>The key queue\<close>

definition key_event :: "int \<Rightarrow> byte \<Rightarrow> 16 word" where
  "key_event pressed doom_key = word_of_int (push_bit 8 pressed OR uint doom_key)"

definition key_store :: "16 word \<Rightarrow> key_queue \<Rightarrow> key_queue" where
  "key_store ev q =
     q\<lparr>s_key_queue := (s_key_queue q)[s_key_write q := ev],
       s_key_write := (s_key_write q + 1) mod KEYQUEUE_SIZE\<rparr>"

definition key_push :: "int \<Rightarrow> byte \<Rightarrow> key_queue \<Rightarrow> key_queue" where
  "key_push pressed doom_key q = (if doom_key = 0 then q else key_store (key_event pressed doom_key) q)"

definition key_pop :: "key_queue \<Rightarrow> (16 word \<times> key_queue) option" where
  "key_pop q =
     (if s_key_read q = s_key_write q then None
      else Some (s_key_queue q ! s_key_read q, q\<lparr>s_key_read := (s_key_read q + 1) mod KEYQUEUE_SIZE\<rparr>))"

definition DG_GetKey :: "'s doom_scheme \<Rightarrow> addr \<Rightarrow> addr \<Rightarrow> (int \<times> 's doom_scheme) option" where
  "DG_GetKey s pressed doom_key =
     (case key_pop (keyq s) of
        None \<Rightarrow> Some (0, s)
      | Some (ev, q) \<Rightarrow>
          do { m \<leftarrow> store32 (mem s) pressed (ucast (drop_bit 8 ev));
               m \<leftarrow> store8 m doom_key (ucast (ev AND 0xFF));
               Some (1, s\<lparr>keyq := q, mem := m\<rparr>) })"

section \<open>Scancodes\<close>

definition scancode_to_doom :: "doom_keys \<Rightarrow> byte \<Rightarrow> bool \<Rightarrow> byte" where
  "scancode_to_doom K mk is_extended =
     (if is_extended then
        if mk = 0x48 then KEY_UPARROW K
        else if mk = 0x50 then KEY_DOWNARROW K
        else if mk = 0x4B then KEY_LEFTARROW K
        else if mk = 0x4D then KEY_RIGHTARROW K
        else if mk = 0x1D then KEY_RCTRL K
        else if mk = 0x38 then KEY_RALT K
        else 0
      else if mk = 0x1C then KEY_ENTER K
      else if mk = 0x01 then KEY_ESCAPE K
      else if mk = 0x1D then KEY_FIRE K
      else if mk = 0x39 then KEY_USE K
      else if mk = 0x2A \<or> mk = 0x36 then KEY_RSHIFT K
      else if mk = 0x38 then KEY_LALT K
      else if mk = 0x0F then KEY_TAB K
      else if mk = 0x57 then KEY_F K 11
      else if mk = 0x58 then KEY_F K 12
      else if mk = 0x3B then KEY_F K 1 else if mk = 0x3C then KEY_F K 2
      else if mk = 0x3D then KEY_F K 3 else if mk = 0x3E then KEY_F K 4
      else if mk = 0x3F then KEY_F K 5 else if mk = 0x40 then KEY_F K 6
      else if mk = 0x41 then KEY_F K 7 else if mk = 0x42 then KEY_F K 8
      else if mk = 0x43 then KEY_F K 9 else if mk = 0x44 then KEY_F K 10
      else if 0x02 \<le> mk \<and> mk \<le> 0x0D then chars ''1234567890-='' ! unat (mk - 0x02)
      else if mk = 0x10 then of_char CHR ''q'' else if mk = 0x11 then of_char CHR ''w''
      else if mk = 0x12 then of_char CHR ''e'' else if mk = 0x13 then of_char CHR ''r''
      else if mk = 0x14 then of_char CHR ''t'' else if mk = 0x15 then of_char CHR ''y''
      else if mk = 0x16 then of_char CHR ''u'' else if mk = 0x17 then of_char CHR ''i''
      else if mk = 0x18 then of_char CHR ''o'' else if mk = 0x19 then of_char CHR ''p''
      else if mk = 0x1E then of_char CHR ''a'' else if mk = 0x1F then of_char CHR ''s''
      else if mk = 0x20 then of_char CHR ''d'' else if mk = 0x21 then of_char CHR ''f''
      else if mk = 0x22 then of_char CHR ''g'' else if mk = 0x23 then of_char CHR ''h''
      else if mk = 0x24 then of_char CHR ''j'' else if mk = 0x25 then of_char CHR ''k''
      else if mk = 0x26 then of_char CHR ''l''
      else if mk = 0x2C then of_char CHR ''z'' else if mk = 0x2D then of_char CHR ''x''
      else if mk = 0x2E then of_char CHR ''c'' else if mk = 0x2F then of_char CHR ''v''
      else if mk = 0x30 then of_char CHR ''b'' else if mk = 0x31 then of_char CHR ''n''
      else if mk = 0x32 then of_char CHR ''m''
      else 0)"

text \<open>The body of the loop of \<^verbatim>\<open>poll_keyboard\<close>, for one raw byte.\<close>

definition poll_byte :: "doom_keys \<Rightarrow> byte \<Rightarrow> 's doom_scheme \<Rightarrow> 's doom_scheme" where
  "poll_byte K b s =
     (if b = 0xE0 then s\<lparr>in_extended := True\<rparr>
      else
        let ext = in_extended s; s = s\<lparr>in_extended := False\<rparr>;
            is_break = (b AND 0x80 \<noteq> 0); mk = b AND 0x7F;
            dk = scancode_to_doom K mk ext in
        if dk \<noteq> 0 then s\<lparr>keyq := key_push (of_bool (\<not> is_break)) dk (keyq s)\<rparr> else s)"

function poll_loop :: "doom_keys \<Rightarrow> 's doom_scheme \<Rightarrow> int \<Rightarrow> int \<Rightarrow> 's doom_scheme option" where
  "poll_loop K s i n =
     (if i < n then do { b \<leftarrow> load8 (mem s) (c_frame s + word_of_int i); poll_loop K (poll_byte K b s) (i + 1) n }
      else Some s)"
  by pat_completeness auto
termination
  by (relation "measure (\<lambda>(K, s, i, n). nat (n - i))") auto

declare poll_loop.simps [simp del]

text \<open>The array \<^verbatim>\<open>raw\<close> is a local variable.\<close>

definition poll_keyboard :: "doom_keys \<Rightarrow> 's doom_scheme \<Rightarrow> 's doom_scheme option" where
  "poll_keyboard K s =
     do { (_, s) \<leftarrow> with_locals (c_frame s) (map (junk s) [0..<32])
            (\<lambda>s. do { (n, s) \<leftarrow> innigkeit_kbd_read s (c_frame s) 32;
                      if n \<le> 0 then Some ((), s)
                      else do { s \<leftarrow> poll_loop K s 0 n; Some ((), s) } }) s;
          Some s }"

section \<open>The screen\<close>

text \<open>An information structure the call did not fill in must not be read.\<close>

definition DG_Init :: "'s doom_scheme \<Rightarrow> 's doom_scheme option" where
  "DG_Init s =
     do { ((fb, info), s) \<leftarrow> innigkeit_framebuffer_map s;
          if fb = NULL then do { (_, s) \<leftarrow> printf_literal s (chars ''DG_Init: no framebuffer'' @ [10]) []; Some s }
          else case info of
            None \<Rightarrow> None
          | Some info \<Rightarrow>
              do { let s = s\<lparr>s_fb := fb, s_fb_w := fb_width info, s_fb_h := fb_height info, s_stride := fb_pitch info div 4\<rparr>;
                   (_, s) \<leftarrow> printf_literal s (chars ''DG_Init: framebuffer %ux%u stride=%u'' @ [10])
                     [ucast (s_fb_w s), ucast (s_fb_h s), ucast (s_stride s)];
                   Some s } }"

definition SCALE :: u32 where "SCALE = 2"

function draw_dx :: "'s doom_scheme \<Rightarrow> mem \<Rightarrow> addr \<Rightarrow> u32 \<Rightarrow> u32 \<Rightarrow> u32 \<Rightarrow> mem option" where
  "draw_dx s m dst_row_p fx pixel dx =
     (if dx < SCALE then
        do { m \<leftarrow> (if fx + dx < s_fb_w s then store32 m (dst_row_p + 4 * ucast dx) pixel else Some m);
             draw_dx s m dst_row_p fx pixel (dx + 1) }
      else Some m)"
  by pat_completeness auto
termination
  by (relation "measure (\<lambda>(s, m, p, fx, pixel, dx). unat SCALE - unat dx)")
    (auto simp: word_less_nat_alt unat_Suc_less diff_less_mono2)

function draw_dy :: "'s doom_scheme \<Rightarrow> mem \<Rightarrow> u32 \<Rightarrow> u32 \<Rightarrow> u32 \<Rightarrow> u32 \<Rightarrow> mem option" where
  "draw_dy s m fy fx pixel dy =
     (if dy < SCALE then
        let row = fy + dy in
        if row \<ge> s_fb_h s then Some m
        else do { m \<leftarrow> draw_dx s m (s_fb s + 4 * ucast (row * s_stride s) + 4 * ucast fx) fx pixel 0;
                  draw_dy s m fy fx pixel (dy + 1) }
      else Some m)"
  by pat_completeness auto
termination
  by (relation "measure (\<lambda>(s, m, fy, fx, pixel, dy). unat SCALE - unat dy)")
    (auto simp: word_less_nat_alt unat_Suc_less diff_less_mono2)

function draw_sx :: "'s doom_scheme \<Rightarrow> mem \<Rightarrow> u32 \<Rightarrow> addr \<Rightarrow> u32 \<Rightarrow> u32 \<Rightarrow> u32 \<Rightarrow> u32 \<Rightarrow> mem option" where
  "draw_sx s m w src_row offset_x offset_y sy sx =
     (if sx < w then
        do { pixel \<leftarrow> load32 m (src_row + 4 * ucast sx);
             m \<leftarrow> draw_dy s m (offset_y + sy * SCALE) (offset_x + sx * SCALE) pixel 0;
             draw_sx s m w src_row offset_x offset_y sy (sx + 1) }
      else Some m)"
  by pat_completeness auto
termination
  by (relation "measure (\<lambda>(s, m, w, p, ox, oy, sy, sx). unat w - unat sx)")
    (auto simp: word_less_nat_alt unat_Suc_less diff_less_mono2)

function draw_sy :: "'s doom_scheme \<Rightarrow> mem \<Rightarrow> u32 \<Rightarrow> u32 \<Rightarrow> u32 \<Rightarrow> u32 \<Rightarrow> u32 \<Rightarrow> mem option" where
  "draw_sy s m w h offset_x offset_y sy =
     (if sy < h then
        do { m \<leftarrow> draw_sx s m w (DG_ScreenBuffer s + 4 * ucast (sy * w)) offset_x offset_y sy 0;
             draw_sy s m w h offset_x offset_y (sy + 1) }
      else Some m)"
  by pat_completeness auto
termination
  by (relation "measure (\<lambda>(s, m, w, h, ox, oy, sy). unat h - unat sy)")
    (auto simp: word_less_nat_alt unat_Suc_less diff_less_mono2)

declare draw_dx.simps [simp del] draw_dy.simps [simp del] draw_sx.simps [simp del] draw_sy.simps [simp del]

text \<open>The products of the resolution with the scale are computed in \<^verbatim>\<open>int\<close>.\<close>

definition DG_DrawFrame :: "doom_keys \<Rightarrow> int \<Rightarrow> int \<Rightarrow> 's doom_scheme \<Rightarrow> 's doom_scheme option" where
  "DG_DrawFrame K resx resy s =
     (if s_fb s = NULL \<or> DG_ScreenBuffer s = NULL then Some s
      else
        do { dw \<leftarrow> c_int (resx * uint SCALE);
             dh \<leftarrow> c_int (resy * uint SCALE);
             let dst_w = word_of_int dw;
             let dst_h = word_of_int dh;
             let offset_x = (if s_fb_w s > dst_w then (s_fb_w s - dst_w) div 2 else 0);
             let offset_y = (if s_fb_h s > dst_h then (s_fb_h s - dst_h) div 2 else 0);
             m \<leftarrow> draw_sy s (mem s) (word_of_int resx) (word_of_int resy) offset_x offset_y 0;
             poll_keyboard K (s\<lparr>mem := m\<rparr>) })"

section \<open>Time\<close>

definition DG_SleepMs :: "'s doom_scheme \<Rightarrow> u32 \<Rightarrow> 's doom_scheme option" where
  "DG_SleepMs s ms = (let (t, s) = innigkeit_uptime_ms s in busy_wait s (t + ucast ms))"

definition DG_GetTicksMs :: "'s doom_scheme \<Rightarrow> u32 \<times> 's doom_scheme" where
  "DG_GetTicksMs s = (let (t, s) = innigkeit_uptime_ms s in (ucast t, s))"

definition DG_SetWindowTitle :: "'s doom_scheme \<Rightarrow> addr \<Rightarrow> 's doom_scheme" where
  "DG_SetWindowTitle s title = s"

section \<open>The queue of key events\<close>

definition key_inv :: "key_queue \<Rightarrow> bool" where
  "key_inv q \<longleftrightarrow> length (s_key_queue q) = 32 \<and> s_key_read q < 32 \<and> s_key_write q < 32"

definition key_items :: "key_queue \<Rightarrow> 16 word list" where
  "key_items q = ring_items 32 (s_key_queue q) (s_key_read q) (s_key_write q)"

interpretation kq: bounded_fifo key_store key_pop key_items key_inv 31
proof unfold_locales
  fix q x q'
  assume inv: "key_inv q"
  then have b: "s_key_read q < 32" "s_key_write q < 32" "length (s_key_queue q) = 32" by (auto simp: key_inv_def)
  have full: "Suc (s_key_write q) mod 32 = s_key_read q \<longleftrightarrow> length (key_items q) = 31"
    using ring_count_full [OF b(1,2)] by (simp add: key_items_def)
  show "length (key_items q) < 31 \<Longrightarrow> key_items (key_store x q) = key_items q @ [x]"
    using b full ring_push [OF b(1,2,3)] by (simp add: key_items_def key_store_def KEYQUEUE_SIZE_def)
  show "key_inv (key_store x q)"
    using b by (simp add: key_inv_def key_store_def KEYQUEUE_SIZE_def)
  show "key_pop q = None \<longleftrightarrow> key_items q = []"
    unfolding key_items_def ring_items_empty [OF b(1,2)] by (simp add: key_pop_def)
  show "key_pop q = Some (x, q') \<Longrightarrow> key_items q = x # key_items q' \<and> key_inv q'"
    using b ring_pop [OF b(1,2), of "s_key_queue q"]
    by (auto simp: key_pop_def key_items_def key_inv_def KEYQUEUE_SIZE_def split: if_splits)
  show "length (key_items q) \<le> 31"
    using ring_count_less [OF b(1,2)] by (simp add: key_items_def)
qed

text \<open>A full queue is emptied by the next event.\<close>

lemma key_store_full:
  assumes "key_inv q" "length (key_items q) = 31"
  shows "key_items (key_store x q) = []"
proof -
  have b: "s_key_read q < 32" "s_key_write q < 32" using assms(1) by (auto simp: key_inv_def)
  then have "Suc (s_key_write q) mod 32 = s_key_read q"
    using ring_count_full [OF b] assms(2) by (simp add: key_items_def)
  then show ?thesis using ring_push_full [OF b] by (simp add: key_items_def key_store_def KEYQUEUE_SIZE_def)
qed

lemma key_event_pressed: "ucast (drop_bit 8 (key_event (of_bool b) k)) = (of_bool b :: u32)"
  by (rule bit_word_eqI) (auto simp: key_event_def bit_simps dest: bit_imp_le_length split: if_splits)

lemma key_event_key: "ucast (key_event (of_bool b) k AND 0xFF) = k"
proof -
  have ff: "(0xFF :: 16 word) = mask 8" by (simp add: mask_eq_exp_minus_1)
  show ?thesis unfolding ff by (intro bit_word_eqI) (auto simp: key_event_def bit_simps dest: bit_imp_le_length split: if_splits)
qed

section \<open>Scancode streams\<close>

text \<open>The key events in a stream of raw bytes, and whether it ends within an extended code.\<close>

primrec scan_events :: "doom_keys \<Rightarrow> bool \<Rightarrow> byte list \<Rightarrow> (bool \<times> byte) list" where
  "scan_events K ext [] = []"
| "scan_events K ext (b # bs) =
     (if b = 0xE0 then scan_events K True bs
      else
        let dk = scancode_to_doom K (b AND 0x7F) ext in
        (if dk \<noteq> 0 then [(b AND 0x80 = 0, dk)] else []) @ scan_events K False bs)"

primrec scan_ext :: "bool \<Rightarrow> byte list \<Rightarrow> bool" where
  "scan_ext ext [] = ext"
| "scan_ext ext (b # bs) = scan_ext (b = 0xE0) bs"

lemma scan_events_append:
  "scan_events K ext (as @ bs) = scan_events K ext as @ scan_events K (scan_ext ext as) bs"
  by (induction as arbitrary: ext) (simp_all add: Let_def)

lemma scan_ext_append: "scan_ext ext (as @ bs) = scan_ext (scan_ext ext as) bs"
  by (induction as arbitrary: ext) simp_all

lemma length_scan_events: "length (scan_events K ext bs) \<le> length bs"
  by (induction bs arbitrary: ext) (auto simp: Let_def intro: le_SucI)

definition event_word :: "bool \<times> byte \<Rightarrow> 16 word" where
  "event_word e = key_event (of_bool (fst e)) (snd e)"

lemma poll_bytes:
  "fold (poll_byte K) bs s =
     s\<lparr>in_extended := scan_ext (in_extended s) bs,
       keyq := fold key_store (map event_word (scan_events K (in_extended s) bs)) (keyq s)\<rparr>"
  by (induction bs arbitrary: s) (simp_all add: poll_byte_def Let_def key_push_def event_word_def)

lemma poll_loop_bytes:
  "bytes_at (mem s) (c_frame s + of_nat i) bs \<Longrightarrow> n = i + length bs \<Longrightarrow>
   poll_loop K s (int i) (int n) = Some (fold (poll_byte K) bs s)"
proof (induction bs arbitrary: i s)
  case Nil
  then show ?case by (simp add: poll_loop.simps [of K s])
next
  case (Cons b bs)
  have m: "mem (poll_byte K b s) = mem s" "c_frame (poll_byte K b s) = c_frame s"
    by (simp_all add: poll_byte_def Let_def)
  have "poll_loop K (poll_byte K b s) (int (Suc i)) (int n) = Some (fold (poll_byte K) bs (poll_byte K b s))"
    using Cons.prems by (intro Cons.IH) (simp_all add: m ac_simps)
  then show ?case using Cons.prems by (simp add: poll_loop.simps [of K s] add.commute)
qed

lemma restore_range_all:
  assumes "unat p + length bs \<le> 2 ^ 64" "length cs \<le> length bs"
  shows "restore_range m p (length bs) (write_bytes (write_bytes m p bs) p cs) = m"
proof
  fix a
  show "restore_range m p (length bs) (write_bytes (write_bytes m p bs) p cs) a = m a"
  proof (cases "in_range a p (length bs)")
    case False
    moreover from this have "\<not> in_range a p (length cs)" using assms(2) by (auto simp: in_range_def)
    ultimately show ?thesis using assms by (simp add: restore_range_def write_bytes_other)
  qed (simp add: restore_range_def)
qed

lemma poll_keyboard_eq:
  assumes "ent_keyboard s" "raw_kb_inv (raw_kb s)" "userBuffer (c_frame s) 32"
  shows "\<exists>q. poll_keyboard K s =
      Some (s\<lparr>raw_kb := q, in_extended := scan_ext (in_extended s) (take 32 (raw_kb_items (raw_kb s))),
        keyq := fold key_store (map event_word (scan_events K (in_extended s) (take 32 (raw_kb_items (raw_kb s))))) (keyq s)\<rparr>) \<and>
    raw_kb_inv q \<and> raw_kb_items q = drop 32 (raw_kb_items (raw_kb s))"
proof -
  define js where "js = map (junk s) [0..<32]"
  define bs where "bs = take 32 (raw_kb_items (raw_kb s))"
  let ?p = "c_frame s" and ?m = "write_bytes (mem s) (c_frame s) js"
  let ?s = "s\<lparr>mem := ?m\<rparr>"
  have l: "length js = 32" "length bs \<le> 32" by (simp_all add: js_def bs_def)
  have b: "0 < unat ?p" "unat ?p + 32 \<le> 2 ^ 64" using assms(3) by (simp_all add: userBuffer_iff user_base_def user_end_def)
  have "bytes_at ?m ?p js" using b l(1) by (intro write_bytes_at) simp_all
  then have mp: "mapped ?m ?p 32" using bytes_at_mapped l(1) by metis
  obtain q where q: "innigkeit_kbd_read ?s ?p 32 = Some (int (length bs), s\<lparr>raw_kb := q, mem := write_bytes ?m ?p bs\<rparr>)"
      "raw_kb_inv q" "raw_kb_items q = drop 32 (raw_kb_items (raw_kb s))"
    using innigkeit_kbd_read_ok [of ?s ?p 32] assms mp by (auto simp: bs_def)
  define t where "t = s\<lparr>raw_kb := q, mem := write_bytes ?m ?p bs\<rparr>"
  have t: "mem t = write_bytes ?m ?p bs" "c_frame t = ?p" by (simp_all add: t_def)
  have "bytes_at (write_bytes ?m ?p bs) ?p bs" using b l(2) by (intro write_bytes_at) simp_all
  then have pl: "poll_loop K t 0 (int (length bs)) = Some (fold (poll_byte K) bs t)"
    using poll_loop_bytes [of t 0 bs] by (simp add: t)
  have r: "restore_range (mem s) ?p 32 (write_bytes ?m ?p bs) = mem s"
    using restore_range_all [of ?p js bs "mem s"] b(2) l by simp
  have "(fold (poll_byte K) bs t)\<lparr>mem := mem s\<rparr> = s\<lparr>raw_kb := q, in_extended := scan_ext (in_extended s) bs,
        keyq := fold key_store (map event_word (scan_events K (in_extended s) bs)) (keyq s)\<rparr>"
    "mem (fold (poll_byte K) bs t) = write_bytes ?m ?p bs"
    by (simp_all add: poll_bytes t_def)
  then have "poll_keyboard K s = Some (s\<lparr>raw_kb := q, in_extended := scan_ext (in_extended s) bs,
        keyq := fold key_store (map event_word (scan_events K (in_extended s) bs)) (keyq s)\<rparr>)"
    using q(1) pl l(1) r
    by (cases "bs = []") (simp_all add: poll_keyboard_def with_locals_def t flip: js_def t_def)
  with q(2,3) show ?thesis unfolding bs_def by blast
qed

section \<open>Polling\<close>

primrec polls :: "doom_keys \<Rightarrow> nat \<Rightarrow> 's doom_scheme \<Rightarrow> 's doom_scheme option" where
  "polls K 0 s = Some s"
| "polls K (Suc n) s = do { s \<leftarrow> poll_keyboard K s; polls K n s }"

text \<open>What polling relies on: the entitlement, the kernel's ring, room for the local array.\<close>

definition poll_ok :: "'s doom_scheme \<Rightarrow> bool" where
  "poll_ok s \<longleftrightarrow> ent_keyboard s \<and> raw_kb_inv (raw_kb s) \<and> userBuffer (c_frame s) 32 \<and> key_inv (keyq s)"

lemma polls_eq:
  assumes "poll_ok s"
    "length (key_items (keyq s)) + length (scan_events K (in_extended s) (take (32 * n) (raw_kb_items (raw_kb s)))) \<le> 31"
  shows "\<exists>q kq. polls K n s = Some (s\<lparr>raw_kb := q, keyq := kq,
      in_extended := scan_ext (in_extended s) (take (32 * n) (raw_kb_items (raw_kb s)))\<rparr>) \<and>
    raw_kb_items q = drop (32 * n) (raw_kb_items (raw_kb s)) \<and> key_inv kq \<and>
    key_items kq = key_items (keyq s) @ map event_word (scan_events K (in_extended s) (take (32 * n) (raw_kb_items (raw_kb s))))"
  using assms
proof (induction n arbitrary: s)
  case 0
  then show ?case by (intro exI [of _ "raw_kb s"] exI [of _ "keyq s"]) (simp add: poll_ok_def)
next
  case (Suc n)
  define raw where "raw = raw_kb_items (raw_kb s)"
  define ext where "ext = scan_ext (in_extended s) (take 32 raw)"
  define evs where "evs = scan_events K (in_extended s) (take 32 raw)"
  define evs' where "evs' = scan_events K ext (take (32 * n) (drop 32 raw))"
  define kq where "kq = fold key_store (map event_word evs) (keyq s)"
  have tk: "take (32 * Suc n) raw = take 32 raw @ take (32 * n) (drop 32 raw)" by (simp add: take_add)
  have ev: "scan_events K (in_extended s) (take (32 * Suc n) raw) = evs @ evs'"
    and ex: "scan_ext (in_extended s) (take (32 * Suc n) raw) = scan_ext ext (take (32 * n) (drop 32 raw))"
    unfolding tk by (simp_all add: scan_events_append scan_ext_append evs_def evs'_def ext_def)
  have room: "length (key_items (keyq s)) + length (evs @ evs') \<le> 31" using Suc.prems(2) ev by (simp add: raw_def)
  obtain q where q: "poll_keyboard K s = Some (s\<lparr>raw_kb := q, in_extended := ext, keyq := kq\<rparr>)" "raw_kb_inv q" "raw_kb_items q = drop 32 raw"
    using poll_keyboard_eq [of s K] Suc.prems(1) by (auto simp: poll_ok_def raw_def ext_def evs_def kq_def)
  have kq: "key_inv kq" "key_items kq = key_items (keyq s) @ map event_word evs"
    using kq.push_all_invar [of "keyq s"] kq.push_all_items [of "keyq s" "map event_word evs"] Suc.prems(1) room
    by (simp_all add: poll_ok_def kq_def)
  let ?s = "s\<lparr>raw_kb := q, in_extended := ext, keyq := kq\<rparr>"
  have "poll_ok ?s" using Suc.prems(1) q(2) kq(1) by (simp add: poll_ok_def)
  moreover have "length (key_items (keyq ?s)) + length (scan_events K (in_extended ?s) (take (32 * n) (raw_kb_items (raw_kb ?s)))) \<le> 31"
    using room kq(2) q(3) by (simp add: evs'_def)
  ultimately show ?case using Suc.IH [of ?s] q(1,3) kq(2)
    unfolding raw_def [symmetric] ev ex by (fastforce simp: evs'_def add.commute)
qed

lemma DG_GetKey_next:
  assumes "key_inv (keyq s)" "key_items (keyq s) = event_word (down, k) # es"
    "mapped (mem s) pressed 4" "mapped (mem s) doom_key 1"
  shows "\<exists>q. DG_GetKey s pressed doom_key =
      Some (1, s\<lparr>keyq := q, mem := write_bytes (write_bytes (mem s) pressed (le_bytes 4 (of_bool down :: u32))) doom_key [k]\<rparr>) \<and>
    key_inv q \<and> key_items q = es"
proof -
  obtain x q where q: "key_pop (keyq s) = Some (x, q)" using kq.pop_None [OF assms(1)] assms(2) by auto
  then have x: "x = event_word (down, k)" "key_items q = es" "key_inv q" using kq.pop_Some [OF assms(1) q] assms(2) by auto
  define m where "m = write_bytes (mem s) pressed (le_bytes 4 (of_bool down :: u32))"
  have "mapped m doom_key 1" unfolding m_def by (rule mapped_write [OF assms(4)])
  then have "store8 m doom_key k = Some (write_bytes m doom_key [k])"
    by (auto simp: store8_def load8_def split: if_splits)
  moreover have "store32 (mem s) pressed (of_bool down) = Some m"
    using assms(3) by (simp add: store32_def storen_eq m_def)
  ultimately have "DG_GetKey s pressed doom_key = Some (1, s\<lparr>keyq := q, mem := write_bytes m doom_key [k]\<rparr>)"
    using q x(1) by (simp add: DG_GetKey_def event_word_def key_event_pressed key_event_key)
  with x(2,3) show ?thesis unfolding m_def by blast
qed

lemma DG_GetKey_empty: "key_inv (keyq s) \<Longrightarrow> key_items (keyq s) = [] \<Longrightarrow> DG_GetKey s pressed doom_key = Some (0, s)"
  using kq.pop_None [of "keyq s"] by (simp add: DG_GetKey_def)

section \<open>Pixels\<close>

text \<open>The framebuffer of width \<open>w\<close> and height \<open>h\<close> as a list of pixels, \<open>st\<close> to a row.\<close>

definition set_px :: "nat \<Rightarrow> nat \<Rightarrow> nat \<Rightarrow> nat \<Rightarrow> nat \<Rightarrow> u32 \<Rightarrow> u32 list \<Rightarrow> u32 list" where
  "set_px w h st x y v px = (if x < w \<and> y < h then px[y * st + x := v] else px)"

definition set_block :: "nat \<Rightarrow> nat \<Rightarrow> nat \<Rightarrow> nat \<Rightarrow> nat \<Rightarrow> u32 \<Rightarrow> u32 list \<Rightarrow> u32 list" where
  "set_block w h st x y v px =
     set_px w h st (Suc x) (Suc y) v (set_px w h st x (Suc y) v (set_px w h st (Suc x) y v (set_px w h st x y v px)))"

definition set_row :: "nat \<Rightarrow> nat \<Rightarrow> nat \<Rightarrow> nat \<Rightarrow> nat \<Rightarrow> (nat \<Rightarrow> u32) \<Rightarrow> nat list \<Rightarrow> u32 list \<Rightarrow> u32 list" where
  "set_row w h st x y src ks px = fold (\<lambda>i. set_block w h st (x + 2 * i) y (src i)) ks px"

definition set_image :: "nat \<Rightarrow> nat \<Rightarrow> nat \<Rightarrow> nat \<Rightarrow> nat \<Rightarrow> nat \<Rightarrow> u32 list \<Rightarrow> nat list \<Rightarrow> u32 list \<Rightarrow> u32 list" where
  "set_image w h st x y iw img js px =
     fold (\<lambda>j. set_row w h st x (y + 2 * j) (\<lambda>i. img ! (j * iw + i)) [0..<iw]) js px"

lemma length_set_px [simp]: "length (set_px w h st x y v px) = length px"
  by (simp add: set_px_def)

lemma length_set_block [simp]: "length (set_block w h st x y v px) = length px"
  by (simp add: set_block_def)

lemma length_set_row [simp]: "length (set_row w h st x y src ks px) = length px"
  by (induction ks arbitrary: px) (simp_all add: set_row_def)

lemma length_set_image [simp]: "length (set_image w h st x y iw img js px) = length px"
  by (induction js arbitrary: px) (simp_all add: set_image_def)

lemma px_less:
  fixes x y st h :: nat
  assumes "x < st" "y < h"
  shows "y * st + x < st * h"
  using assms mult_le_mono1 [of "Suc y" h st] by (simp add: mult.commute)

lemma px_inj:
  fixes x y st x' y' :: nat
  assumes "x < st" "x' < st"
  shows "y * st + x = y' * st + x' \<longleftrightarrow> x = x' \<and> y = y'"
proof
  assume eq: "y * st + x = y' * st + x'"
  then have "(y * st + x) mod st = (y' * st + x') mod st" "(y * st + x) div st = (y' * st + x') div st" by simp_all
  then show "x = x' \<and> y = y'" using assms by simp
qed simp

lemma nth_set_px:
  assumes "length px = st * h" "w \<le> st" "x < w" "y < h"
  shows "set_px w h st a b v px ! (y * st + x) = (if x = a \<and> y = b then v else px ! (y * st + x))"
  using assms px_less [of a st b h] px_inj [of a st x b y] by (auto simp: set_px_def nth_list_update)

lemma nth_set_block:
  assumes "length px = st * h" "w \<le> st" "x < w" "y < h"
  shows "set_block w h st a b v px ! (y * st + x) =
    (if a \<le> x \<and> x < a + 2 \<and> b \<le> y \<and> y < b + 2 then v else px ! (y * st + x))"
  using assms by (auto simp: set_block_def nth_set_px)

lemma nth_set_row:
  assumes "length px = st * h" "w \<le> st" "x < w" "y < h"
  shows "set_row w h st a b src [0..<n] px ! (y * st + x) =
    (if a \<le> x \<and> x < a + 2 * n \<and> b \<le> y \<and> y < b + 2 then src ((x - a) div 2) else px ! (y * st + x))"
proof (induction n)
  case (Suc n)
  have step: "set_row w h st a b src [0..<Suc n] px =
      set_block w h st (a + 2 * n) b (src n) (set_row w h st a b src [0..<n] px)" by (simp add: set_row_def)
  have "(x - a) div 2 = n" if "a + 2 * n \<le> x" "x < a + 2 * n + 2" using that by linarith
  then show ?case unfolding step using assms Suc by (subst nth_set_block) auto
qed (auto simp: set_row_def)

lemma nth_set_image:
  assumes "length px = st * h" "w \<le> st" "x < w" "y < h"
  shows "set_image w h st a b iw img [0..<n] px ! (y * st + x) =
    (if a \<le> x \<and> x < a + 2 * iw \<and> b \<le> y \<and> y < b + 2 * n
     then img ! ((y - b) div 2 * iw + (x - a) div 2) else px ! (y * st + x))"
proof (induction n)
  case (Suc n)
  have step: "set_image w h st a b iw img [0..<Suc n] px =
      set_row w h st a (b + 2 * n) (\<lambda>i. img ! (n * iw + i)) [0..<iw] (set_image w h st a b iw img [0..<n] px)"
    by (simp add: set_image_def)
  have "(y - b) div 2 = n" if "b + 2 * n \<le> y" "y < b + 2 * n + 2" using that by linarith
  then show ?case unfolding step using assms Suc by (subst nth_set_row) auto
qed (auto simp: set_image_def)

section \<open>Drawing into memory\<close>

text \<open>A framebuffer in memory: \<open>s_stride\<close> pixels to a row, of which \<open>s_fb_w\<close> are shown.\<close>

definition fb_holds :: "'s doom_scheme \<Rightarrow> mem \<Rightarrow> u32 list \<Rightarrow> bool" where
  "fb_holds s m px \<longleftrightarrow> arr m (s_fb s) 4 (map (le_bytes 4) px) \<and> length px = unat (s_stride s) * unat (s_fb_h s) \<and>
     s_fb_w s \<le> s_stride s \<and> unat (s_stride s) * unat (s_fb_h s) < 2 ^ 32"

definition in_fb :: "'s doom_scheme \<Rightarrow> addr \<Rightarrow> bool" where
  "in_fb s a \<longleftrightarrow> in_range a (s_fb s) (unat (s_stride s) * unat (s_fb_h s) * 4)"

definition drawn :: "'s doom_scheme \<Rightarrow> mem \<Rightarrow> mem \<Rightarrow> u32 list \<Rightarrow> bool" where
  "drawn s m m' px \<longleftrightarrow> fb_holds s m' px \<and> (\<forall>a. \<not> in_fb s a \<longrightarrow> m' a = m a)"

lemma drawn_refl: "fb_holds s m px \<Longrightarrow> drawn s m m px"
  by (simp add: drawn_def)

lemma drawn_trans: "drawn s m m' px \<Longrightarrow> drawn s m' m'' px' \<Longrightarrow> drawn s m m'' px'"
  by (simp add: drawn_def)

lemma store_px:
  assumes "fb_holds s m px" "k < length px"
  shows "\<exists>m'. store32 m (s_fb s + of_nat (k * 4)) v = Some m' \<and> drawn s m m' (px[k := v])"
proof -
  let ?p = "s_fb s + of_nat (k * 4)" and ?xs = "map (le_bytes 4) px :: byte list list"
  have a: "arr m (s_fb s) 4 ?xs" "length px = unat (s_stride s) * unat (s_fb_h s)" using assms(1) by (auto simp: fb_holds_def)
  have k: "k < length ?xs" using assms(2) by simp
  have st: "store32 m ?p v = Some (write_bytes m ?p (le_bytes 4 v))"
    using arr_mapped [OF a(1) k] by (simp add: store32_def storen_eq)
  have "arr (write_bytes m ?p (le_bytes 4 v)) (s_fb s) 4 (map (le_bytes 4) (px[k := v]))"
    using arr_write [OF a(1) k, of "le_bytes 4 v"] by (simp add: map_update)
  moreover have "write_bytes m ?p (le_bytes 4 v) a' = m a'" if "\<not> in_fb s a'" for a'
  proof -
    have "\<not> in_range a' ?p 4"
      using that elem_unat [OF a(1) k] elem_end [OF k, of 4] a(2) by (auto simp: in_range_def in_fb_def)
    then show ?thesis using elem_write_same [OF a(1) k, of "le_bytes 4 v"] by (simp add: same_except_def)
  qed
  ultimately show ?thesis using assms(1) st by (auto simp: drawn_def fb_holds_def)
qed

lemma set_px_below: "\<not> y < h \<Longrightarrow> set_px w h st x y v px = px"
  by (simp add: set_px_def)

lemma ucast_addr: "ucast x = (of_nat (unat x) :: addr)" for x :: u32
  by (metis of_nat_unat)

lemma px_addr:
  fixes row st fx dx :: u32
  assumes "unat row * unat st < 2 ^ 32"
  shows "b + 4 * ucast (row * st) + 4 * ucast fx + 4 * ucast dx = b + (of_nat ((unat row * unat st + (unat fx + unat dx)) * 4) :: addr)"
proof -
  have "unat (row * st) = unat row * unat st" using assms unat_mult_lem [of row st] by simp
  then show ?thesis unfolding ucast_addr by (simp add: algebra_simps)
qed

lemma unat_u32_add: "unat x + unat y < 2 ^ 32 \<Longrightarrow> unat (x + y) = unat x + unat y" for x y :: u32
  using unat_add_lem [of x y] by simp

lemma draw_dx_step:
  fixes row fx :: u32
  assumes "fb_holds s m px" "row < s_fb_h s" "unat fx + unat dx < 2 ^ 32" "dx < SCALE"
  defines "p \<equiv> s_fb s + 4 * ucast (row * s_stride s) + 4 * ucast fx"
  shows "\<exists>m'. draw_dx s m p fx v dx = draw_dx s m' p fx v (dx + 1) \<and>
    drawn s m m' (set_px (unat (s_fb_w s)) (unat (s_fb_h s)) (unat (s_stride s)) (unat fx + unat dx) (unat row) v px)"
proof (cases "fx + dx < s_fb_w s")
  case True
  have fb: "unat (s_fb_w s) \<le> unat (s_stride s)" "length px = unat (s_stride s) * unat (s_fb_h s)"
      "unat (s_stride s) * unat (s_fb_h s) < 2 ^ 32"
    using assms(1) by (auto simp: fb_holds_def word_le_nat_alt)
  have x: "unat fx + unat dx < unat (s_fb_w s)" using True unat_u32_add [OF assms(3)] by (simp add: word_less_nat_alt)
  have y: "unat row < unat (s_fb_h s)" using assms(2) by (simp add: word_less_nat_alt)
  let ?k = "unat row * unat (s_stride s) + (unat fx + unat dx)"
  have k: "?k < length px" using px_less [of "unat fx + unat dx" "unat (s_stride s)" "unat row" "unat (s_fb_h s)"] x y fb by simp
  then have "unat row * unat (s_stride s) < 2 ^ 32" using fb by simp
  then have "p + 4 * ucast dx = s_fb s + of_nat (?k * 4)" unfolding p_def by (rule px_addr)
  then obtain m' where m': "store32 m (p + 4 * ucast dx) v = Some m'" "drawn s m m' (px[?k := v])"
    using store_px [OF assms(1) k] by metis
  then show ?thesis using True x y assms(4) by (intro exI [of _ m']) (simp add: draw_dx.simps [of s m p fx v dx] set_px_def)
next
  case False
  then have "\<not> unat fx + unat dx < unat (s_fb_w s)" using unat_u32_add [OF assms(3)] by (simp add: word_less_nat_alt)
  then show ?thesis using False assms(1,4)
    by (intro exI [of _ m]) (simp add: draw_dx.simps [of s m p fx v dx] set_px_def drawn_refl)
qed

lemma drawn_holds: "drawn s m m' px \<Longrightarrow> fb_holds s m' px"
  by (simp add: drawn_def)

lemma draw_dx_ok:
  fixes row fx :: u32
  assumes "fb_holds s m px" "row < s_fb_h s" "unat fx + 1 < 2 ^ 32"
  defines "w \<equiv> unat (s_fb_w s)" and "h \<equiv> unat (s_fb_h s)" and "st \<equiv> unat (s_stride s)"
  shows "\<exists>m'. draw_dx s m (s_fb s + 4 * ucast (row * s_stride s) + 4 * ucast fx) fx v 0 = Some m' \<and>
    drawn s m m' (set_px w h st (Suc (unat fx)) (unat row) v (set_px w h st (unat fx) (unat row) v px))"
proof -
  let ?p = "s_fb s + 4 * ucast (row * s_stride s) + 4 * ucast fx"
  obtain m1 where m1: "draw_dx s m ?p fx v 0 = draw_dx s m1 ?p fx v 1" "drawn s m m1 (set_px w h st (unat fx) (unat row) v px)"
    using draw_dx_step [OF assms(1,2), of fx 0 v] assms(3) by (auto simp: SCALE_def w_def h_def st_def)
  obtain m2 where m2: "draw_dx s m1 ?p fx v 1 = draw_dx s m2 ?p fx v 2"
      "drawn s m1 m2 (set_px w h st (Suc (unat fx)) (unat row) v (set_px w h st (unat fx) (unat row) v px))"
    using draw_dx_step [OF drawn_holds [OF m1(2)] assms(2), of fx 1 v] assms(3) by (auto simp: SCALE_def w_def h_def st_def)
  have "draw_dx s m2 ?p fx v 2 = Some m2" by (simp add: draw_dx.simps [of s m2] SCALE_def)
  then show ?thesis using m1 m2 drawn_trans by (intro exI [of _ m2]) auto
qed

lemma draw_dy_ok:
  fixes fy fx :: u32
  assumes "fb_holds s m px" "unat fx + 1 < 2 ^ 32" "unat fy + 1 < 2 ^ 32"
  defines "w \<equiv> unat (s_fb_w s)" and "h \<equiv> unat (s_fb_h s)" and "st \<equiv> unat (s_stride s)"
  shows "\<exists>m'. draw_dy s m fy fx v 0 = Some m' \<and> drawn s m m' (set_block w h st (unat fx) (unat fy) v px)"
proof -
  have fy1: "unat (fy + 1) = Suc (unat fy)" using unat_u32_add [of fy 1] assms(3) by simp
  show ?thesis
  proof (cases "fy < s_fb_h s")
    case False
    then have "set_block w h st (unat fx) (unat fy) v px = px"
      by (simp add: set_block_def set_px_def h_def word_less_nat_alt)
    then show ?thesis using False assms(1)
      by (intro exI [of _ m]) (simp add: draw_dy.simps [of s m] SCALE_def drawn_refl not_less)
  next
    case True
    let ?px = "set_px w h st (Suc (unat fx)) (unat fy) v (set_px w h st (unat fx) (unat fy) v px)"
    obtain m1 where m1: "draw_dx s m (s_fb s + 4 * ucast (fy * s_stride s) + 4 * ucast fx) fx v 0 = Some m1" "drawn s m m1 ?px"
      using draw_dx_ok [OF assms(1) True assms(2), of v] by (auto simp: w_def h_def st_def)
    have s1: "draw_dy s m fy fx v 0 = draw_dy s m1 fy fx v 1"
      using True m1(1) by (auto simp: draw_dy.simps [of s m] SCALE_def)
    show ?thesis
    proof (cases "fy + 1 < s_fb_h s")
      case False
      then have "set_block w h st (unat fx) (unat fy) v px = ?px"
        using fy1 by (simp add: set_block_def set_px_below h_def word_less_nat_alt)
      then show ?thesis using False m1 s1 by (simp add: draw_dy.simps [of s m1] SCALE_def not_less)
    next
      case True
      obtain m2 where m2: "draw_dx s m1 (s_fb s + 4 * ucast ((fy + 1) * s_stride s) + 4 * ucast fx) fx v 0 = Some m2"
          "drawn s m1 m2 (set_block w h st (unat fx) (unat fy) v px)"
        using draw_dx_ok [OF drawn_holds [OF m1(2)] True assms(2), of v] fy1 by (auto simp: w_def h_def st_def set_block_def)
      have "draw_dy s m1 fy fx v 1 = Some m2"
        using True m2(1) by (auto simp: draw_dy.simps [of s m1] draw_dy.simps [of s m2] SCALE_def Let_def)
      then show ?thesis using s1 m1(2) m2(2) drawn_trans by auto
    qed
  qed
qed

text \<open>The game's screen: an array of pixels apart from the framebuffer.\<close>

definition screen_holds :: "'s doom_scheme \<Rightarrow> mem \<Rightarrow> u32 list \<Rightarrow> bool" where
  "screen_holds s m img \<longleftrightarrow> arr m (DG_ScreenBuffer s) 4 (map (le_bytes 4) img) \<and> length img < 2 ^ 32 \<and>
     sep (DG_ScreenBuffer s) (length img * 4) (s_fb s) (unat (s_stride s) * unat (s_fb_h s) * 4)"

lemma screen_drawn: "screen_holds s m img \<Longrightarrow> drawn s m m' px \<Longrightarrow> screen_holds s m' img"
  using arr_other [of m "DG_ScreenBuffer s" 4 "map (le_bytes 4) img" m' "s_fb s" "unat (s_stride s) * unat (s_fb_h s) * 4"]
  by (simp add: screen_holds_def drawn_def same_except_def in_fb_def)

lemma screen_load:
  assumes "screen_holds s m img" "k < length img"
  shows "load32 m (DG_ScreenBuffer s + of_nat (k * 4)) = Some (img ! k)"
  using elem_bytes [of m "DG_ScreenBuffer s" 4 "map (le_bytes 4) img" k] assms
  by (intro load32_bytes_at) (simp add: screen_holds_def)

lemma screen_addr:
  fixes sy w sx :: u32
  assumes "unat sy * unat w < 2 ^ 32"
  shows "b + 4 * ucast (sy * w) + 4 * ucast sx = b + (of_nat ((unat sy * unat w + unat sx) * 4) :: addr)"
  using px_addr [OF assms, of b sx 0] by simp

lemma unat_scale:
  fixes sx n ox :: u32
  assumes "sx < n" "unat ox + 2 * unat n < 2 ^ 32"
  shows "unat (ox + sx * SCALE) = unat ox + 2 * unat sx" "unat (ox + sx * SCALE) + 1 < 2 ^ 32"
proof -
  have lt: "unat sx < unat n" using assms(1) by (simp add: word_less_nat_alt)
  then have "unat (sx * SCALE) = unat sx * 2" using unat_mult_lem [of sx 2] assms(2) by (simp add: SCALE_def)
  then show "unat (ox + sx * SCALE) = unat ox + 2 * unat sx"
    using unat_u32_add [of ox "sx * SCALE"] assms(2) lt by simp
  then show "unat (ox + sx * SCALE) + 1 < 2 ^ 32" using assms(2) lt by simp
qed

lemma draw_sx_ok:
  fixes w sy ox oy :: u32
  assumes "fb_holds s m px" "screen_holds s m img" "length img = unat w * unat h" "sy < h"
    "unat ox + 2 * unat w < 2 ^ 32" "unat oy + 2 * unat h < 2 ^ 32" "sx \<le> w"
  shows "\<exists>m'. draw_sx s m w (DG_ScreenBuffer s + 4 * ucast (sy * w)) ox oy sy sx = Some m' \<and>
    drawn s m m' (set_row (unat (s_fb_w s)) (unat (s_fb_h s)) (unat (s_stride s)) (unat ox) (unat oy + 2 * unat sy)
      (\<lambda>i. img ! (unat sy * unat w + i)) [unat sx..<unat w] px)"
  using assms(1,2,7)
proof (induction "unat w - unat sx" arbitrary: sx m px)
  case 0
  then have "unat sx = unat w" by (simp add: word_le_nat_alt)
  then show ?case using 0(2)
    by (intro exI [of _ m]) (simp add: draw_sx.simps [of s m] word_less_nat_alt set_row_def drawn_refl)
next
  case (Suc d)
  have lt: "sx < w" using Suc(2) by (simp add: word_less_nat_alt)
  have k: "unat sy * unat w + unat sx < length img"
    using px_less [of "unat sx" "unat w" "unat sy" "unat h"] lt assms(3,4) by (simp add: word_less_nat_alt)
  then have "unat sy * unat w < 2 ^ 32" using Suc.prems(2) by (simp add: screen_holds_def)
  then have ld: "load32 m (DG_ScreenBuffer s + 4 * ucast (sy * w) + 4 * ucast sx) = Some (img ! (unat sy * unat w + unat sx))"
    by (simp only: screen_addr screen_load [OF Suc.prems(2) k])
  let ?f = "\<lambda>i. set_block (unat (s_fb_w s)) (unat (s_fb_h s)) (unat (s_stride s)) (unat ox + 2 * i) (unat oy + 2 * unat sy)
      (img ! (unat sy * unat w + i))"
  obtain m1 where m1: "draw_dy s m (oy + sy * SCALE) (ox + sx * SCALE) (img ! (unat sy * unat w + unat sx)) 0 = Some m1"
      "drawn s m m1 (?f (unat sx) px)"
    using draw_dy_ok [OF Suc.prems(1) unat_scale(2) [OF lt assms(5)] unat_scale(2) [OF assms(4,6)],
        of "img ! (unat sy * unat w + unat sx)"]
    unfolding unat_scale(1) [OF lt assms(5)] unat_scale(1) [OF assms(4,6)] by blast
  have sx1: "unat (sx + 1) = Suc (unat sx)" by (rule unat_Suc_less [OF lt])
  then have "d = unat w - unat (sx + 1)" "sx + 1 \<le> w" using Suc(2) by (simp_all add: word_le_nat_alt)
  from Suc(1) [OF this(1) drawn_holds [OF m1(2)] screen_drawn [OF Suc.prems(2) m1(2)] this(2)]
  obtain m2 where m2: "draw_sx s m1 w (DG_ScreenBuffer s + 4 * ucast (sy * w)) ox oy sy (sx + 1) = Some m2"
      "drawn s m1 m2 (fold ?f [Suc (unat sx)..<unat w] (?f (unat sx) px))"
    unfolding sx1 set_row_def by blast
  have "[unat sx..<unat w] = unat sx # [Suc (unat sx)..<unat w]" using lt by (simp add: word_less_nat_alt upt_conv_Cons)
  then show ?case using lt ld m1 m2 drawn_trans
    by (intro exI [of _ m2]) (simp add: draw_sx.simps [of s m] set_row_def)
qed

lemma draw_sy_ok:
  fixes w h ox oy :: u32
  assumes "fb_holds s m px" "screen_holds s m img" "length img = unat w * unat h"
    "unat ox + 2 * unat w < 2 ^ 32" "unat oy + 2 * unat h < 2 ^ 32" "sy \<le> h"
  shows "\<exists>m'. draw_sy s m w h ox oy sy = Some m' \<and>
    drawn s m m' (set_image (unat (s_fb_w s)) (unat (s_fb_h s)) (unat (s_stride s)) (unat ox) (unat oy) (unat w) img
      [unat sy..<unat h] px)"
  using assms(1,2,6)
proof (induction "unat h - unat sy" arbitrary: sy m px)
  case 0
  then have "unat sy = unat h" by (simp add: word_le_nat_alt)
  then show ?case using 0(2)
    by (intro exI [of _ m]) (simp add: draw_sy.simps [of s m] word_less_nat_alt set_image_def drawn_refl)
next
  case (Suc d)
  have lt: "sy < h" using Suc(2) by (simp add: word_less_nat_alt)
  let ?f = "\<lambda>j. set_row (unat (s_fb_w s)) (unat (s_fb_h s)) (unat (s_stride s)) (unat ox) (unat oy + 2 * j)
      (\<lambda>i. img ! (j * unat w + i)) [0..<unat w]"
  obtain m1 where m1: "draw_sx s m w (DG_ScreenBuffer s + 4 * ucast (sy * w)) ox oy sy 0 = Some m1"
      "drawn s m m1 (?f (unat sy) px)"
    using draw_sx_ok [OF Suc.prems(1,2) assms(3) lt assms(4,5), of 0] by auto
  have sy1: "unat (sy + 1) = Suc (unat sy)" by (rule unat_Suc_less [OF lt])
  then have "d = unat h - unat (sy + 1)" "sy + 1 \<le> h" using Suc(2) by (simp_all add: word_le_nat_alt)
  from Suc(1) [OF this(1) drawn_holds [OF m1(2)] screen_drawn [OF Suc.prems(2) m1(2)] this(2)]
  obtain m2 where m2: "draw_sy s m1 w h ox oy (sy + 1) = Some m2"
      "drawn s m1 m2 (fold ?f [Suc (unat sy)..<unat h] (?f (unat sy) px))"
    unfolding sy1 set_image_def by blast
  have "[unat sy..<unat h] = unat sy # [Suc (unat sy)..<unat h]" using lt by (simp add: word_less_nat_alt upt_conv_Cons)
  then show ?case using lt m1 m2 drawn_trans
    by (intro exI [of _ m2]) (simp add: draw_sy.simps [of s m] set_image_def)
qed

lemma le_word_unat:
  fixes b :: byte
  assumes "length bs < 4" "unat (le_word bs :: u32) < 256 ^ length bs"
  shows "unat (le_word (b # bs) :: u32) = unat b + 256 * unat (le_word bs :: u32)"
proof -
  have p: "(256 :: nat) ^ length bs \<le> 256 ^ 3" using assms(1) by (intro power_increasing) simp_all
  have x: "256 * unat (le_word bs :: u32) + 256 \<le> 2 ^ 32" using assms(2) p by simp
  have m: "unat (256 * le_word bs :: u32) = 256 * unat (le_word bs :: u32)"
    using unat_mult_lem [of "256 :: u32" "le_word bs"] x by simp
  have lt: "unat b < 256" using unsigned_less [of b, where 'a = nat] by simp
  then have b: "unat (ucast b :: u32) = unat b" by (simp add: unsigned_ucast_eq take_bit_eq_mod)
  show ?thesis using unat_add_lem [of "ucast b :: u32" "256 * le_word bs"] m b x lt by simp
qed

lemma le_word_bound: "length bs \<le> 4 \<Longrightarrow> unat (le_word bs :: u32) < 256 ^ length bs"
proof (induction bs)
  case (Cons b bs)
  then have "unat (le_word bs :: u32) < 256 ^ length bs" by simp
  moreover have "unat b < 256" using unsigned_less [of b, where 'a = nat] by simp
  ultimately show ?case using le_word_unat [of bs b] Cons.prems by simp
qed simp

lemma le_bytes_le_word: "length bs \<le> 4 \<Longrightarrow> le_bytes (length bs) (le_word bs :: u32) = bs"
proof (induction bs)
  case (Cons b bs)
  have u: "unat (le_word (b # bs) :: u32) = unat b + 256 * unat (le_word bs :: u32)"
    using Cons.prems le_word_bound [of bs] by (intro le_word_unat) simp_all
  have lt: "unat b < 256" using unsigned_less [of b, where 'a = nat] by simp
  have "unat (ucast (le_word (b # bs) :: u32) :: byte) = unat b"
    unfolding unsigned_ucast_eq u using lt by (simp add: take_bit_eq_mod)
  then have hd: "ucast (le_word (b # bs) :: u32) = b" by (simp only: word_unat_eq_iff)
  have "unat (drop_bit 8 (le_word (b # bs) :: u32)) = unat (le_word bs :: u32)"
    unfolding unat_drop_bit_eq u using lt by (simp add: drop_bit_eq_div)
  then have tl: "drop_bit 8 (le_word (b # bs) :: u32) = le_word bs" by (simp only: word_unat_eq_iff)
  show ?case unfolding list.size add_Suc_right add_0_right le_bytes.simps hd tl using Cons by simp
qed simp

lemma arr_of_mapped:
  assumes "0 < unat b" "unat b + n * k \<le> 2 ^ 64" "mapped m b (n * k)"
  shows "\<exists>xs. length xs = n \<and> arr m b k xs"
proof -
  obtain bs where bs: "length bs = n * k" "bytes_at m b bs" using mapped_bytes [OF assms(3)] by blast
  define xs where "xs = map (\<lambda>i. take k (drop (i * k) bs)) [0..<n]"
  have "length (xs ! i) = k \<and> bytes_at m (b + of_nat (i * k)) (xs ! i)" if "i < n" for i
    using that bytes_at_slice [OF bs(2), of "i * k" k] elem_end [OF that, of k] bs(1) by (simp add: xs_def)
  then show ?thesis using assms by (intro exI [of _ xs]) (simp add: arr_def xs_def)
qed

lemma fb_of_mapped:
  assumes "mapped m (s_fb s) (unat (s_stride s) * unat (s_fb_h s) * 4)" "s_fb_w s \<le> s_stride s"
    "unat (s_stride s) * unat (s_fb_h s) < 2 ^ 32" "0 < unat (s_fb s)"
    "unat (s_fb s) + unat (s_stride s) * unat (s_fb_h s) * 4 \<le> 2 ^ 64"
  shows "\<exists>px. fb_holds s m px"
proof -
  obtain xs where xs: "length xs = unat (s_stride s) * unat (s_fb_h s)" "arr m (s_fb s) 4 xs"
    using arr_of_mapped [OF assms(4,5,1)] by blast
  have "le_bytes 4 (le_word x :: u32) = x" if "x \<in> set xs" for x
    using le_bytes_le_word [of x] arr_lengths [OF xs(2)] that by force
  then have "map (le_bytes 4) (map le_word xs :: u32 list) = xs" by (simp add: map_idI)
  then show ?thesis using xs assms(2,3) by (intro exI [of _ "map le_word xs"]) (simp add: fb_holds_def)
qed

section \<open>A frame\<close>

lemma fb_holds_mem [simp]: "fb_holds (s\<lparr>mem := m\<rparr>) = fb_holds s"
  by (auto simp: fb_holds_def fun_eq_iff)

lemma unat_word_of_int: "0 \<le> r \<Longrightarrow> r < 2 ^ 32 \<Longrightarrow> unat (word_of_int r :: u32) = nat r"
  by (simp add: unsigned_of_int take_bit_int_eq_self)

lemma frame_offset:
  fixes w d :: u32
  assumes "unat d < 2 ^ 31"
  defines "k \<equiv> (if w > d then (w - d) div 2 else 0)"
  shows "unat k = (unat w - unat d) div 2" "unat k + unat d < 2 ^ 32"
proof -
  have w: "unat w < 2 ^ 32" using unsigned_less [of w, where 'a = nat] by simp
  show k: "unat k = (unat w - unat d) div 2"
    by (auto simp: k_def word_less_nat_alt unat_div unat_sub word_le_nat_alt)
  have "(unat w - unat d) div 2 \<le> unat w - unat d" by (rule div_le_dividend)
  then show "unat k + unat d < 2 ^ 32" unfolding k using w assms(1) by (cases "unat d \<le> unat w") simp_all
qed

lemma DG_DrawFrame_draws:
  assumes "fb_holds s (mem s) px" "screen_holds s (mem s) img" "length img = rw * rh" "int rw * 2 \<le> INT_MAX"
    "int rh * 2 \<le> INT_MAX" "poll_ok s"
  defines "ox \<equiv> (unat (s_fb_w s) - 2 * rw) div 2" and "oy \<equiv> (unat (s_fb_h s) - 2 * rh) div 2"
  shows "\<exists>s'. DG_DrawFrame K (int rw) (int rh) s = Some s' \<and>
    drawn s (mem s) (mem s') (set_image (unat (s_fb_w s)) (unat (s_fb_h s)) (unat (s_stride s)) ox oy rw img [0..<rh] px) \<and>
    poll_keyboard K (s\<lparr>mem := mem s'\<rparr>) = Some s'"
proof -
  let ?w = "word_of_int (int rw) :: u32" and ?h = "word_of_int (int rh) :: u32"
  let ?dw = "word_of_int (int rw * 2) :: u32" and ?dh = "word_of_int (int rh * 2) :: u32"
  define kx where "kx = (if s_fb_w s > ?dw then (s_fb_w s - ?dw) div 2 else 0)"
  define ky where "ky = (if s_fb_h s > ?dh then (s_fb_h s - ?dh) div 2 else 0)"
  have wh: "unat ?w = rw" "unat ?h = rh" "unat ?dw = 2 * rw" "unat ?dh = 2 * rh"
    using assms(4,5) by (subst unat_word_of_int; simp add: INT_MAX_def)+
  have k: "unat kx = ox" "unat ky = oy" "unat kx + 2 * unat ?w < 2 ^ 32" "unat ky + 2 * unat ?h < 2 ^ 32"
    using frame_offset [of ?dw "s_fb_w s"] frame_offset [of ?dh "s_fb_h s"] assms(4,5) wh
    by (simp_all add: kx_def ky_def ox_def oy_def INT_MAX_def)
  obtain m' where m': "draw_sy s (mem s) ?w ?h kx ky 0 = Some m'"
      "drawn s (mem s) m' (set_image (unat (s_fb_w s)) (unat (s_fb_h s)) (unat (s_stride s)) ox oy rw img [0..<rh] px)"
    using draw_sy_ok [OF assms(1,2) _ k(3,4), of 0] assms(3) wh k(1,2) by auto
  have "poll_ok (s\<lparr>mem := m'\<rparr>)" using assms(6) by (simp add: poll_ok_def)
  then obtain s' where s': "poll_keyboard K (s\<lparr>mem := m'\<rparr>) = Some s'" "mem s' = m'"
    using poll_keyboard_eq [of "s\<lparr>mem := m'\<rparr>" K] by (auto simp: poll_ok_def)
  have "s_fb s \<noteq> NULL" "DG_ScreenBuffer s \<noteq> NULL"
    using assms(1,2) arr_bounds unfolding fb_holds_def screen_holds_def by fastforce+
  moreover have "c_int (int rw * 2) = Some (int rw * 2)" "c_int (int rh * 2) = Some (int rh * 2)"
    using assms(4,5) by (simp_all add: c_int_def INT_MIN_def)
  ultimately have "DG_DrawFrame K (int rw) (int rh) s = Some s'"
    using m'(1) s'(1) by (simp add: DG_DrawFrame_def SCALE_def kx_def ky_def Let_def cong: if_cong)
  with m'(2) s' show ?thesis by auto
qed

section \<open>Mapping the framebuffer\<close>

lemma fb_wire_keeps: "fb_wire_loop s m va base i k = Inr m' \<Longrightarrow> m a \<noteq> None \<Longrightarrow> m' a \<noteq> None"
proof (induction k arbitrary: i m)
  case (Suc k)
  let ?m = "wire_page s m (va + of_nat (i * PAGE)) (sat_add64 base (sat64 (i * PAGE)))"
  have "fb_wire_loop s ?m va base (Suc i) k = Inr m'" using Suc.prems(1) by (simp add: Let_def split: if_splits)
  moreover have "?m a \<noteq> None" using Suc.prems(2) by (simp add: wire_page_def)
  ultimately show ?case by (rule Suc.IH)
qed simp

text \<open>A framebuffer whose rows hold the visible pixels and whose pixels can be counted in 32 bits.\<close>

definition fb_info_ok :: "FramebufferInfo \<Rightarrow> bool" where
  "fb_info_ok info \<longleftrightarrow> fb_width info \<le> fb_pitch info div 4 \<and> unat (fb_pitch info div 4) * unat (fb_height info) < 2 ^ 32"

lemma unat_div4: "unat (x div 4) = unat x div 4" for x :: u32
  by (simp add: unat_div)

lemma fb_bytes:
  assumes "fb_info_ok info"
  defines "n \<equiv> unat (ucast (fb_pitch info) * ucast (fb_height info) :: u64)"
  shows "unat (fb_pitch info div 4) * unat (fb_height info) * 4 \<le> n" "n + 4095 < 2 ^ 64"
proof -
  let ?p = "unat (fb_pitch info)" and ?h = "unat (fb_height info)"
  have q: "4 * (?p div 4) \<le> ?p" "?p \<le> 4 * (?p div 4) + 3" by linarith+
  have h: "?h < 2 ^ 32" using unsigned_less [of "fb_height info", where 'a = nat] by simp
  have "?p * ?h \<le> (4 * (?p div 4) + 3) * ?h" using q(2) by (rule mult_le_mono1)
  also have "\<dots> = 4 * (?p div 4 * ?h) + 3 * ?h" by (simp add: algebra_simps)
  also have "\<dots> < 2 ^ 36" using assms(1) h by (simp add: fb_info_ok_def unat_div4)
  finally have lt: "?p * ?h < 2 ^ 36" .
  have "unat (ucast (fb_pitch info) :: u64) = ?p" "unat (ucast (fb_height info) :: u64) = ?h"
    by (simp_all add: unsigned_ucast_eq take_bit_nat_eq_self_iff order_less_trans [OF unsigned_less])
  then have n: "n = ?p * ?h"
    unfolding n_def using unat_mult_lem [of "ucast (fb_pitch info) :: u64" "ucast (fb_height info)"] lt by simp
  show "unat (fb_pitch info div 4) * ?h * 4 \<le> n"
    unfolding n using mult_le_mono1 [OF q(1), of ?h] by (simp add: unat_div4 algebra_simps)
  show "n + 4095 < 2 ^ 64" unfolding n using lt by simp
qed

lemma framebuffer_map_cases:
  fixes s :: "'s machine_scheme"
  assumes "gpu s = None" "boot_fb s = Some (info, base)" "fb_info_ok info" "vm_ok (vm_map s)"
  shows "\<exists>fb inf m. innigkeit_framebuffer_map s = Some ((fb, inf), s\<lparr>mem := m\<rparr>) \<and>
    (\<forall>a. mem s a \<noteq> None \<longrightarrow> m a \<noteq> None) \<and>
    (fb = NULL \<or> inf = Some info \<and> 0 < unat fb \<and>
      unat fb + unat (fb_pitch info div 4) * unat (fb_height info) * 4 \<le> 2 ^ 64 \<and>
      mapped m fb (unat (fb_pitch info div 4) * unat (fb_height info) * 4))"
proof -
  define total where "total = (ucast (fb_pitch info) * ucast (fb_height info) :: u64)"
  define n where "n = alignForward total 4096"
  note b = fb_bytes [OF assms(3), folded total_def]
  have al: "unat n = (unat total + 4095) div 4096 * 4096" unfolding n_def by (rule alignForward_page [OF b(2)])
  then have n: "unat (fb_pitch info div 4) * unat (fb_height info) * 4 \<le> unat n" using b(1) by linarith
  have fail: "innigkeit_framebuffer_map s = Some ((NULL, None), s\<lparr>mem := m\<rparr>)"
    if "sys_framebuffer_map s = (Inl e, s\<lparr>mem := m\<rparr>)" for e m
    using that by (simp add: innigkeit_framebuffer_map_def)
  note sys = sys_framebuffer_map_def [of s, unfolded assms(1,2) option.case prod.case Let_def, folded total_def, folded n_def]
  consider (err) e where "sys_framebuffer_map s = (Inl e, s)"
    | (wire) e va where "vm_map s (mem s) n = Inr va" "sys_framebuffer_map s = (Inl e, s\<lparr>mem := unmap_range (mem s) va (unat n)\<rparr>)"
    | (ok) va m k where "vm_map s (mem s) n = Inr va" "fb_wire_loop s (map_zero (mem s) va (unat n)) va base 0 k = Inr m"
        "sys_framebuffer_map s = (Inr (va, info), s\<lparr>mem := m\<rparr>)"
  proof (cases "vm_map s (mem s) n")
    case (Inl e)
    then show ?thesis using that(1) sys by (cases "ent_framebuffer s") simp_all
  next
    case (Inr va)
    then show ?thesis using that sys
      by (cases "ent_framebuffer s"; cases "fb_wire_loop s (map_zero (mem s) va (unat n)) va base 0 (unat (n div 4096))") simp_all
  qed
  then show ?thesis
  proof cases
    case err
    then show ?thesis using fail [of e "mem s"] by (intro exI [of _ NULL] exI [of _ None] exI [of _ "mem s"]) simp
  next
    case wire
    have "\<forall>a. in_range a va (unat n) \<longrightarrow> mem s a = None" using assms(4) wire(1) unfolding vm_ok_def by blast
    then have "unmap_range (mem s) va (unat n) = mem s" by (auto simp: unmap_range_def fun_eq_iff)
    then show ?thesis using fail [OF wire(2)] by (intro exI [of _ NULL] exI [of _ None] exI [of _ "mem s"]) simp
  next
    case ok
    have va: "user_base \<le> unat va" "unat va + unat n \<le> user_end" using assms(4) ok(1) unfolding vm_ok_def by blast+
    then have va': "0 < unat va" "unat va + unat n \<le> 2 ^ 64" "unat va < 2 ^ 63" by (simp_all add: user_base_def user_end_def)
    have "mapped (map_zero (mem s) va (unat n)) va (unat n)" by (rule map_zero_mapped [OF va'(1,2)])
    then have "mapped m va (unat n)" using fb_wire_keeps [OF ok(2)] by (rule mapped_mono)
    then have "mapped m va (unat (fb_pitch info div 4) * unat (fb_height info) * 4)" using n by (rule mapped_less)
    moreover have "m a \<noteq> None" if "mem s a \<noteq> None" for a
      using fb_wire_keeps [OF ok(2), of a] that by (simp add: map_zero_def)
    moreover have "innigkeit_framebuffer_map s = Some ((va, Some info), s\<lparr>mem := m\<rparr>)"
      using ok(3) decode_wire_Inr [OF va'(3)] by (simp add: innigkeit_framebuffer_map_def)
    ultimately show ?thesis using va' n by (intro exI [of _ va] exI [of _ "Some info"] exI [of _ m]) simp
  qed
qed

definition fb_message :: "FramebufferInfo \<Rightarrow> byte list" where
  "fb_message info = chars ''DG_Init: framebuffer '' @ decimal (unat (fb_width info)) @ chars ''x'' @
     decimal (unat (fb_height info)) @ chars '' stride='' @ decimal (unat (fb_pitch info div 4)) @ [10]"

lemma print_fb_message:
  assumes "prints_ok s" "literal_room s 40"
  shows "\<exists>m. printf_literal s (chars ''DG_Init: framebuffer %ux%u stride=%u'' @ [10])
      [ucast (fb_width info), ucast (fb_height info), ucast (fb_pitch info div 4)] =
      Some (int (length (fb_message info)), s\<lparr>mem := m, terminal := terminal s @ fb_message info\<rparr>) \<and>
    (\<forall>a. m a = None \<longleftrightarrow> mem s a = None)"
proof -
  define fmt where "fmt = chars ''DG_Init: framebuffer %ux%u stride=%u'' @ [10]"
  let ?its = "[Txt (chars ''DG_Init: framebuffer ''), ConvU (ucast (fb_width info)), Txt (chars ''x''),
    ConvU (ucast (fb_height info)), Txt (chars '' stride=''), ConvU (ucast (fb_pitch info div 4)), Txt [10]]"
  have uu: "ucast (ucast x :: u64) = x" for x :: u32 by (rule bit_word_eqI) (simp add: bit_simps)
  have out: "concat (map item_out ?its) = fb_message info" by (simp add: fb_message_def uu)
  have len: "length (fb_message info) \<le> 4095"
    using length_decimal_u32 [of "fb_width info"] length_decimal_u32 [of "fb_height info"] length_decimal_u32 [of "fb_pitch info div 4"]
    by (simp add: fb_message_def chars_def)
  have "literal_room s (Suc (length fmt))" using literal_room_less [OF assms(2), of "Suc (length fmt)"] by (simp add: fmt_def chars_def)
  moreover have "fmt = concat (map item_text ?its)" by (simp add: fmt_def chars_def)
  moreover have "item_ok M i" if "i \<in> set ?its" for i M using that by (auto simp: chars_def)
  ultimately show ?thesis
    using printf_items [OF assms(1), of fmt ?its] len unfolding out fmt_def [symmetric] by fastforce
qed

lemma print_no_fb:
  assumes "prints_ok s" "literal_room s 40"
  shows "\<exists>r m. printf_literal s (chars ''DG_Init: no framebuffer'' @ [10]) [] =
      Some (r, s\<lparr>mem := m, terminal := terminal s @ chars ''DG_Init: no framebuffer'' @ [10]\<rparr>)"
proof -
  define fmt where "fmt = chars ''DG_Init: no framebuffer'' @ [10]"
  have "literal_room s (Suc (length fmt))" using literal_room_less [OF assms(2), of "Suc (length fmt)"] by (simp add: fmt_def chars_def)
  moreover have "item_ok M (Txt fmt)" "length fmt \<le> 4095" for M by (auto simp: fmt_def chars_def)
  ultimately show ?thesis using printf_items [OF assms(1), of fmt "[Txt fmt]" "[]"] unfolding fmt_def [symmetric] by fastforce
qed

section \<open>The platform as a transition system\<close>

text \<open>
  The interrupt handler adds raw bytes at any moment; the game polls, draws and takes keys.
\<close>

inductive dg_step :: "doom_keys \<Rightarrow> 's doom_scheme \<Rightarrow> 's doom_scheme \<Rightarrow> bool" for K where
  irq: "dg_step K s (s\<lparr>raw_kb := raw_kb_push b (raw_kb s)\<rparr>)"
| poll: "poll_keyboard K s = Some s' \<Longrightarrow> dg_step K s s'"
| draw: "DG_DrawFrame K resx resy s = Some s' \<Longrightarrow> dg_step K s s'"
| get: "DG_GetKey s p k = Some (r, s') \<Longrightarrow> dg_step K s s'"
| tick: "DG_SleepMs s ms = Some s' \<Longrightarrow> dg_step K s s'"

inductive_cases dg_stepE: "dg_step K s s'"

lemma poll_ok_mem [simp]: "poll_ok (s\<lparr>mem := m\<rparr>) = poll_ok s"
  by (simp add: poll_ok_def)

lemma poll_ok_poll:
  assumes "poll_ok s" "poll_keyboard K s = Some s'"
  shows "poll_ok s'"
proof -
  have "ent_keyboard s" "raw_kb_inv (raw_kb s)" "userBuffer (c_frame s) 32" "key_inv (keyq s)"
    using assms(1) by (simp_all add: poll_ok_def)
  then show ?thesis using poll_keyboard_eq [of s K] assms(2) kq.push_all_invar [of "keyq s"] by (auto simp: poll_ok_def)
qed

lemma poll_ok_wait: "busy_wait s target = Some s' \<Longrightarrow> \<exists>n. s' = s\<lparr>clock_reads := n\<rparr>"
  using busy_wait_Some [of s target s'] busy_wait_returns [of target s] by fastforce

lemma poll_ok_step: "dg_step K s s' \<Longrightarrow> poll_ok s \<Longrightarrow> poll_ok s'"
proof (induction rule: dg_step.induct)
  case (irq s b)
  then show ?case using kb.push_invar [of "raw_kb s" b] by (simp add: poll_ok_def)
next
  case (poll s s')
  then show ?case using poll_ok_poll by blast
next
  case (draw resx resy s s')
  then show ?case
    by (auto simp: DG_DrawFrame_def Let_def bind_Some_iff split: if_splits dest!: poll_ok_poll [rotated])
next
  case (get s p k r s')
  then show ?case
    using kq.pop_Some [of "keyq s"]
    by (auto simp: DG_GetKey_def poll_ok_def bind_Some_iff split: option.splits)
next
  case (tick s ms s')
  then show ?case by (auto simp: DG_SleepMs_def poll_ok_def dest!: poll_ok_wait)
qed

section \<open>Properties\<close>

text \<open>
  C1.  DG_DrawFrame shows the game's frame at twice its size, centred: every visible pixel of the
  framebuffer within the scaled frame is the game's pixel, every other one keeps its value, and no
  memory outside the framebuffer changes, whatever the sizes of screen and frame.
\<close>

theorem DG_DrawFrame_image:
  assumes "fb_holds s (mem s) px" "screen_holds s (mem s) img" "length img = rw * rh" "int rw * 2 \<le> INT_MAX"
    "int rh * 2 \<le> INT_MAX" "poll_ok s"
  defines "ox \<equiv> (unat (s_fb_w s) - 2 * rw) div 2" and "oy \<equiv> (unat (s_fb_h s) - 2 * rh) div 2"
  shows "\<exists>s' px'. DG_DrawFrame K (int rw) (int rh) s = Some s' \<and> fb_holds s (mem s') px' \<and>
    (\<forall>x < unat (s_fb_w s). \<forall>y < unat (s_fb_h s). px' ! (y * unat (s_stride s) + x) =
      (if ox \<le> x \<and> x < ox + 2 * rw \<and> oy \<le> y \<and> y < oy + 2 * rh
       then img ! ((y - oy) div 2 * rw + (x - ox) div 2) else px ! (y * unat (s_stride s) + x))) \<and>
    (\<forall>a. \<not> in_fb s a \<longrightarrow> mem s' a = mem s a)"
proof -
  let ?px = "set_image (unat (s_fb_w s)) (unat (s_fb_h s)) (unat (s_stride s)) ox oy rw img [0..<rh] px"
  obtain s' where s': "DG_DrawFrame K (int rw) (int rh) s = Some s'" "drawn s (mem s) (mem s') ?px"
    using DG_DrawFrame_draws [OF assms(1-6)] unfolding ox_def oy_def by blast
  have fb: "length px = unat (s_stride s) * unat (s_fb_h s)" "unat (s_fb_w s) \<le> unat (s_stride s)"
    using assms(1) by (auto simp: fb_holds_def word_le_nat_alt)
  show ?thesis
    using s' nth_set_image [OF fb, of _ _ ox oy rw img rh] by (intro exI [of _ s'] exI [of _ ?px]) (simp add: drawn_def)
qed

text \<open>
  C37.  DG_GetKey hands out the oldest key event, its two parts stored through the pointers, and
  removes it; on an empty queue it returns zero and stores nothing.
\<close>

theorem DG_GetKey_takes:
  assumes "key_inv (keyq s)" "map event_word evs = key_items (keyq s)" "mapped (mem s) pressed 4" "mapped (mem s) doom_key 1"
  shows "case evs of
      [] \<Rightarrow> DG_GetKey s pressed doom_key = Some (0, s)
    | (down, k) # es \<Rightarrow> \<exists>q. DG_GetKey s pressed doom_key =
        Some (1, s\<lparr>keyq := q, mem := write_bytes (write_bytes (mem s) pressed (le_bytes 4 (of_bool down :: u32))) doom_key [k]\<rparr>) \<and>
        key_inv q \<and> key_items q = map event_word es"
proof (cases evs)
  case Nil
  then show ?thesis using DG_GetKey_empty [OF assms(1)] assms(2) by simp
next
  case (Cons e es)
  then show ?thesis using DG_GetKey_next [OF assms(1) _ assms(3,4), of "fst e" "snd e" "map event_word es"] assms(2)
    by (cases e) simp
qed

text \<open>
  C39.  The key queue has no check for being full: thirty-two events found by one poll of an empty
  queue leave it empty, so all of them are lost.
\<close>

theorem poll_loses_keys:
  assumes "poll_ok s" "key_items (keyq s) = []"
    "length (scan_events K (in_extended s) (take 32 (raw_kb_items (raw_kb s)))) = 32"
  shows "\<exists>s'. poll_keyboard K s = Some s' \<and> key_items (keyq s') = []"
proof -
  define evs where "evs = map event_word (scan_events K (in_extended s) (take 32 (raw_kb_items (raw_kb s))))"
  have "length evs = 32" using assms(3) by (simp add: evs_def)
  then obtain xs x where xs: "evs = xs @ [x]" "length xs = 31" by (cases evs rule: rev_cases) auto
  have inv: "key_inv (keyq s)" using assms(1) by (simp add: poll_ok_def)
  then have "key_items (fold key_store evs (keyq s)) = []"
    using xs key_store_full [OF kq.push_all_invar] kq.push_all_items [of "keyq s" xs] assms(2) by simp
  then show ?thesis using poll_keyboard_eq [of s K] assms(1) by (auto simp: poll_ok_def evs_def)
qed


text \<open>
  C10.  Whatever the order of interrupts, polls, frames, waits and key reads, polling the keyboard
  never touches memory it may not and always returns.
\<close>

theorem dg_reach_safe:
  assumes "(dg_step K)\<^sup>*\<^sup>* s s'" "poll_ok s"
  shows "poll_ok s' \<and> (\<exists>s''. poll_keyboard K s' = Some s'' \<and> mem s'' = mem s')"
proof -
  have ok: "poll_ok s'" using assms by (induction rule: rtranclp_induct) (auto intro: poll_ok_step)
  then show ?thesis using poll_keyboard_eq [of s' K] by (auto simp: poll_ok_def)
qed

section \<open>Witnesses\<close>

definition demo_keys :: doom_keys where
  "demo_keys = \<lparr>KEY_UPARROW = 0xAD, KEY_DOWNARROW = 0xAF, KEY_LEFTARROW = 0xAC, KEY_RIGHTARROW = 0xAE, KEY_RCTRL = 0x9D,
     KEY_RALT = 0xB8, KEY_ENTER = 13, KEY_ESCAPE = 27, KEY_FIRE = 0xA3, KEY_USE = 0xA2, KEY_RSHIFT = 0xB6, KEY_LALT = 0xB8,
     KEY_TAB = 9, KEY_F = (\<lambda>n. 0xBA + of_nat n)\<rparr>"

definition empty_keys :: key_queue where
  "empty_keys = \<lparr>s_key_queue = replicate 32 0, s_key_write = 0, s_key_read = 0\<rparr>"

definition demo_screen :: mem where
  "demo_screen = write_bytes (write_bytes demo_mem 0x800000 [0, 0, 0, 0, 0, 0, 0, 0, 0, 0, 0, 0, 0, 0, 0, 0,
     0, 0, 0, 0, 0, 0, 0, 0, 0, 0, 0, 0, 0, 0, 0, 0]) 0x900000 [1, 2, 3, 4]"

definition demo_doom :: doom where
  "demo_doom = files.extend (demo_files\<lparr>mem := demo_screen, boot_fb := Some (\<lparr>fb_width = 3, fb_height = 2, fb_pitch = 16, fb_bpp = 32\<rparr>, 0x80000000)\<rparr>)
     (doom.fields 0 0 0 0 empty_keys False 0x900000)"

lemma demo_doom_simps:
  "mem demo_doom = demo_screen" "printf_buf demo_doom = 0x300000" "literals demo_doom = 0x400000" "c_frame demo_doom = 0x410000"
  "terminal_ok demo_doom" "print_frame demo_doom = 0x7000000" "vm_map demo_doom = two_place_vm" "gpu demo_doom = None"
  "boot_fb demo_doom = Some (\<lparr>fb_width = 3, fb_height = 2, fb_pitch = 16, fb_bpp = 32\<rparr>, 0x80000000)"
  "keyq demo_doom = empty_keys" "\<not> in_extended demo_doom" "DG_ScreenBuffer demo_doom = 0x900000" "s_fb demo_doom = 0"
  "ent_keyboard demo_doom" "raw_kb demo_doom = raw_kb_init"
  by (simp_all add: demo_doom_def doom.defs files.defs demo_files_def demo_stdio_def boot_heap_def boot_machine_def heap.defs
      stdio.defs machine.defs)

lemma empty_keys_ok: "key_inv empty_keys" "key_items empty_keys = []"
  by (simp_all add: key_inv_def empty_keys_def key_items_def ring_items_def ring_count_def)

lemma demo_poll_ok:
  assumes "mem s = m" "ent_keyboard s" "raw_kb_inv (raw_kb s)" "c_frame s = 0x410000" "key_inv (keyq s)"
  shows "poll_ok s"
  using assms by (simp add: poll_ok_def userBuffer_iff user_base_def user_end_def)

lemma demo_screen_bytes: "mapped demo_screen 0x800000 32" "bytes_at demo_screen 0x900000 [1, 2, 3, 4]"
proof -
  have "bytes_at demo_screen 0x800000 [0, 0, 0, 0, 0, 0, 0, 0, 0, 0, 0, 0, 0, 0, 0, 0,
     0, 0, 0, 0, 0, 0, 0, 0, 0, 0, 0, 0, 0, 0, 0, 0]" by (simp add: demo_screen_def load8_def)
  then show "mapped demo_screen 0x800000 32" by (rule bytes_mapped) simp
qed (simp add: demo_screen_def load8_def)

abbreviation demo_drawing :: doom where
  "demo_drawing \<equiv> demo_doom\<lparr>s_fb := 0x800000, s_fb_w := 3, s_fb_h := 2, s_stride := 4\<rparr>"

lemma demo_fb: "\<exists>px. fb_holds demo_drawing (mem demo_drawing) px"
  using demo_screen_bytes(1) by (intro fb_of_mapped) (simp_all add: demo_doom_simps)

lemma demo_img: "screen_holds demo_drawing (mem demo_drawing) [0x04030201]"
proof -
  have "le_bytes 4 (0x04030201 :: u32) = [1, 2, 3, 4]" by code_simp
  then show ?thesis using demo_screen_bytes(2) by (simp add: screen_holds_def arr_def demo_doom_simps sep_def)
qed

theorem DG_DrawFrame_image_witness:
  "\<exists>s' px'. DG_DrawFrame demo_keys 1 1 demo_drawing = Some s' \<and> fb_holds demo_drawing (mem s') px' \<and> px' ! 5 = 0x04030201"
proof -
  obtain px where px: "fb_holds demo_drawing (mem demo_drawing) px" using demo_fb by blast
  have "poll_ok demo_drawing" by (rule demo_poll_ok) (simp_all add: demo_doom_simps empty_keys_ok)
  then obtain s' px' where s': "DG_DrawFrame demo_keys 1 1 demo_drawing = Some s'" "fb_holds demo_drawing (mem s') px'"
      "\<forall>x < 3. \<forall>y < 2. px' ! (y * 4 + x) = (if x < 2 \<and> y < 2 then [0x04030201] ! (y div 2 * 1 + x div 2) else px ! (y * 4 + x))"
    using DG_DrawFrame_image [OF px demo_img, of 1 1 demo_keys] by (auto simp: INT_MAX_def)
  from s'(3) [rule_format, of 1 1] have "px' ! 5 = 0x04030201" by simp
  with s'(1,2) show ?thesis by blast
qed

abbreviation demo_queue :: doom where
  "demo_queue \<equiv> demo_doom\<lparr>keyq := key_push 1 13 empty_keys\<rparr>"

theorem DG_GetKey_takes_witness:
  "\<exists>q. DG_GetKey demo_queue 0x800000 0x800004 =
     Some (1, demo_queue\<lparr>keyq := q, mem := write_bytes (write_bytes demo_screen 0x800000 [1, 0, 0, 0]) 0x800004 [13]\<rparr>) \<and> key_items q = []"
proof -
  have k: "key_push 1 13 empty_keys = key_store (event_word (True, 13)) empty_keys" by (simp add: key_push_def event_word_def)
  have "key_items (keyq demo_queue) = map event_word [(True, 13)]" "key_inv (keyq demo_queue)"
    using kq.push_items [OF empty_keys_ok(1)] kq.push_invar [OF empty_keys_ok(1)] by (simp_all add: k empty_keys_ok(2))
  moreover have "mapped demo_screen 0x800000 4" "mapped demo_screen 0x800004 1"
    using mapped_less [OF demo_screen_bytes(1), of 4]
      mapped_tail [of demo_screen "0x800000" 4 1] mapped_less [OF demo_screen_bytes(1), of 5] by simp_all
  moreover have "le_bytes 4 (1 :: u32) = [1, 0, 0, 0]" by code_simp
  ultimately show ?thesis
    using DG_GetKey_takes [of demo_queue "[(True, 13)]" "0x800000" "0x800004"] by (auto simp: demo_doom_simps)
qed

abbreviation demo_burst :: doom where
  "demo_burst \<equiv> demo_doom\<lparr>raw_kb := fold raw_kb_push (replicate 32 0x1C) raw_kb_init\<rparr>"

lemma demo_burst_items: "raw_kb_items (raw_kb demo_burst) = replicate 32 0x1C" "poll_ok demo_burst"
proof -
  show "raw_kb_items (raw_kb demo_burst) = replicate 32 0x1C"
    using kb.push_all_items [of raw_kb_init "replicate 32 0x1C"] by simp
  show "poll_ok demo_burst"
    using kb.push_all_invar [of raw_kb_init "replicate 32 0x1C"] by (intro demo_poll_ok) (simp_all add: demo_doom_simps empty_keys_ok)
qed

theorem poll_loses_keys_witness:
  "\<exists>s'. poll_keyboard demo_keys demo_burst = Some s' \<and> key_items (keyq s') = []"
proof (rule poll_loses_keys [OF demo_burst_items(2)])
  have "length (scan_events demo_keys False (replicate n 0x1C)) = n" for n
    by (induction n) (simp_all add: scancode_to_doom_def demo_keys_def)
  then show "length (scan_events demo_keys (in_extended demo_burst) (take 32 (raw_kb_items (raw_kb demo_burst)))) = 32"
    unfolding demo_burst_items(1) by (simp add: demo_doom_simps)
qed (simp add: demo_doom_simps empty_keys_ok)


theorem dg_reach_safe_witness:
  "poll_ok (demo_doom\<lparr>raw_kb := raw_kb_push 0x1C (raw_kb demo_doom)\<rparr>) \<and>
   (\<exists>s''. poll_keyboard demo_keys (demo_doom\<lparr>raw_kb := raw_kb_push 0x1C (raw_kb demo_doom)\<rparr>) = Some s'' \<and> mem s'' = demo_screen)"
proof -
  have "poll_ok demo_doom" by (rule demo_poll_ok) (simp_all add: demo_doom_simps empty_keys_ok)
  moreover have "(dg_step demo_keys)\<^sup>*\<^sup>* demo_doom (demo_doom\<lparr>raw_kb := raw_kb_push 0x1C (raw_kb demo_doom)\<rparr>)"
    by (rule r_into_rtranclp) (rule dg_step.irq)
  ultimately show ?thesis using dg_reach_safe by (fastforce simp: demo_doom_simps)
qed

end
