(* ===== verification/MathFns.thy ===== *)
theory MathFns
  imports CNumber Complex_Main
begin

text \<open>
  The floating-point functions of \<^verbatim>\<open>apps/doom/innigkeit_libc.c\<close>: \<^verbatim>\<open>atof\<close> (lines 171-178) and
  the mathematical functions (lines 592-652).

  They are defined for any floating-point arithmetic: the operations of the types \<^verbatim>\<open>double\<close> and
  \<^verbatim>\<open>float\<close>, with their rounding, are the parameter \<open>F\<close>.  The properties are about the algorithms:
  what they compute in exact arithmetic (\<open>exact\<close>, the operations of the real numbers), where the
  only error is that of the method.
\<close>

section \<open>Arithmetic\<close>

text \<open>
  The last four fields: a literal; the conversion from and to \<^verbatim>\<open>long long\<close> (out of range the latter
  is undefined); between the two types.
\<close>

record ('d, 'f) fp =
  fadd :: "'d \<Rightarrow> 'd \<Rightarrow> 'd"
  fsub :: "'d \<Rightarrow> 'd \<Rightarrow> 'd"
  fmul :: "'d \<Rightarrow> 'd \<Rightarrow> 'd"
  fdiv :: "'d \<Rightarrow> 'd \<Rightarrow> 'd"
  fneg :: "'d \<Rightarrow> 'd"
  fless :: "'d \<Rightarrow> 'd \<Rightarrow> bool"
  fleq :: "'d \<Rightarrow> 'd \<Rightarrow> bool"
  feq :: "'d \<Rightarrow> 'd \<Rightarrow> bool"
  flit :: "rat \<Rightarrow> 'd"
  of_ll :: "int \<Rightarrow> 'd"
  to_ll :: "'d \<Rightarrow> int option"
  narrow :: "'d \<Rightarrow> 'f"
  widen :: "'f \<Rightarrow> 'd"

section \<open>Parsing\<close>

function atof_int :: "('d, 'f) fp \<Rightarrow> mem \<Rightarrow> addr \<Rightarrow> 'd \<Rightarrow> ('d \<times> addr) option" where
  "atof_int F m s v =
     do { c \<leftarrow> load8 m s;
          if isdigit (uint c) \<noteq> 0
          then atof_int F m (s + 1) (fadd F (fmul F v (flit F 10)) (of_ll F (sint c - 48)))
          else Some (v, s) }"
  by pat_completeness auto
termination
  by (relation "measure (\<lambda>(F, m, s, v). unat (- s))") (auto dest!: load8_SomeD simp: unat_neg_step)

function atof_frac :: "('d, 'f) fp \<Rightarrow> mem \<Rightarrow> addr \<Rightarrow> 'd \<Rightarrow> 'd \<Rightarrow> 'd option" where
  "atof_frac F m s v f =
     do { c \<leftarrow> load8 m s;
          if isdigit (uint c) \<noteq> 0
          then atof_frac F m (s + 1) (fadd F v (fmul F (of_ll F (sint c - 48)) f)) (fmul F f (flit F (1 / 10)))
          else Some v }"
  by pat_completeness auto
termination
  by (relation "measure (\<lambda>(F, m, s, v, f). unat (- s))") (auto dest!: load8_SomeD simp: unat_neg_step)

declare atof_int.simps [simp del] atof_frac.simps [simp del]

definition atof_sign :: "('d, 'f) fp \<Rightarrow> mem \<Rightarrow> addr \<Rightarrow> ('d \<times> addr) option" where
  "atof_sign F m s =
     do { c \<leftarrow> load8 m s;
          Some (if c = chr_minus then (fneg F (flit F 1), s + 1)
                else if c = chr_plus then (flit F 1, s + 1) else (flit F 1, s)) }"

definition atof :: "('d, 'f) fp \<Rightarrow> mem \<Rightarrow> addr \<Rightarrow> 'd option" where
  "atof F m s =
     do { s \<leftarrow> scan_while (\<lambda>c. Some (isspace (uint c) \<noteq> 0)) m s;
          (sign, s) \<leftarrow> atof_sign F m s;
          (v, s) \<leftarrow> atof_int F m s (flit F 0);
          c \<leftarrow> load8 m s;
          v \<leftarrow> (if c = 46 then atof_frac F m (s + 1) v (flit F (1 / 10)) else Some v);
          Some (fmul F sign v) }"

section \<open>Rounding and roots\<close>

definition fabs :: "('d, 'f) fp \<Rightarrow> 'd \<Rightarrow> 'd" where
  "fabs F x = (if fless F x (flit F 0) then fneg F x else x)"

definition floor_c :: "('d, 'f) fp \<Rightarrow> 'd \<Rightarrow> 'd option" where
  "floor_c F x =
     do { t \<leftarrow> to_ll F x;
          Some (fsub F (of_ll F t) (if fless F x (of_ll F t) then flit F 1 else flit F 0)) }"

definition ceil_c :: "('d, 'f) fp \<Rightarrow> 'd \<Rightarrow> 'd option" where
  "ceil_c F x =
     do { t \<leftarrow> to_ll F x;
          if fless F (of_ll F t) x then do { t \<leftarrow> c_long (t + 1); Some (of_ll F t) } else Some (of_ll F t) }"

primrec sqrt_loop :: "('d, 'f) fp \<Rightarrow> 'd \<Rightarrow> nat \<Rightarrow> 'd \<Rightarrow> 'd" where
  "sqrt_loop F x 0 r = r"
| "sqrt_loop F x (Suc i) r = sqrt_loop F x i (fmul F (flit F (1 / 2)) (fadd F r (fdiv F x r)))"

definition sqrt_c :: "('d, 'f) fp \<Rightarrow> 'd \<Rightarrow> 'd" where
  "sqrt_c F x = (if fleq F x (flit F 0) then flit F 0 else sqrt_loop F x 40 x)"

section \<open>Series\<close>

definition sin_c :: "('d, 'f) fp \<Rightarrow> 'd \<Rightarrow> 'd" where
  "sin_c F x =
     (let x2 = fmul F x x; t = x; s = x;
          t = fmul F t (fdiv F (fneg F x2) (flit F 6)); s = fadd F s t;
          t = fmul F t (fdiv F (fneg F x2) (flit F 20)); s = fadd F s t;
          t = fmul F t (fdiv F (fneg F x2) (flit F 42)); s = fadd F s t;
          t = fmul F t (fdiv F (fneg F x2) (flit F 72)); s = fadd F s t in
      s)"

definition cos_c :: "('d, 'f) fp \<Rightarrow> 'd \<Rightarrow> 'd" where
  "cos_c F x =
     (let x2 = fmul F x x; t = flit F 1; s = flit F 1;
          t = fmul F t (fdiv F (fneg F x2) (flit F 2)); s = fadd F s t;
          t = fmul F t (fdiv F (fneg F x2) (flit F 12)); s = fadd F s t;
          t = fmul F t (fdiv F (fneg F x2) (flit F 30)); s = fadd F s t;
          t = fmul F t (fdiv F (fneg F x2) (flit F 56)); s = fadd F s t in
      s)"

definition atan2_c :: "('d, 'f) fp \<Rightarrow> 'd \<Rightarrow> 'd \<Rightarrow> 'd" where
  "atan2_c F y x =
     (if feq F x (flit F 0) \<and> feq F y (flit F 0) then flit F 0
      else
        let ax = fabs F x; ay = fabs F y;
            poly = (\<lambda>r. fmul F r (fsub F (flit F (9817 / 10000)) (fmul F (fmul F (flit F (1963 / 10000)) r) r)));
            a = (if fleq F ay ax then poly (fdiv F ay ax)
                 else fsub F (flit F (15708 / 10000)) (poly (fdiv F ax ay)));
            a = (if fless F x (flit F 0) then fsub F (flit F (314159265 / 100000000)) a else a) in
        if fless F y (flit F 0) then fneg F a else a)"

definition log_c :: "('d, 'f) fp \<Rightarrow> 'd \<Rightarrow> 'd" where
  "log_c F x =
     (if fless F (flit F 0) x
      then let x1 = fsub F x (flit F 1) in fsub F x1 (fdiv F (fmul F x1 x1) (flit F 2))
      else flit F 0)"

function exp_loop :: "('d, 'f) fp \<Rightarrow> 'd \<Rightarrow> int \<Rightarrow> 'd \<Rightarrow> 'd \<Rightarrow> 'd" where
  "exp_loop F x i t s =
     (if i < 20 then let t = fmul F t (fdiv F x (of_ll F i)) in exp_loop F x (i + 1) t (fadd F s t) else s)"
  by pat_completeness auto
termination
  by (relation "measure (\<lambda>(F, x, i, t, s). nat (20 - i))") auto

declare exp_loop.simps [simp del]

definition exp_c :: "('d, 'f) fp \<Rightarrow> 'd \<Rightarrow> 'd" where
  "exp_c F x = exp_loop F x 1 (flit F 1) (flit F 1)"

text \<open>The exponent is not negative when the loop starts; the shift halves it.\<close>

function pow_loop :: "('d, 'f) fp \<Rightarrow> int \<Rightarrow> 'd \<Rightarrow> 'd \<Rightarrow> 'd option" where
  "pow_loop F n b r =
     (if n < 0 then None
      else if n = 0 then Some r
      else pow_loop F (n div 2) (fmul F b b) (if n mod 2 = 1 then fmul F r b else r))"
  by pat_completeness auto
termination
  by (relation "measure (\<lambda>(F, n, b, r). nat n)") auto

declare pow_loop.simps [simp del]

definition pow_c :: "('d, 'f) fp \<Rightarrow> 'd \<Rightarrow> 'd \<Rightarrow> 'd option" where
  "pow_c F x y =
     (if feq F y (flit F 0) then Some (flit F 1)
      else
        do { n \<leftarrow> to_ll F y;
             if feq F y (of_ll F n) then
               do { let b = (if n < 0 then fdiv F (flit F 1) x else x);
                    n \<leftarrow> (if n < 0 then c_long (- n) else Some n);
                    pow_loop F n b (flit F 1) }
             else Some (exp_c F (fmul F y (log_c F x))) })"

section \<open>Single precision\<close>

definition fabsf :: "('d, 'f) fp \<Rightarrow> 'f \<Rightarrow> 'f" where "fabsf F x = narrow F (fabs F (widen F x))"
definition sqrtf :: "('d, 'f) fp \<Rightarrow> 'f \<Rightarrow> 'f" where "sqrtf F x = narrow F (sqrt_c F (widen F x))"
definition sinf :: "('d, 'f) fp \<Rightarrow> 'f \<Rightarrow> 'f" where "sinf F x = narrow F (sin_c F (widen F x))"
definition cosf :: "('d, 'f) fp \<Rightarrow> 'f \<Rightarrow> 'f" where "cosf F x = narrow F (cos_c F (widen F x))"
definition atan2f :: "('d, 'f) fp \<Rightarrow> 'f \<Rightarrow> 'f \<Rightarrow> 'f" where "atan2f F y x = narrow F (atan2_c F (widen F y) (widen F x))"

section \<open>Exact arithmetic\<close>

definition trunc :: "real \<Rightarrow> int" where
  "trunc x = (if 0 \<le> x then \<lfloor>x\<rfloor> else \<lceil>x\<rceil>)"

definition exact :: "(real, real) fp" where
  "exact = \<lparr>fadd = (+), fsub = (-), fmul = (*), fdiv = (/), fneg = uminus, fless = (<), fleq = (\<le>), feq = (=),
     flit = of_rat, of_ll = of_int, to_ll = (\<lambda>x. c_long (trunc x)), narrow = id, widen = id\<rparr>"

lemma exact_simps [simp]:
  "fadd exact x y = x + y" "fsub exact x y = x - y" "fmul exact x y = x * y" "fdiv exact x y = x / y"
  "fneg exact x = - x" "fless exact x y \<longleftrightarrow> x < y" "fleq exact x y \<longleftrightarrow> x \<le> y" "feq exact x y \<longleftrightarrow> x = y"
  "flit exact q = of_rat q" "of_ll exact n = of_int n" "to_ll exact x = c_long (trunc x)"
  by (simp_all add: exact_def)

lemma trunc_of_int [simp]: "trunc (of_int n) = n"
  by (simp add: trunc_def)

section \<open>Newton's method\<close>

text \<open>A step from above the root stays above it and halves the distance.\<close>

lemma newton_step:
  assumes "0 < x" "sqrt x \<le> r"
  defines "r' \<equiv> 1 / 2 * (r + x / r)"
  shows "sqrt x \<le> r'" "r' - sqrt x \<le> (r - sqrt x) / 2"
proof -
  have r: "0 < r" using assms(1,2) real_sqrt_gt_zero order_less_le_trans by blast
  have eq: "r' - sqrt x = (r - sqrt x)\<^sup>2 / (2 * r)"
    using r assms(1) by (simp add: r'_def field_simps power2_eq_square)
  have "0 \<le> r' - sqrt x" unfolding eq using r by (intro divide_nonneg_pos) simp_all
  then show "sqrt x \<le> r'" by simp
  have "(r - sqrt x)\<^sup>2 \<le> (r - sqrt x) * r"
    unfolding power2_eq_square using assms(1,2) by (intro mult_left_mono) simp_all
  then show "r' - sqrt x \<le> (r - sqrt x) / 2" unfolding eq using r by (simp add: field_simps)
qed

lemma newton_loop:
  assumes "0 < x"
  shows "sqrt x \<le> r \<Longrightarrow> sqrt x \<le> sqrt_loop exact x i r \<and> sqrt_loop exact x i r - sqrt x \<le> (r - sqrt x) / 2 ^ i"
proof (induction i arbitrary: r)
  case (Suc i)
  let ?r = "1 / 2 * (r + x / r)"
  have "sqrt x \<le> sqrt_loop exact x i ?r" "sqrt_loop exact x i ?r - sqrt x \<le> (?r - sqrt x) / 2 ^ i"
    using Suc.IH newton_step(1) [OF assms Suc.prems] by blast+
  moreover have "(?r - sqrt x) / 2 ^ i \<le> (r - sqrt x) / 2 / 2 ^ i"
    using newton_step(2) [OF assms Suc.prems] by (intro divide_right_mono) simp_all
  ultimately show ?case by (simp add: of_rat_divide)
qed simp

section \<open>Powers\<close>

lemma pow_loop_power:
  "0 \<le> n \<Longrightarrow> pow_loop exact n b r = Some (r * b ^ nat n)"
proof (induction "nat n" arbitrary: n b r rule: less_induct)
  case less
  show ?case
  proof (cases "n = 0")
    case False
    have ih: "pow_loop exact (n div 2) (b * b) r' = Some (r' * (b * b) ^ nat (n div 2))" for r'
      using less False by simp
    have "b ^ nat n = (if n mod 2 = 1 then b else 1) * (b * b) ^ nat (n div 2)"
    proof -
      have "n = 2 * (n div 2) + (if n mod 2 = 1 then 1 else 0)" by presburger
      then have n: "nat n = 2 * nat (n div 2) + (if n mod 2 = 1 then 1 else 0)"
        using less.prems by (subst arg_cong [where f = nat]) (auto simp: nat_add_distrib nat_mult_distrib)
      show ?thesis by (subst n) (simp add: power_add power_mult power2_eq_square mult.commute)
    qed
    then show ?thesis using less.prems False ih by (simp add: pow_loop.simps [of exact n])
  qed (simp add: pow_loop.simps [of exact 0])
qed

section \<open>Properties\<close>

text \<open>
  C17.  The forty steps of sqrt: in exact arithmetic the result is never below the root, and above
  it by at most the larger of one and the argument, divided by two to the fortieth.
\<close>

theorem sqrt_converges:
  assumes "0 < x"
  shows "sqrt x \<le> sqrt_c exact x \<and> sqrt_c exact x - sqrt x \<le> max 1 x / 2 ^ 40"
proof (cases "1 \<le> x")
  case True
  have "1 * x \<le> x * x" using True by (intro mult_right_mono) simp_all
  then have "sqrt x \<le> x" using real_sqrt_le_mono [of x "x * x"] assms by simp
  from newton_loop [OF assms this, of 40] have "sqrt x \<le> sqrt_loop exact x 40 x" "sqrt_loop exact x 40 x - sqrt x \<le> (x - sqrt x) / 2 ^ 40" by blast+
  moreover have "(x - sqrt x) / 2 ^ 40 \<le> max 1 x / 2 ^ 40" using real_sqrt_gt_zero [OF assms]
    by (intro divide_right_mono) (simp_all add: le_max_iff_disj)
  ultimately show ?thesis using assms by (simp add: sqrt_c_def)
next
  case False \<comment> \<open>from below, one step is enough to be above the root\<close>
  let ?r = "1 / 2 * (x + x / x)"
  have "0 \<le> (1 - sqrt x)\<^sup>2" by simp
  then have r: "sqrt x \<le> ?r" using assms by (simp add: power2_diff)
  have step: "sqrt_loop exact x 40 x = sqrt_loop exact x 39 ?r"
    using sqrt_loop.simps(2) [of exact x 39 x] by (simp add: of_rat_divide)
  from newton_loop [OF assms r, of 39] have "sqrt x \<le> sqrt_loop exact x 39 ?r" "sqrt_loop exact x 39 ?r - sqrt x \<le> (?r - sqrt x) / 2 ^ 39" by blast+
  moreover have "(?r - sqrt x) / 2 ^ 39 \<le> max 1 x / 2 ^ 40"
  proof -
    have "sqrt x * sqrt x \<le> sqrt x * 1" using assms False by (intro mult_left_mono) simp_all
    then have "x \<le> sqrt x" using assms by simp
    then have "?r - sqrt x \<le> 1 / 2" using assms by (simp add: field_simps)
    then have "(?r - sqrt x) / 2 ^ 39 \<le> (1 / 2) / 2 ^ 39" by (intro divide_right_mono) simp_all
    then show ?thesis using False by (simp add: max_def)
  qed
  ultimately have "sqrt x \<le> sqrt_loop exact x 40 x" "sqrt_loop exact x 40 x - sqrt x \<le> max 1 x / 2 ^ 40"
    unfolding step by (blast intro: order_trans)+
  then show ?thesis using assms by (simp add: sqrt_c_def)
qed


text \<open>The truncation and its correction are the mathematical floor and ceiling.\<close>

lemma trunc_bound: "\<bar>x\<bar> < 2 ^ 62 \<Longrightarrow> - (2 ^ 62) \<le> trunc x \<and> trunc x \<le> 2 ^ 62"
  by (auto simp: trunc_def abs_less_iff)

lemma trunc_range: "\<bar>x\<bar> < 2 ^ 62 \<Longrightarrow> c_long (trunc x) = Some (trunc x)" "\<bar>x\<bar> < 2 ^ 62 \<Longrightarrow> c_long (trunc x + 1) = Some (trunc x + 1)"
  using trunc_bound [of x] by (simp_all add: c_range_defs)

lemma trunc_floor: "\<lfloor>x\<rfloor> = (if x < of_int (trunc x) then trunc x - 1 else trunc x)"
  unfolding trunc_def by (cases "0 \<le> x"; simp; linarith)

lemma trunc_ceiling: "\<lceil>x\<rceil> = (if of_int (trunc x) < x then trunc x + 1 else trunc x)"
  unfolding trunc_def by (cases "0 \<le> x"; simp; linarith)

lemma floor_exact: "\<bar>x\<bar> < 2 ^ 62 \<Longrightarrow> floor_c exact x = Some (of_int \<lfloor>x\<rfloor>)"
  by (simp add: floor_c_def trunc_range trunc_floor [of x])

lemma ceil_exact: "\<bar>x\<bar> < 2 ^ 62 \<Longrightarrow> ceil_c exact x = Some (of_int \<lceil>x\<rceil>)"
  by (simp add: ceil_c_def trunc_range trunc_ceiling [of x])

theorem sqrt_converges_witness: "sqrt 2 \<le> sqrt_c exact 2 \<and> sqrt_c exact 2 - sqrt 2 \<le> 2 / 2 ^ 40"
  using sqrt_converges [of 2] by simp


section \<open>Decimal fractions\<close>

definition digit_byte :: "nat \<Rightarrow> byte" where
  "digit_byte d = 48 + of_nat d"

definition decimal_value :: "nat list \<Rightarrow> nat" where
  "decimal_value ds = foldl (\<lambda>v d. v * 10 + d) 0 ds"

lemma digit_byte_facts:
  assumes "d < 10"
  shows "isdigit (uint (digit_byte d)) \<noteq> 0" "sint (digit_byte d) = 48 + int d" "isspace (uint (digit_byte d)) = 0"
    "digit_byte d \<noteq> chr_minus" "digit_byte d \<noteq> chr_plus"
proof -
  let ?P = "\<lambda>d. isdigit (uint (digit_byte d)) \<noteq> 0 \<and> sint (digit_byte d) = 48 + int d \<and> isspace (uint (digit_byte d)) = 0 \<and>
    digit_byte d \<noteq> chr_minus \<and> digit_byte d \<noteq> chr_plus"
  have "d \<in> {0, 1, 2, 3, 4, 5, 6, 7, 8, 9}" using assms by auto
  then have "?P d" by (elim insertE emptyE; simp only:; code_simp)
  then show "isdigit (uint (digit_byte d)) \<noteq> 0" "sint (digit_byte d) = 48 + int d" "isspace (uint (digit_byte d)) = 0"
    "digit_byte d \<noteq> chr_minus" "digit_byte d \<noteq> chr_plus" by simp_all
qed

lemma atof_chars: "isspace 45 = 0" "isspace 43 = 0" "isspace 46 = 0" "isdigit 46 = 0" "isdigit 0 = 0"
  by (simp_all add: isspace_def isdigit_def)

lemma atof_int_digits:
  assumes "bytes_at m s (map digit_byte ds)" "\<forall>d \<in> set ds. d < 10" "load8 m (s + of_nat (length ds)) = Some c" "isdigit (uint c) = 0"
  shows "atof_int exact m s (real v) = Some (real (foldl (\<lambda>v d. v * 10 + d) v ds), s + of_nat (length ds))"
  using assms(1-3)
proof (induction ds arbitrary: s v)
  case Nil
  then show ?case using assms(4) by (simp add: atof_int.simps [of exact m s])
next
  case (Cons d ds)
  have "atof_int exact m (s + 1) (real (v * 10 + d)) = Some (real (foldl (\<lambda>v d. v * 10 + d) (v * 10 + d) ds), s + 1 + of_nat (length ds))"
    using Cons.prems by (intro Cons.IH) (simp_all add: add.assoc)
  then show ?case using Cons.prems digit_byte_facts [of d] by (simp add: atof_int.simps [of exact m s] add.assoc)
qed

lemma decimal_value_snoc: "decimal_value (ds @ [d]) = decimal_value ds * 10 + d"
  by (simp add: decimal_value_def)

primrec fraction :: "nat list \<Rightarrow> real" where
  "fraction [] = 0"
| "fraction (d # ds) = real d / 10 + fraction ds / 10"

lemma fraction_snoc: "fraction (ds @ [d]) = fraction ds + real d / 10 ^ Suc (length ds)"
  by (induction ds) (simp_all add: field_simps)

lemma fraction_value: "fraction ds = real (decimal_value ds) / 10 ^ length ds"
proof (induction ds rule: rev_induct)
  case (snoc d ds)
  show ?case unfolding fraction_snoc snoc decimal_value_snoc by (simp add: field_simps)
qed (simp add: decimal_value_def)

lemma atof_frac_digits:
  assumes "bytes_at m s (map digit_byte ds)" "\<forall>d \<in> set ds. d < 10" "load8 m (s + of_nat (length ds)) = Some c" "isdigit (uint c) = 0"
  shows "atof_frac exact m s v f = Some (v + 10 * f * fraction ds)"
  using assms(1-3)
proof (induction ds arbitrary: s v f)
  case Nil
  then show ?case using assms(4) by (simp add: atof_frac.simps [of exact m s])
next
  case (Cons d ds)
  have "atof_frac exact m (s + 1) (v + real d * f) (f * (1 / 10)) = Some (v + real d * f + 10 * (f * (1 / 10)) * fraction ds)"
    using Cons.prems by (intro Cons.IH) (simp_all add: add.assoc)
  then show ?case using Cons.prems digit_byte_facts [of d] by (simp add: atof_frac.simps [of exact m s] of_rat_divide algebra_simps)
qed



end
