(* ===== verification/Headers.thy ===== *)
theory Headers
  imports Stdlib
begin

text \<open>
  The parts of the C headers (\<^verbatim>\<open>apps/doom/include\<close>) that are code rather than declarations: the
  error numbers, the file-mode macros, the format macros of \<^verbatim>\<open>inttypes.h\<close>, the assertion macro and
  the limits of the exit status and the random numbers.
\<close>

section \<open>Error numbers\<close>

datatype errno = EPERM | ENOENT | ESRCH | EINTR | EIO | ENXIO | EBADF | ECHILD | EAGAIN | ENOMEM | EACCES | EFAULT
  | EBUSY | EEXIST | ENODEV | ENOTDIR | EISDIR | EINVAL | ENFILE | EMFILE | ENOSPC | EROFS | EPIPE | ERANGE | ENOSYS

fun errno_code :: "errno \<Rightarrow> int" where
  "errno_code EPERM = 1"
| "errno_code ENOENT = 2"
| "errno_code ESRCH = 3"
| "errno_code EINTR = 4"
| "errno_code EIO = 5"
| "errno_code ENXIO = 6"
| "errno_code EBADF = 9"
| "errno_code ECHILD = 10"
| "errno_code EAGAIN = 11"
| "errno_code ENOMEM = 12"
| "errno_code EACCES = 13"
| "errno_code EFAULT = 14"
| "errno_code EBUSY = 16"
| "errno_code EEXIST = 17"
| "errno_code ENODEV = 19"
| "errno_code ENOTDIR = 20"
| "errno_code EISDIR = 21"
| "errno_code EINVAL = 22"
| "errno_code ENFILE = 23"
| "errno_code EMFILE = 24"
| "errno_code ENOSPC = 28"
| "errno_code EROFS = 30"
| "errno_code EPIPE = 32"
| "errno_code ERANGE = 34"
| "errno_code ENOSYS = 38"

lemma errno_code_inj: "errno_code e = errno_code e' \<Longrightarrow> e = e'"
  by (cases e; cases e') simp_all

section \<open>File modes\<close>

definition S_IFMT :: u32 where "S_IFMT = 0xF000"
definition S_IFREG :: u32 where "S_IFREG = 0x8000"
definition S_IFDIR :: u32 where "S_IFDIR = 0x4000"
definition S_IFCHR :: u32 where "S_IFCHR = 0x2000"
definition S_IFBLK :: u32 where "S_IFBLK = 0x6000"
definition S_IFIFO :: u32 where "S_IFIFO = 0x1000"
definition S_IFLNK :: u32 where "S_IFLNK = 0xA000"
definition S_IRWXU :: u32 where "S_IRWXU = 0x1C0"
definition S_IRUSR :: u32 where "S_IRUSR = 0x100"
definition S_IWUSR :: u32 where "S_IWUSR = 0x80"
definition S_IXUSR :: u32 where "S_IXUSR = 0x40"
definition S_IRWXG :: u32 where "S_IRWXG = 0x38"
definition S_IRGRP :: u32 where "S_IRGRP = 0x20"
definition S_IWGRP :: u32 where "S_IWGRP = 0x10"
definition S_IXGRP :: u32 where "S_IXGRP = 0x8"
definition S_IRWXO :: u32 where "S_IRWXO = 0x7"
definition S_IROTH :: u32 where "S_IROTH = 0x4"
definition S_IWOTH :: u32 where "S_IWOTH = 0x2"
definition S_IXOTH :: u32 where "S_IXOTH = 0x1"

definition S_ISDIR :: "u32 \<Rightarrow> bool" where "S_ISDIR m \<longleftrightarrow> m AND S_IFMT = S_IFDIR"
definition S_ISREG :: "u32 \<Rightarrow> bool" where "S_ISREG m \<longleftrightarrow> m AND S_IFMT = S_IFREG"
definition S_ISCHR :: "u32 \<Rightarrow> bool" where "S_ISCHR m \<longleftrightarrow> m AND S_IFMT = S_IFCHR"
definition S_ISBLK :: "u32 \<Rightarrow> bool" where "S_ISBLK m \<longleftrightarrow> m AND S_IFMT = S_IFBLK"

lemmas file_types = S_ISDIR_def S_ISREG_def S_ISCHR_def S_ISBLK_def S_IFDIR_def S_IFREG_def S_IFCHR_def S_IFBLK_def

text \<open>A mode has at most one type, and its permissions do not change it.\<close>

lemma file_type_unique: "length (filter (\<lambda>t. t mode) [S_ISDIR, S_ISREG, S_ISCHR, S_ISBLK]) \<le> 1"
  by (auto simp: file_types)

lemma permissions_keep_type:
  assumes "perm AND S_IFMT = 0"
  shows "S_ISDIR (mode OR perm) = S_ISDIR mode" "S_ISREG (mode OR perm) = S_ISREG mode"
    "S_ISCHR (mode OR perm) = S_ISCHR mode" "S_ISBLK (mode OR perm) = S_ISBLK mode"
  using assms by (simp_all add: S_ISDIR_def S_ISREG_def S_ISCHR_def S_ISBLK_def bit.conj_disj_distrib2)

lemma permission_bits:
  "S_IRUSR OR S_IWUSR OR S_IXUSR = S_IRWXU" "S_IRGRP OR S_IWGRP OR S_IXGRP = S_IRWXG"
  "S_IROTH OR S_IWOTH OR S_IXOTH = S_IRWXO" "(S_IRWXU OR S_IRWXG OR S_IRWXO) AND S_IFMT = 0"
  by code_simp+

section \<open>Limits\<close>

definition EXIT_SUCCESS :: int where "EXIT_SUCCESS = 0"
definition EXIT_FAILURE :: int where "EXIT_FAILURE = 1"
definition RAND_MAX :: int where "RAND_MAX = 0x7fff"

lemma rand_range: "0 \<le> fst (rand r)" "fst (rand r) \<le> RAND_MAX"
proof -
  have m: "(0x7fff :: u64) = mask 15" by (simp add: mask_eq_exp_minus_1)
  have "uint (x AND mask 15) < 2 ^ 15" for x :: u64
    using take_bit_int_less_exp [of 15 "uint x"] by (simp add: unsigned_take_bit_eq flip: take_bit_eq_mask)
  from this [of "drop_bit 16 (r * 1103515245 + 12345)"] show "fst (rand r) \<le> RAND_MAX"
    unfolding rand_def m RAND_MAX_def Let_def fst_conv by simp
qed (simp add: rand_def Let_def)

section \<open>Assertions\<close>

definition assert_macro :: "bool \<Rightarrow> 's stdio_scheme \<Rightarrow> bool \<Rightarrow> addr \<Rightarrow> addr \<Rightarrow> u32 \<Rightarrow> addr \<Rightarrow> 's stdio_scheme option" where
  "assert_macro NDEBUG s holds expr file line fn =
     (if NDEBUG \<or> holds then Some s else assert_fail s expr file line fn)"

section \<open>Format macros\<close>

datatype pri = PRId | PRIi | PRIu | PRIx | PRIX

text \<open>\<open>PRI c w\<close> stands for the macro of the conversion \<open>c\<close> with the width \<open>w\<close>, as in \<^verbatim>\<open>PRIu64\<close>.\<close>

fun pri_char :: "pri \<Rightarrow> byte" where
  "pri_char PRId = of_char CHR ''d''"
| "pri_char PRIi = of_char CHR ''i''"
| "pri_char PRIu = of_char CHR ''u''"
| "pri_char PRIx = of_char CHR ''x''"
| "pri_char PRIX = of_char CHR ''X''"

definition PRI :: "pri \<Rightarrow> nat \<Rightarrow> byte list" where
  "PRI c w = (if w = 64 then chars ''ll'' else []) @ [pri_char c]"

definition hexadecimal :: "bool \<Rightarrow> nat \<Rightarrow> byte list" where
  "hexadecimal upper v = (if v = 0 then [48] else rev (digits_rev 16 upper v))"

text \<open>The text of an argument \<open>x\<close>: a narrow type arrives promoted to 32 bits.\<close>

fun pri_text :: "pri \<Rightarrow> nat \<Rightarrow> u64 \<Rightarrow> byte list" where
  "pri_text PRIu w x = decimal (if w = 64 then unat x else unat (ucast x :: u32))"
| "pri_text PRIx w x = hexadecimal False (if w = 64 then unat x else unat (ucast x :: u32))"
| "pri_text PRIX w x = hexadecimal True (if w = 64 then unat x else unat (ucast x :: u32))"
| "pri_text _ w x = decimal_int (if w = 64 then sint x else sint (ucast x :: u32))"

lemma fmtUint_hexadecimal:
  assumes "v < 2 ^ 64"
  shows "fmtUint v 16 upper False 0 None False False = Some (hexadecimal upper v)"
proof -
  have "(2 :: nat) ^ 64 \<le> 16 ^ 64" by (rule power_mono) simp_all
  then have "length (digits_rev 16 upper v) \<le> 64" using assms by (intro length_digits_rev) simp_all
  then show ?thesis by (simp add: fmtUint_def hexadecimal_def Let_def)
qed

lemma parse_spec_pri:
  assumes "cstr m p (PRI c w)"
  shows "\<exists>q. parse_spec m p args = Some (plain_spec\<lparr>f_long := if w = 64 then 2 else 0\<rparr>, q, args) \<and>
    load8 m q = Some (pri_char c) \<and> load8 m (q + 1) = Some 0"
  using assms
  by (cases c; cases "w = 64")
    (simp_all add: PRI_def chars_def parse_spec_def parse_flags_none parse_num_none parse_width_def parse_prec_def parse_long_def
      plain_spec_def add.assoc)

lemma convert_pri:
  assumes "c \<in> {PRId, PRIi} \<and> w = 64 \<longrightarrow> sint x \<noteq> LONG_MIN"
  shows "convert m (plain_spec\<lparr>f_long := if w = 64 then 2 else 0\<rparr>) (pri_char c) (x # args) = Some ([Lit (pri_text c w x)], args)"
proof -
  let ?u = "if w = 64 then unat x else unat (ucast x :: u32)" and ?s = "if w = 64 then sint x else sint (ucast x :: u32)"
  have "unat x < 2 ^ 64" "unat (ucast x :: u32) < 2 ^ 64"
    using unsigned_less [of x, where 'a = nat] unsigned_less [of "ucast x :: u32", where 'a = nat] by simp_all
  then have u: "?u < 2 ^ 64" by simp
  have conv: "(if ?s < 0 then c_long (- ?s) else Some ?s) = Some \<bar>?s\<bar> \<and> \<bar>?s\<bar> < 2 ^ 63" if "c \<in> {PRId, PRIi}"
    using assms that sint_ge [of x] sint_lt [of x] sint_ge [of "ucast x :: u32"] sint_lt [of "ucast x :: u32"]
    by (cases "w = 64") (auto simp: c_range_defs)
  show ?thesis
  proof (cases "c \<in> {PRId, PRIi}")
    case True
    have "va_signed (if w = 64 then 2 else 0) (x # args) = Some (?s, args)"
      by (simp add: va_signed_def va_int_def va_slot_def)
    moreover have "pri_char c = 100 \<or> pri_char c = 105" "pri_text c w x = decimal_int ?s" using True by auto
    ultimately show ?thesis using conv [OF True] fmtUint_decimal_int [of ?s]
      by (simp add: convert_def plain_spec_def del: pri_text.simps)
  next
    case False
    have "va_unsigned (if w = 64 then 2 else 0) (x # args) = Some (?u, args)" by (simp add: va_unsigned_def va_slot_def)
    then show ?thesis using False u fmtUint_decimal [OF u] fmtUint_hexadecimal [OF u]
      by (cases c) (simp_all add: convert_def plain_spec_def)
  qed
qed


text \<open>Printing the smallest 64-bit integer overflows.\<close>

theorem pri_min_overflows:
  assumes "cstr m p (37 # PRI PRId 64)" "sint x = LONG_MIN"
  shows "format_bytes m p [x] = None"
proof -
  have "load8 m p = Some 37" "cstr m (p + 1) (PRI PRId 64)" using assms(1) by simp_all
  moreover from parse_spec_pri [OF this(2), of "[x]"] obtain q where
    "parse_spec m (p + 1) [x] = Some (plain_spec\<lparr>f_long := 2\<rparr>, q, [x])" "load8 m q = Some 100" by auto
  ultimately show ?thesis using assms(2)
    by (simp add: format_bytes.simps [of m p] convert_def plain_spec_def va_signed_def va_slot_def c_range_defs)
qed


end
