(* ===== verification/Spec2Isabelle.thy ===== *)
theory Spec2Isabelle
  imports Doom MathFns Headers
begin

text \<open>
  Verification of the DOOM port of the Innigkeit operating system: the C runtime and the platform
  layer under \<^verbatim>\<open>apps/doom\<close>, the system call wrappers they call, and the kernel handlers behind
  those calls.

  \<^bold>\<open>The program.\<close>  The game (\<^verbatim>\<open>doomgeneric\<close>, a submodule) calls a C library and six platform
  functions.  \<^verbatim>\<open>innigkeit_libc.c\<close> is the library: strings, heap, printing, files held in memory,
  sorting, mathematics.  \<^verbatim>\<open>libc.zig\<close> adds \<^verbatim>\<open>vsnprintf\<close> and the string comparisons.
  \<^verbatim>\<open>doomgeneric_innigkeit.c\<close> is the platform layer: it maps the framebuffer, draws frames scaled by
  two, and turns PS/2 scancodes into key events in a ring.  Both reach the kernel through
  \<^verbatim>\<open>syscalls.zig\<close> (declared in \<^verbatim>\<open>innigkeit_syscalls.h\<close>): memory comes from \<^verbatim>\<open>mmap\<close>, files from the
  initial file system or a data disk, keys from a ring that the keyboard interrupt fills.

  \<^bold>\<open>The theories.\<close>
  \<^item> \<^verbatim>\<open>Prelude\<close>: words, options and lists; \<^verbatim>\<open>int\<close> and \<^verbatim>\<open>long\<close> arithmetic with overflow undefined.
  \<^item> \<^verbatim>\<open>CMem\<close>: the process memory, byte and word access, the compiler's memory builtins.
  \<^item> \<^verbatim>\<open>CString\<close>, \<^verbatim>\<open>CNumber\<close>: \<^verbatim>\<open>innigkeit_libc.c\<close> lines 81-205, the string, character and
    conversion functions.
  \<^item> \<^verbatim>\<open>Ring\<close>: the locales \<open>bounded_fifo\<close> and \<open>dropping_fifo\<close> of the two key rings.
  \<^item> \<^verbatim>\<open>Kernel\<close>: \<^verbatim>\<open>Error.zig\<close>, \<^verbatim>\<open>validate.zig\<close>, the handlers in \<^verbatim>\<open>memory.zig\<close>, \<^verbatim>\<open>io.zig\<close>,
    \<^verbatim>\<open>process.zig\<close>, \<^verbatim>\<open>framebuffer.zig\<close>, the ustar parser of \<^verbatim>\<open>initfs.zig\<close>, \<^verbatim>\<open>readSectors\<close> of
    \<^verbatim>\<open>blk.zig\<close> and \<^verbatim>\<open>RawKeyBuffer\<close> of \<^verbatim>\<open>ps2.zig\<close>, over the record \<open>machine\<close>.
  \<^item> \<^verbatim>\<open>Syscalls\<close>: the register encoding of results, \<^verbatim>\<open>Writer.print\<close> and the C wrappers.
  \<^item> \<^verbatim>\<open>Heap\<close>: lines 29-79 and \<^verbatim>\<open>strdup\<close>; the record \<open>heap\<close> extends \<open>machine\<close>.
  \<^item> \<^verbatim>\<open>Format\<close>: \<^verbatim>\<open>libc.zig\<close>.
  \<^item> \<^verbatim>\<open>Stdio\<close>: printing, assertions, \<^verbatim>\<open>exit\<close>; the record \<open>stdio\<close> extends \<open>heap\<close>.
  \<^item> \<^verbatim>\<open>Files\<close>: lines 277-470, the file table; the record \<open>files\<close> extends \<open>stdio\<close>.
  \<^item> \<^verbatim>\<open>Stdlib\<close>: lines 472-589, time, stubs, \<^verbatim>\<open>sscanf\<close>, \<^verbatim>\<open>rand\<close>, \<^verbatim>\<open>qsort\<close>, \<^verbatim>\<open>bsearch\<close>.
  \<^item> \<^verbatim>\<open>MathFns\<close>: \<^verbatim>\<open>atof\<close> and lines 592-652.
  \<^item> \<^verbatim>\<open>Headers\<close>: the macros of \<^verbatim>\<open>include\<close> that are code.
  \<^item> \<^verbatim>\<open>Doom\<close>: \<^verbatim>\<open>doomgeneric_innigkeit.c\<close>; the record \<open>doom\<close> extends \<open>files\<close>.
  \<^item> \<^verbatim>\<open>Spec2Isabelle\<close>: the properties that span components.

  Each definition has the name of the function, variable or macro it translates.  A suffix
  \<open>_c\<close> avoids a clash with the library of Isabelle; a loop of a function \<open>f\<close> is \<open>f_loop\<close> or named
  after what it does.  A static variable is a field of the record; a \<^verbatim>\<open>FILE *\<close> is an index of the
  table.  Undefined behaviour, a failing check of Zig and a loop that does not end are the value
  \<^const>\<open>None\<close>, so a theorem that a call gives \<^const>\<open>Some\<close> also says that it is free of them.

  \<^bold>\<open>What is shown.\<close>
  \<^item> Memory: the heap keeps its invariant under every sequence of calls, live blocks stay disjoint
    and untouched; \<^verbatim>\<open>malloc\<close>, \<^verbatim>\<open>calloc\<close>, \<^verbatim>\<open>realloc\<close> and \<^verbatim>\<open>strdup\<close> meet their contracts.
  \<^item> Strings and numbers: each function computes its specification on lists and changes nothing
    else; the formatter writes what \<open>format_bytes\<close> says, cut to the buffer, and never more.
  \<^item> Files: opening finds the file in the archive or loads the WAD of the disk, and terminates;
    reading refines a stream of bytes, in one piece or several; seeking and lines.
  \<^item> Sorting and searching for any comparison that is a total preorder (locale \<open>comparator\<close>).
  \<^item> Mathematics: bounds and exact results of the algorithms in real arithmetic.
  \<^item> The platform layer: a frame drawn is the scaled image clipped to the screen; typed keys arrive
    in order; every sequence of steps (the relation \<open>dg_step\<close>) keeps the rings well formed.
  \<^item> The kernel: \<^verbatim>\<open>mmap\<close> is fresh and zeroed, \<^verbatim>\<open>blk_read\<close> gives the slice of the disk,
    the archive lookup finds the first file of a name, error codes round-trip.
  \<^item> Error paths: the theorems named \<open>strncat_overrun\<close>, \<open>strstr_overread\<close>, \<open>malloc_size_wraps\<close>,
    \<open>realloc_overread\<close>, \<open>vsnprintf_percent_overread\<close>, \<open>fputs_newline\<close>, \<open>fwrite_long_lost\<close>,
    \<open>pri_min_overflows\<close> and \<open>fb_wrap_guard_dead\<close>, and the property about a full key queue, state
    where the code does not do what C or its comments promise.

  \<^bold>\<open>Bounds.\<close>  No definition uses fuel.  Loops over memory end because the address rises and the null
  address is unmapped; counted loops end by their counter.  Three loops are partial functions in the
  option type: the wait for the clock, the binary search (which an inconsistent comparison may keep
  running) and the reading of the disk.  That they return is part of the properties about them.

  \<^bold>\<open>Parameters.\<close>  The address-space allocator, the sector requests of the disk, the clock and the
  contents of physical memory are fields of \<open>machine\<close>; the key codes and the resolution of the
  game, the comparison functions and the floating-point operations are arguments.

  \<^bold>\<open>Not modelled.\<close>
  \<^item> The game itself, whose sources are not in the repository; \<^verbatim>\<open>main.zig\<close>, which only calls it in a
    loop; \<^verbatim>\<open>doom_stub.c\<close>, two empty functions.
  \<^item> The rounding of floating-point arithmetic: it is in the parameter, and the properties are about
    exact arithmetic.
  \<^item> Prototypes, type names and unused constants in the headers, which have no behaviour.
  \<^item> \<^verbatim>\<open>innigkeit_munmap\<close>, which nothing calls, and the handlers that serve other programs.
  \<^item> That a framebuffer page is also physical memory: after it is mapped, its bytes are process memory.
  \<^item> Scheduling and interrupts within a handler: a handler runs as one step.
  \<^item> The memory manager, scheduler, capabilities, network, drivers beyond the two above, boot code,
    build system, tools and other applications: Zig, Rust and assembly that the port does not run
    through or reaches only by the parameters above.
\<close>

section \<open>Properties across the components\<close>


lemma setting_format:
  assumes "cstr m fmt (chars ''%s %d'')" "cstr m nm name"
  shows "format_bytes m fmt [nm, x] = Some (setting_line name (sint (ucast x :: u32)))"
proof -
  have f: "bytes_at m fmt [37, 115]" "bytes_at m (fmt + 1 + 1) [32]" "bytes_at m (fmt + 1 + 1 + 1) [37, 100]"
      "load8 m (fmt + 1 + 1 + 1 + 1 + 1) = Some 0"
    using assms(1) by (simp_all add: chars_def)
  have "format_bytes m (fmt + 1 + 1 + 1) [x] = Some (decimal_int (sint (ucast x :: u32)))"
    using format_bytes_d [OF f(3) format_bytes_end [OF f(4), of "[]"], of x] by simp
  then have "format_bytes m (fmt + 1 + 1) [x] = Some (32 # decimal_int (sint (ucast x :: u32)))"
    using format_bytes_plain [OF f(2), of "[x]"] by simp
  from format_bytes_s [OF f(1) assms(2) this] show ?thesis by (simp add: setting_line_def)
qed

lemma setting_roundtrip_aux:
  fixes x :: u64 and name :: "byte list"
  defines "line \<equiv> setting_line name (sint (ucast x :: u32))"
  assumes "cstr m fmt (chars ''%s %d'')" "cstr m nm name" "name \<noteq> []" "list_all word_char name"
    "mapped m buf (Suc (length line))" "int (length line) \<le> INT_MAX"
    "sep buf (Suc (length line)) fmt 6" "sep buf (Suc (length line)) nm (Suc (length name))"
    "mapped m np (Suc (length name))" "mapped m p 4" "sep np (Suc (length name)) buf (Suc (length line))"
    "sep np (Suc (length name)) fmt 6" "sep p 4 fmt 6"
  shows "sprintf m buf fmt [nm, x] = Some (int (length line), write_bytes m buf (line @ [0]))"
    "sscanf (write_bytes m buf (line @ [0])) buf fmt [np, p] =
      Some (2, write_bytes (write_bytes (write_bytes m buf (line @ [0])) np (name @ [0])) p (le_bytes 4 (ucast x :: u32)))"
proof -
  have fl: "Suc (length (chars ''%s %d'')) = 6" by (simp add: chars_def)
  let ?u = "unmap_range m buf (length line)"
  have "cstr ?u fmt (chars ''%s %d'')" "cstr ?u nm name"
    using assms(2,3,8,9) by (intro cstr_unmap; auto simp: fl sep_def)+
  then have "format_bytes ?u fmt [nm, x] = Some line" unfolding line_def by (rule setting_format)
  then show "sprintf m buf fmt [nm, x] = Some (int (length line), write_bytes m buf (line @ [0]))"
    using assms(6,7) by (rule sprintf_shows)
  define m1 where "m1 = write_bytes m buf (line @ [0])"
  have z: "0 \<notin> set line"
    using assms(3) decimal_no_nul [of "nat \<bar>sint (ucast x :: u32)\<bar>"]
    by (auto simp: line_def setting_line_def decimal_int_def cstr_def)
  have b: "0 < unat buf" "unat buf + length (line @ [0]) \<le> 2 ^ 64" using mapped_bounds [OF assms(6)] by simp_all
  have "cstr m1 buf line" unfolding m1_def cstr_def using write_bytes_at [OF b] z by simp
  moreover have "cstr m1 fmt (chars ''%s %d'')"
    unfolding m1_def using assms(2,6,8) by (intro cstr_write_sep) (simp_all add: fl)
  moreover have "mapped m1 np (Suc (length name))" "mapped m1 p 4" 
    unfolding m1_def by (rule mapped_write [OF assms(10)]) (rule mapped_write [OF assms(11)])
  moreover have "INT_MIN \<le> sint (ucast x :: u32)" "sint (ucast x :: u32) \<le> INT_MAX"
    using sint_ge [of "ucast x :: u32"] sint_lt [of "ucast x :: u32"] by (simp_all add: c_range_defs)
  ultimately show "sscanf (write_bytes m buf (line @ [0])) buf fmt [np, p] =
      Some (2, write_bytes (write_bytes (write_bytes m buf (line @ [0])) np (name @ [0])) p (le_bytes 4 (ucast x :: u32)))"
    using sscanf_setting_line [of m1 buf name "sint (ucast x :: u32)" fmt np p "[]"] assms(4,5,12-14)
    by (simp add: m1_def line_def)
qed

text \<open>
  C5.  A setting printed with sprintf and the format "%s %d" is read back by sscanf with the same
  format: two items, the same name and the same 32-bit value, for every name without white space
  and every value.
\<close>

theorem setting_roundtrip:
  fixes x :: u64 and name :: "byte list"
  defines "line \<equiv> setting_line name (sint (ucast x :: u32))"
  assumes "cstr m fmt (chars ''%s %d'')" "cstr m nm name" "name \<noteq> []" "list_all word_char name"
    "mapped m buf (Suc (length line))" "int (length line) \<le> INT_MAX"
    "sep buf (Suc (length line)) fmt 6" "sep buf (Suc (length line)) nm (Suc (length name))"
    "mapped m np (Suc (length name))" "mapped m p 4" "sep np (Suc (length name)) buf (Suc (length line))"
    "sep np (Suc (length name)) fmt 6" "sep p 4 fmt 6" "sep p 4 np (Suc (length name))"
  shows "\<exists>m1 m2. sprintf m buf fmt [nm, x] = Some (int (length line), m1) \<and> sscanf m1 buf fmt [np, p] = Some (2, m2) \<and>
    cstr m2 np name \<and> load32 m2 p = Some (ucast x)"
proof -
  define m1 where "m1 = write_bytes m buf (line @ [0])"
  define m2 where "m2 = write_bytes m1 np (name @ [0])"
  define m3 where "m3 = write_bytes m2 p (le_bytes 4 (ucast x :: u32))"
  note io = setting_roundtrip_aux [OF assms(2-14) [unfolded line_def], folded line_def]
  have mp: "mapped m2 p 4" unfolding m2_def m1_def using assms(11) by (intro mapped_write)
  have b: "0 < unat np" "unat np + length (name @ [0]) \<le> 2 ^ 64" "0 < unat p" "unat p + 4 \<le> 2 ^ 64"
    using mapped_bounds [OF assms(10)] mapped_bounds [OF assms(11)] by simp_all
  have "cstr m2 np name" using write_bytes_at [OF b(1,2), of m1] assms(3) by (simp add: m2_def cstr_def)
  then have "cstr m3 np name" unfolding m3_def using assms(15) mp by (intro cstr_write_sep) simp_all
  moreover have "load32 m3 p = Some (ucast x)"
    unfolding m3_def using write_bytes_at [of p "le_bytes 4 (ucast x :: u32)" m2] b(3,4) by (intro load32_bytes_at) simp
  ultimately show ?thesis using io by (intro exI [of _ m1] exI [of _ m3]) (simp add: m1_def m2_def m3_def)
qed

section \<open>Witnesses\<close>


definition setting_mem :: mem where
  "setting_mem = write_bytes (write_bytes (write_bytes (write_bytes (write_bytes Map.empty 0x1000 [37, 115, 32, 37, 100, 0]) 0x2000 [102, 111, 118, 0])
     0x3000 [0, 0, 0, 0, 0, 0, 0, 0]) 0x4000 [0, 0, 0, 0]) 0x5000 [0, 0, 0, 0]"

theorem setting_roundtrip_witness:
  "\<exists>m1 m2. sprintf setting_mem 0x3000 0x1000 [0x2000, - 42] = Some (7, m1) \<and> sscanf m1 0x3000 0x1000 [0x4000, 0x5000] = Some (2, m2) \<and>
    cstr m2 0x4000 [102, 111, 118] \<and> load32 m2 0x5000 = Some (- 42)"
proof -
  have line: "setting_line [102, 111, 118] (sint (ucast (- 42 :: u64) :: u32)) = [102, 111, 118, 32, 45, 52, 50]" by code_simp
  have b: "bytes_at setting_mem 0x3000 [0, 0, 0, 0, 0, 0, 0, 0]" "bytes_at setting_mem 0x4000 [0, 0, 0, 0]"
      "bytes_at setting_mem 0x5000 [0, 0, 0, 0]" by (simp_all add: setting_mem_def load8_def)
  have "\<exists>m1 m2. sprintf setting_mem 0x3000 0x1000 [0x2000, - 42] =
        Some (int (length (setting_line [102, 111, 118] (sint (ucast (- 42 :: u64) :: u32)))), m1) \<and>
      sscanf m1 0x3000 0x1000 [0x4000, 0x5000] = Some (2, m2) \<and>
      cstr m2 0x4000 [102, 111, 118] \<and> load32 m2 0x5000 = Some (ucast (- 42 :: u64))"
  proof (rule setting_roundtrip)
    show "cstr setting_mem 0x1000 (chars ''%s %d'')" "cstr setting_mem 0x2000 [102, 111, 118]"
      by (simp_all add: chars_def setting_mem_def load8_def)
    show "list_all word_char [102, 111, 118]" by code_simp
    show "mapped setting_mem 0x5000 4" by (rule bytes_mapped [OF b(3)]) simp
  qed (unfold line, use b in \<open>simp_all add: sep_def INT_MAX_def\<close>)
  moreover have uc: "ucast (- 42 :: u64) = (- 42 :: u32)" by code_simp
  ultimately show ?thesis unfolding line unfolding uc by simp
qed

end
